(* ===== verification/Gfsim_Prelude.thy ===== *)
theory Gfsim_Prelude
  imports Main "HOL-Library.Word"
begin

text \<open>
  Shared vocabulary of the development: the machine integers of the C++ runtime, the exceptions
  it throws, the collections of simplification rules the component theories extend, and the
  generic facts on lists, natural numbers and words that several components use.
\<close>

unbundle bit_operations_syntax

type_synonym u8 = "8 word"
type_synonym u32 = "32 word"
type_synonym u64 = "64 word"

text \<open>
  The exceptions of \<^verbatim>\<open>include/gfsim\<close>: \<open>FourStateViolation\<close> is the runtime's own, the
  other two are the standard library's.  A throwing operation returns \<open>Inl\<close>, or the exception
  beside the state it left behind when the state survives the throw.
\<close>

datatype exn = FourStateViolation string | InvalidArgument string | OutOfRange string

named_theorems bits_wf_intros \<open>operations of Bits keep the representation invariant\<close>
named_theorems bits_val_simps \<open>the natural number each operation of Bits denotes\<close>
named_theorems bits_bit_simps \<open>the bits each operation of Bits denotes\<close>

subsection \<open>Natural numbers as bit strings\<close>

lemma nat_bits_less_iff:
  fixes n :: nat
  shows "n < 2 ^ w \<longleftrightarrow> (\<forall>i\<ge>w. \<not> bit n i)"
proof
  assume "n < 2 ^ w"
  then have "take_bit w n = n" by (simp add: take_bit_nat_eq_self)
  then show "\<forall>i\<ge>w. \<not> bit n i" by (metis bit_take_bit_iff not_le)
next
  assume "\<forall>i\<ge>w. \<not> bit n i"
  then have "take_bit w n = n"
    by (intro bit_eqI) (auto simp: bit_take_bit_iff not_le[symmetric])
  then show "n < 2 ^ w" by (metis take_bit_nat_less_exp)
qed

lemma nat_bit_eq_iff: "(m::nat) = n \<longleftrightarrow> (\<forall>i. bit m i = bit n i)"
  by (auto intro: bit_eqI)

lemma nat_bit_lessD: "(n::nat) < 2 ^ w \<Longrightarrow> bit n i \<Longrightarrow> i < w"
  using nat_bits_less_iff not_le by blast

lemma mod_exp_eq_self: "(n::nat) < 2 ^ w \<Longrightarrow> n mod 2 ^ w = n"
  by simp

lemma bit_word_ge_len [simp]: "64 \<le> k \<Longrightarrow> \<not> bit (x::u64) k"
  using bit_imp_le_length by fastforce

lemma unat_u64_less: "unat (x::u64) < 2 ^ 64"
  using unsigned_less[of x] by simp

lemma bit_unat_u64: "bit (unat (x::u64)) k \<longleftrightarrow> bit x k"
  by (simp add: bit_unsigned_iff)

lemma u64_eq_iff: "(x::u64) = y \<longleftrightarrow> unat x = unat y"
  by (simp add: word_unat_eq_iff)

subsection \<open>Lists indexed by a counter\<close>

lemma nth_map_upt [simp]: "i < n \<Longrightarrow> map f [0..<n] ! i = f i"
  by simp

lemma list_all_upt_iff: "list_all P [a..<b] \<longleftrightarrow> (\<forall>i. a \<le> i \<and> i < b \<longrightarrow> P i)"
  by (auto simp: list_all_iff)

end
