(* ===== verification/Gfsim_Bits.thy ===== *)
theory Gfsim_Bits
  imports Gfsim_Prelude
begin

text \<open>
  The fixed-width value \<^verbatim>\<open>Bits<Width>\<close> of \<^verbatim>\<open>include/gfsim/bits.h\<close>: an array of
  \<open>kWords\<close> 64-bit words whose last word is masked to the width.  The template parameter is the
  first argument \<open>w\<close> of each definition, an array is a list of that many words (its indices are in
  range by construction), and a \<open>for\<close> loop over the words is a \<open>map\<close> or a fold over the
  same indices, or a recursion over the words when it carries a value.  Index variables of type
  \<^verbatim>\<open>unsigned\<close> stay below the width and are natural numbers here.

  \<open>bval\<close> reads the words as one natural number and \<open>bits_wf\<close> is the class invariant; the lemmas
  say what number, or what bits, each operation denotes.
\<close>

type_synonym bits = "u64 list"

subsection \<open>Representation\<close>

definition kWords :: "nat \<Rightarrow> nat" where
  "kWords w = 1 + (w - 1) div 64"

definition topMask :: "nat \<Rightarrow> u64" where
  "topMask w = (if w mod 64 = 0 then NOT 0 else push_bit (w mod 64) 1 - 1)"

definition maskTop :: "nat \<Rightarrow> bits \<Rightarrow> bits" where
  "maskTop w ws = ws[kWords w - 1 := ws ! (kWords w - 1) AND topMask w]"

definition bits_default :: "nat \<Rightarrow> bits" where
  "bits_default w = replicate (kWords w) 0"

definition bits_of_word :: "nat \<Rightarrow> u64 \<Rightarrow> bits" where
  "bits_of_word w low = maskTop w ((replicate (kWords w) 0)[0 := low])"

fun init_words :: "nat \<Rightarrow> nat \<Rightarrow> bits \<Rightarrow> u64 list \<Rightarrow> bits" where
  "init_words n i acc [] = acc"
| "init_words n i acc (x # xs) = (if i \<ge> n then acc else init_words n (Suc i) (acc[i := x]) xs)"

definition bits_of_words :: "nat \<Rightarrow> u64 list \<Rightarrow> bits" where
  "bits_of_words w xs = maskTop w (init_words (kWords w) 0 (replicate (kWords w) 0) xs)"

definition bits_value :: "bits \<Rightarrow> u64" where
  "bits_value a = a ! 0"

definition toBool :: "bits \<Rightarrow> bool" where
  "toBool a = (a ! 0 AND 1 \<noteq> 0)"

definition bits_word :: "nat \<Rightarrow> bits \<Rightarrow> nat \<Rightarrow> u64" where
  "bits_word w a i = (if i < kWords w then a ! i else 0)"

definition setWord :: "nat \<Rightarrow> bits \<Rightarrow> nat \<Rightarrow> u64 \<Rightarrow> bits" where
  "setWord w a i x =
     (if i \<ge> kWords w then a
      else if i + 1 = kWords w then a[i := x AND topMask w]
      else a[i := x])"

definition bits_bit :: "nat \<Rightarrow> bits \<Rightarrow> nat \<Rightarrow> bool" where
  "bits_bit w a i =
     (if i \<ge> w then False
      else drop_bit (i mod 64) (bits_word w a (i div 64)) AND 1 \<noteq> 0)"

definition bits_mask :: "nat \<Rightarrow> u64" where
  "bits_mask w = (if w \<ge> 64 then NOT 0 else push_bit w 1 - 1)"

definition bits_ones :: "nat \<Rightarrow> bits" where
  "bits_ones w = maskTop w (map (\<lambda>i. NOT 0) [0..<kWords w])"

text \<open>The number the words denote, and the invariant of the class.\<close>

fun bval :: "bits \<Rightarrow> nat" where
  "bval [] = 0"
| "bval (x # xs) = unat x + 2 ^ 64 * bval xs"

declare bval.simps(2) [simp del]

definition bits_wf :: "nat \<Rightarrow> bits \<Rightarrow> bool" where
  "bits_wf w a \<longleftrightarrow> 0 < w \<and> length a = kWords w \<and> a ! (kWords w - 1) AND NOT (topMask w) = 0"

subsection \<open>Words and bits\<close>

lemma kWords_pos [simp]: "0 < kWords w"
  by (simp add: kWords_def)

lemma kWords_neq_0 [simp]: "kWords w \<noteq> 0"
  by (simp add: kWords_def)

lemma kWords_bounds: "0 < w \<Longrightarrow> 64 * (kWords w - 1) < w \<and> w \<le> 64 * kWords w"
proof -
  assume "0 < w"
  have "64 * ((w - 1) div 64) + (w - 1) mod 64 = w - 1" "(w - 1) mod 64 < 64" by simp_all
  with \<open>0 < w\<close> have "64 * ((w - 1) div 64) < w \<and> w \<le> 64 + 64 * ((w - 1) div 64)" by linarith
  then show ?thesis unfolding kWords_def by simp
qed

lemma kWords_last: "0 < w \<Longrightarrow> i < w \<Longrightarrow> i div 64 < kWords w"
proof -
  assume "0 < w" "i < w"
  then have "i div 64 \<le> (w - 1) div 64" by (intro div_le_mono) simp
  then show ?thesis by (simp add: kWords_def)
qed

lemma kWords_eq_1_iff: "kWords w = 1 \<longleftrightarrow> w \<le> 64"
  unfolding kWords_def by auto

lemma kWords_mono: "v \<le> w \<Longrightarrow> kWords v \<le> kWords w"
  unfolding kWords_def by (simp add: div_le_mono diff_le_mono)

lemma bit_topMask: "bit (topMask w) k \<longleftrightarrow> k < 64 \<and> (w mod 64 = 0 \<or> k < w mod 64)"
proof (cases "w mod 64 = 0")
  case True
  then show ?thesis by (simp add: topMask_def bit_minus_1_iff)
next
  case False
  have "topMask w = mask (w mod 64)"
    using False by (simp add: topMask_def mask_eq_exp_minus_1)
  then show ?thesis using False by (auto simp: bit_mask_iff)
qed

lemma low_high_disjoint: "unat (x::u64) AND push_bit 64 (n::nat) = 0"
  by (rule bit_eqI) (auto simp: bit_and_iff bit_push_bit_iff bit_unat_u64)

lemma bit_bval: "bit (bval a) i \<longleftrightarrow> i div 64 < length a \<and> bit (a ! (i div 64)) (i mod 64)"
proof (induction a arbitrary: i)
  case Nil
  then show ?case by simp
next
  case (Cons x xs)
  have "unat x + 2 ^ 64 * bval xs = unat x OR push_bit 64 (bval xs)"
    using disjunctive_add_eq_or[OF low_high_disjoint] by (simp add: push_bit_eq_mult mult.commute)
  then have *: "bit (bval (x # xs)) i \<longleftrightarrow> bit x i \<or> 64 \<le> i \<and> bit (bval xs) (i - 64)"
    by (simp only: bval.simps) (simp add: bit_or_iff bit_push_bit_iff bit_unat_u64)
  show ?case
  proof (cases "i < 64")
    case True
    then show ?thesis unfolding * by simp
  next
    case False
    then have "(i - 64) div 64 = i div 64 - 1" "(i - 64) mod 64 = i mod 64" "0 < i div 64"
      by (auto simp: le_div_geq le_mod_geq)
    moreover then obtain j where "i div 64 = Suc j" by (metis gr0_conv_Suc)
    ultimately show ?thesis
      unfolding * using False Cons.IH[of "i - 64"] by auto
  qed
qed

lemma bval_less: "bval a < 2 ^ (64 * length a)"
  unfolding nat_bits_less_iff bit_bval by (auto simp: not_less less_eq_div_iff_mult_less_eq mult.commute)

lemma bval_eqI: "length a = length b \<Longrightarrow> bval a = bval b \<Longrightarrow> a = b"
proof (rule nth_equalityI)
  fix i
  assume len: "length a = length b" and eq: "bval a = bval b" and i: "i < length a"
  show "a ! i = b ! i"
  proof (rule bit_word_eqI)
    fix k assume "k < LENGTH(64)"
    then have k: "(64 * i + k) div 64 = i" "(64 * i + k) mod 64 = k" by simp_all
    have "bit (bval a) (64 * i + k) = bit (bval b) (64 * i + k)" by (simp only: eq)
    then show "bit (a ! i) k = bit (b ! i) k" using len i unfolding bit_bval k by simp
  qed
qed simp

lemma bval_replicate_0 [simp]: "bval (replicate n 0) = 0"
  by (induction n) (simp_all add: bval.simps)

lemma bit_last_word:
  assumes "0 < w" "i div 64 = kWords w - 1"
  shows "i < w \<longleftrightarrow> w mod 64 = 0 \<or> i mod 64 < w mod 64"
proof -
  define k where "k = kWords w - 1"
  define s where "s = w - 64 * k"
  have s: "w = 64 * k + s" "0 < s" "s \<le> 64"
    using kWords_bounds[OF assms(1)] kWords_pos[of w] unfolding k_def s_def by linarith+
  have i: "i = 64 * k + i mod 64" using assms(2) unfolding k_def by (metis mult_div_mod_eq)
  have m: "i mod 64 < 64" by simp
  show ?thesis
  proof (cases "s = 64")
    case True
    then have "w mod 64 = 0" using s(1) by simp
    moreover have "i < w" using i m s(1) True by linarith
    ultimately show ?thesis by simp
  next
    case False
    then have "w mod 64 = s" using s by simp
    then show ?thesis using i s by linarith
  qed
qed

lemma bit_maskTop:
  assumes "0 < w" "length a = kWords w"
  shows "bit (bval (maskTop w a)) i \<longleftrightarrow> i < w \<and> bit (bval a) i"
proof -
  consider "i div 64 < kWords w - 1" | "i div 64 = kWords w - 1" | "kWords w \<le> i div 64"
    by linarith
  then show ?thesis
  proof cases
    case 1
    then have "i < w" using kWords_bounds[OF assms(1)]
      by (metis (no_types, lifting) div_less_iff_less_mult less_trans mult.commute zero_less_numeral)
    with 1 show ?thesis by (auto simp: bit_bval maskTop_def)
  next
    case 2
    then show ?thesis using assms bit_last_word[OF assms(1) 2]
      by (auto simp: bit_bval maskTop_def bit_and_iff bit_topMask)
  next
    case 3
    then have "\<not> i < w" using kWords_last[OF assms(1)] not_less by blast
    with 3 show ?thesis using assms by (simp add: bit_bval maskTop_def)
  qed
qed

lemma bval_maskTop: "0 < w \<Longrightarrow> length a = kWords w \<Longrightarrow> bval (maskTop w a) = bval a mod 2 ^ w"
  unfolding take_bit_eq_mod[symmetric]
  by (rule bit_eqI) (auto simp: bit_maskTop bit_take_bit_iff)

lemma length_maskTop [simp]: "length (maskTop w a) = length a"
  by (simp add: maskTop_def)

lemma bits_wf_iff: "bits_wf w a \<longleftrightarrow> 0 < w \<and> length a = kWords w \<and> bval a < 2 ^ w"
proof (cases "0 < w \<and> length a = kWords w")
  case True
  have "a ! (kWords w - 1) AND NOT (topMask w) = 0 \<longleftrightarrow> a ! (kWords w - 1) AND topMask w = a ! (kWords w - 1)"
    by (auto simp: bit_eq_iff bit_simps)
  also have "\<dots> \<longleftrightarrow> maskTop w a = a"
    using True by (auto simp: maskTop_def list_update_same_conv)
  also have "\<dots> \<longleftrightarrow> bval (maskTop w a) = bval a"
    using bval_eqI[of "maskTop w a" a] by auto
  also have "\<dots> \<longleftrightarrow> bval a < 2 ^ w"
    using True by (simp add: bval_maskTop) (metis mod_less mod_less_divisor zero_less_numeral zero_less_power)
  finally show ?thesis using True by (simp add: bits_wf_def)
next
  case False
  then show ?thesis by (auto simp: bits_wf_def)
qed

lemma bits_wfD:
  assumes "bits_wf w a"
  shows bits_wf_pos: "0 < w" and bits_wf_length: "length a = kWords w" and bits_wf_less: "bval a < 2 ^ w"
  using assms by (auto simp: bits_wf_iff)

lemma bits_wf_not_Nil: "bits_wf w a \<Longrightarrow> a \<noteq> []"
  by (auto simp: bits_wf_def)

lemma bits_eqI: "bits_wf w a \<Longrightarrow> bits_wf w b \<Longrightarrow> bval a = bval b \<Longrightarrow> a = b"
  using bval_eqI by (metis bits_wf_length)

lemma bits_eq_iff: "bits_wf w a \<Longrightarrow> bits_wf w b \<Longrightarrow> a = b \<longleftrightarrow> bval a = bval b"
  using bits_eqI by blast

lemma bits_wf_maskTop [bits_wf_intros]: "0 < w \<Longrightarrow> length a = kWords w \<Longrightarrow> bits_wf w (maskTop w a)"
  by (simp add: bits_wf_iff bval_maskTop)

lemma maskTop_id: "bits_wf w a \<Longrightarrow> maskTop w a = a"
  by (rule bits_eqI[of w]) (auto simp: bits_wf_iff bval_maskTop)

lemma bits_wf_bit_less: "bits_wf w a \<Longrightarrow> bit (bval a) i \<Longrightarrow> i < w"
  using bits_wf_less nat_bit_lessD by blast

lemma bits_wf_default [bits_wf_intros]: "0 < w \<Longrightarrow> bits_wf w (bits_default w)"
  by (simp add: bits_wf_iff bits_default_def)

lemma bval_default [bits_val_simps]: "bval (bits_default w) = 0"
  by (simp add: bits_default_def)

lemma bval_update_0: "bval ((replicate (Suc n) 0)[0 := x]) = unat x"
  by (simp add: bval.simps)

lemma bval_of_word [bits_val_simps]: "0 < w \<Longrightarrow> bval (bits_of_word w x) = unat x mod 2 ^ w"
  using bval_update_0[of "kWords w - 1" x] by (simp add: bits_of_word_def bval_maskTop)

lemma bits_wf_of_word [bits_wf_intros]: "0 < w \<Longrightarrow> bits_wf w (bits_of_word w x)"
  by (simp add: bits_of_word_def bits_wf_maskTop)

lemma bits_of_word_0: "0 < w \<Longrightarrow> bits_of_word w 0 = bits_default w"
  by (rule bits_eqI[of w]) (simp_all add: bits_wf_intros bits_val_simps)

lemma bits_bit_eq [bits_bit_simps]: "bits_wf w a \<Longrightarrow> bits_bit w a i \<longleftrightarrow> bit (bval a) i"
proof (cases "i < w")
  case True
  assume wf: "bits_wf w a"
  have "drop_bit (i mod 64) x AND 1 \<noteq> 0 \<longleftrightarrow> bit x (i mod 64)" for x :: u64
    by (simp add: bit_iff_odd_drop_bit and_one_eq mod2_eq_if)
  then show ?thesis using True wf kWords_last[of w i]
    by (simp add: bits_bit_def bits_word_def bit_bval bits_wf_def)
next
  case False
  assume "bits_wf w a"
  with False show ?thesis using bits_wf_bit_less by (auto simp: bits_bit_def)
qed

lemma toBool_eq [bits_bit_simps]: "bits_wf w a \<Longrightarrow> toBool a \<longleftrightarrow> bit (bval a) 0"
  unfolding bit_bval by (auto simp: toBool_def bits_wf_def and_one_eq mod2_eq_if bit_0)

lemma unat_bits_value: "bits_wf w a \<Longrightarrow> unat (bits_value a) = bval a mod 2 ^ 64"
  using bits_wf_not_Nil[of w a]
  by (cases a) (simp_all add: bits_value_def bval.simps unat_u64_less[simplified])

lemma bit_ones_words: "bit (bval (map (\<lambda>i. NOT 0) [0..<n])) i \<longleftrightarrow> i div 64 < n"
  by (auto simp: bit_bval)

lemma bits_wf_ones [bits_wf_intros]: "0 < w \<Longrightarrow> bits_wf w (bits_ones w)"
  by (simp add: bits_ones_def bits_wf_maskTop)

lemma bit_ones [bits_bit_simps]: "0 < w \<Longrightarrow> bit (bval (bits_ones w)) i \<longleftrightarrow> i < w"
  using kWords_last[of w i] unfolding bits_ones_def
  by (subst bit_maskTop) (simp, simp, blast intro: bit_ones_words[THEN iffD2])

lemma bval_ones [bits_val_simps]: "0 < w \<Longrightarrow> bval (bits_ones w) = 2 ^ w - 1"
  unfolding mask_eq_exp_minus_1[symmetric] by (rule bit_eqI) (auto simp: bit_ones bit_mask_iff)

subsection \<open>Bitwise operators, scalar and vectorised\<close>

definition bits_and :: "nat \<Rightarrow> bits \<Rightarrow> bits \<Rightarrow> bits" where
  "bits_and w a b = maskTop w (map (\<lambda>i. a ! i AND b ! i) [0..<kWords w])"

definition bits_or :: "nat \<Rightarrow> bits \<Rightarrow> bits \<Rightarrow> bits" where
  "bits_or w a b = maskTop w (map (\<lambda>i. a ! i OR b ! i) [0..<kWords w])"

definition bits_xor :: "nat \<Rightarrow> bits \<Rightarrow> bits \<Rightarrow> bits" where
  "bits_xor w a b = maskTop w (map (\<lambda>i. a ! i XOR b ! i) [0..<kWords w])"

definition bits_not :: "nat \<Rightarrow> bits \<Rightarrow> bits" where
  "bits_not w a = maskTop w (map (\<lambda>i. NOT (a ! i)) [0..<kWords w])"

definition bits_eq :: "nat \<Rightarrow> bits \<Rightarrow> bits \<Rightarrow> bool" where
  "bits_eq w a b = list_all (\<lambda>i. a ! i = b ! i) [0..<kWords w]"

text \<open>
  The vector loops take two words per iteration and finish an odd tail one word at a time.  The
  intrinsics they call act on each 64-bit lane alone.
\<close>

fun simd_map2 :: "(u64 \<Rightarrow> u64 \<Rightarrow> u64) \<Rightarrow> u64 list \<Rightarrow> u64 list \<Rightarrow> u64 list" where
  "simd_map2 f (x1 # x2 # xs) (y1 # y2 # ys) = f x1 y1 # f x2 y2 # simd_map2 f xs ys"
| "simd_map2 f (x # xs) (y # ys) = f x y # simd_map2 f xs ys"
| "simd_map2 f _ _ = []"

definition simd_bitwise_and :: "u64 list \<Rightarrow> u64 list \<Rightarrow> u64 list" where
  "simd_bitwise_and a b = simd_map2 (\<lambda>x y. x AND y) a b"

definition simd_bitwise_or :: "u64 list \<Rightarrow> u64 list \<Rightarrow> u64 list" where
  "simd_bitwise_or a b = simd_map2 (\<lambda>x y. x OR y) a b"

definition simd_bitwise_xor :: "u64 list \<Rightarrow> u64 list \<Rightarrow> u64 list" where
  "simd_bitwise_xor a b = simd_map2 (\<lambda>x y. x XOR y) a b"

fun simd_bitwise_not :: "u64 list \<Rightarrow> u64 list" where
  "simd_bitwise_not (x1 # x2 # xs) = NOT x1 # NOT x2 # simd_bitwise_not xs"
| "simd_bitwise_not (x # xs) = NOT x # simd_bitwise_not xs"
| "simd_bitwise_not [] = []"

fun simd_bitwise_eq :: "u64 list \<Rightarrow> u64 list \<Rightarrow> bool" where
  "simd_bitwise_eq (x1 # x2 # xs) (y1 # y2 # ys) =
     (if x1 \<noteq> y1 \<or> x2 \<noteq> y2 then False else simd_bitwise_eq xs ys)"
| "simd_bitwise_eq (x # xs) (y # ys) = (if x \<noteq> y then False else simd_bitwise_eq xs ys)"
| "simd_bitwise_eq _ _ = True"

fun simd_bitwise_sel :: "u64 list \<Rightarrow> u64 list \<Rightarrow> u64 list \<Rightarrow> u64 list" where
  "simd_bitwise_sel (m1 # m2 # ms) (x1 # x2 # xs) (y1 # y2 # ys) =
     (m1 AND x1 OR NOT m1 AND y1) # (m2 AND x2 OR NOT m2 AND y2) # simd_bitwise_sel ms xs ys"
| "simd_bitwise_sel (m # ms) (x # xs) (y # ys) =
     (x AND m OR y AND NOT m) # simd_bitwise_sel ms xs ys"
| "simd_bitwise_sel _ _ _ = []"

text \<open>The operators as a build with \<^verbatim>\<open>GFSIM_SIMD_NEON\<close> compiles them.\<close>

definition neon_and :: "nat \<Rightarrow> bits \<Rightarrow> bits \<Rightarrow> bits" where
  "neon_and w a b = (if kWords w \<ge> 2 then maskTop w (simd_bitwise_and a b) else bits_and w a b)"

definition neon_or :: "nat \<Rightarrow> bits \<Rightarrow> bits \<Rightarrow> bits" where
  "neon_or w a b = (if kWords w \<ge> 2 then maskTop w (simd_bitwise_or a b) else bits_or w a b)"

definition neon_xor :: "nat \<Rightarrow> bits \<Rightarrow> bits \<Rightarrow> bits" where
  "neon_xor w a b = (if kWords w \<ge> 2 then maskTop w (simd_bitwise_xor a b) else bits_xor w a b)"

definition neon_not :: "nat \<Rightarrow> bits \<Rightarrow> bits" where
  "neon_not w a = (if kWords w \<ge> 2 then maskTop w (simd_bitwise_not a) else bits_not w a)"

definition neon_eq :: "nat \<Rightarrow> bits \<Rightarrow> bits \<Rightarrow> bool" where
  "neon_eq w a b = (if kWords w \<ge> 2 then simd_bitwise_eq a b else bits_eq w a b)"

definition bits_mux :: "bits \<Rightarrow> bits \<Rightarrow> bits \<Rightarrow> bits" where
  "bits_mux sel a b = (if toBool sel then a else b)"

fun mux_loop :: "u64 \<Rightarrow> bool \<Rightarrow> u64 list \<Rightarrow> u64 list \<Rightarrow> u64 list" where
  "mux_loop m s (x1 # x2 # xs) (y1 # y2 # ys) =
     (m AND x1 OR NOT m AND y1) # (m AND x2 OR NOT m AND y2) # mux_loop m s xs ys"
| "mux_loop m s (x # xs) (y # ys) = (if s then x else y) # mux_loop m s xs ys"
| "mux_loop m s _ _ = []"

definition neon_mux :: "nat \<Rightarrow> bits \<Rightarrow> bits \<Rightarrow> bits \<Rightarrow> bits" where
  "neon_mux w sel a b =
     (if kWords w \<ge> 2 then mux_loop (if toBool sel then NOT 0 else 0) (toBool sel) a b
      else bits_mux sel a b)"

lemma simd_map2_eq: "length a = length b \<Longrightarrow> simd_map2 f a b = map (\<lambda>i. f (a ! i) (b ! i)) [0..<length a]"
proof -
  assume len: "length a = length b"
  have "simd_map2 f a b = map2 f a b"
    using len by (induction f a b rule: simd_map2.induct) auto
  also have "\<dots> = map (\<lambda>i. f (a ! i) (b ! i)) [0..<length a]"
    using len by (auto intro: nth_equalityI)
  finally show ?thesis .
qed

lemma simd_bitwise_not_eq: "simd_bitwise_not a = map (\<lambda>i. NOT (a ! i)) [0..<length a]"
proof -
  have "simd_bitwise_not a = map (\<lambda>x. NOT x) a"
    by (induction a rule: simd_bitwise_not.induct) auto
  then show ?thesis by (auto intro: nth_equalityI)
qed

lemma simd_bitwise_eq_eq: "length a = length b \<Longrightarrow> simd_bitwise_eq a b \<longleftrightarrow> a = b"
  by (induction a b rule: simd_bitwise_eq.induct) auto

lemma simd_bitwise_sel_eq:
  "length m = length a \<Longrightarrow> length a = length b \<Longrightarrow>
   simd_bitwise_sel m a b = map (\<lambda>i. (a ! i AND m ! i) OR (b ! i AND NOT (m ! i))) [0..<length a]"
proof -
  assume "length m = length a" "length a = length b"
  then have "simd_bitwise_sel m a b = map (\<lambda>(m, a, b). (a AND m) OR (b AND NOT m)) (zip m (zip a b))"
    by (induction m a b rule: simd_bitwise_sel.induct) (auto simp: and.commute)
  with \<open>length m = length a\<close> \<open>length a = length b\<close> show ?thesis
    by (auto intro: nth_equalityI)
qed

lemma mux_loop_eq:
  "length a = length b \<Longrightarrow> mux_loop (if s then NOT 0 else 0) s a b = (if s then a else b)"
  by (induction "if s then NOT 0 else (0::u64)" s a b rule: mux_loop.induct) auto

lemma bits_eq_eq: "length a = kWords w \<Longrightarrow> length b = kWords w \<Longrightarrow> bits_eq w a b \<longleftrightarrow> a = b"
  by (auto simp: bits_eq_def list_all_iff intro: nth_equalityI)

lemma bits_wf_bitwise [bits_wf_intros]:
  assumes "0 < w"
  shows "bits_wf w (bits_and w a b)" "bits_wf w (bits_or w a b)" "bits_wf w (bits_xor w a b)"
    "bits_wf w (bits_not w a)"
  using assms by (simp_all add: bits_and_def bits_or_def bits_xor_def bits_not_def bits_wf_maskTop)

lemma bits_bit_less: "bits_wf w a \<Longrightarrow> i < w \<Longrightarrow> bit (bval a) i \<longleftrightarrow> bit (a ! (i div 64)) (i mod 64)"
  by (simp add: bit_bval bits_wf_def kWords_last)

lemma bit_map_maskTop:
  "0 < w \<Longrightarrow> bit (bval (maskTop w (map f [0..<kWords w]))) i \<longleftrightarrow> i < w \<and> bit (f (i div 64)) (i mod 64)"
  using kWords_last[of w i] by (subst bit_maskTop) (auto simp: bit_bval)

lemma bit_bitwise [bits_bit_simps]:
  assumes a: "bits_wf w a"
  shows "bits_wf w b \<Longrightarrow> bit (bval (bits_and w a b)) i \<longleftrightarrow> bit (bval a) i \<and> bit (bval b) i"
    and "bits_wf w b \<Longrightarrow> bit (bval (bits_or w a b)) i \<longleftrightarrow> bit (bval a) i \<or> bit (bval b) i"
    and "bits_wf w b \<Longrightarrow> bit (bval (bits_xor w a b)) i \<longleftrightarrow> bit (bval a) i \<noteq> bit (bval b) i"
    and "bit (bval (bits_not w a)) i \<longleftrightarrow> i < w \<and> \<not> bit (bval a) i"
proof -
  note defs = bits_and_def bits_or_def bits_xor_def bits_not_def bit_map_maskTop[OF bits_wf_pos[OF a]]
    bit_and_iff bit_or_iff bit_xor_iff bit_not_iff
  have out: "bits_wf w c \<Longrightarrow> \<not> i < w \<Longrightarrow> \<not> bit (bval c) i" for c
    using bits_wf_bit_less by blast
  have len: "i mod 64 < 64" by simp
  show "bit (bval (bits_and w a b)) i \<longleftrightarrow> bit (bval a) i \<and> bit (bval b) i" if "bits_wf w b"
    using out[OF a] out[OF that] bits_bit_less[OF a, of i] bits_bit_less[OF that, of i]
    by (cases "i < w") (simp_all add: defs)
  show "bit (bval (bits_or w a b)) i \<longleftrightarrow> bit (bval a) i \<or> bit (bval b) i" if "bits_wf w b"
    using out[OF a] out[OF that] bits_bit_less[OF a, of i] bits_bit_less[OF that, of i]
    by (cases "i < w") (simp_all add: defs)
  show "bit (bval (bits_xor w a b)) i \<longleftrightarrow> bit (bval a) i \<noteq> bit (bval b) i" if "bits_wf w b"
    using out[OF a] out[OF that] bits_bit_less[OF a, of i] bits_bit_less[OF that, of i]
    by (cases "i < w") (simp_all add: defs)
  show "bit (bval (bits_not w a)) i \<longleftrightarrow> i < w \<and> \<not> bit (bval a) i"
    using bits_bit_less[OF a, of i] len by (cases "i < w") (simp_all add: defs)
qed

lemma bval_bitwise [bits_val_simps]:
  assumes "bits_wf w a" "bits_wf w b"
  shows "bval (bits_and w a b) = bval a AND bval b"
    and "bval (bits_or w a b) = bval a OR bval b"
    and "bval (bits_xor w a b) = bval a XOR bval b"
  using assms by (auto intro!: bit_eqI simp: bit_bitwise bit_and_iff bit_or_iff bit_xor_iff)

lemma bval_not [bits_val_simps]:
  assumes "bits_wf w a"
  shows "bval (bits_not w a) = 2 ^ w - 1 - bval a"
proof -
  have "bval a AND bval (bits_not w a) = 0"
    by (rule bit_eqI) (simp add: bit_and_iff bit_bitwise(4)[OF assms])
  then have "bval a + bval (bits_not w a) = bval a OR bval (bits_not w a)"
    by (rule disjunctive_add_eq_or)
  also have "\<dots> = mask w"
    by (rule bit_eqI) (use bits_wf_bit_less[OF assms] in \<open>auto simp: bit_or_iff bit_bitwise(4)[OF assms] bit_mask_iff\<close>)
  finally show ?thesis by (simp add: mask_eq_exp_minus_1)
qed

text \<open>
  The vector build computes what the scalar build computes, for every operator and every width.
\<close>

lemma neon_ops_eq:
  assumes "bits_wf w a" "bits_wf w b"
  shows "neon_and w a b = bits_and w a b" "neon_or w a b = bits_or w a b"
    "neon_xor w a b = bits_xor w a b" "neon_not w a = bits_not w a"
    "neon_eq w a b = bits_eq w a b" "neon_mux w s a b = bits_mux s a b"
  using assms[THEN bits_wf_length] mux_loop_eq[of a b "toBool s"]
  by (cases "toBool s";
      simp add: neon_and_def neon_or_def neon_xor_def neon_not_def neon_eq_def neon_mux_def bits_mux_def
      simd_bitwise_and_def simd_bitwise_or_def simd_bitwise_xor_def simd_map2_eq simd_bitwise_not_eq
      simd_bitwise_eq_eq bits_eq_eq bits_and_def bits_or_def bits_xor_def bits_not_def)+

subsection \<open>Order\<close>

fun lt_loop :: "bits \<Rightarrow> bits \<Rightarrow> nat \<Rightarrow> bool" where
  "lt_loop a b 0 = False"
| "lt_loop a b (Suc idx) =
     (if a ! idx < b ! idx then True else if a ! idx > b ! idx then False else lt_loop a b idx)"

definition bits_lt :: "nat \<Rightarrow> bits \<Rightarrow> bits \<Rightarrow> bool" where
  "bits_lt w a b = lt_loop a b (kWords w)"

definition bits_gt :: "nat \<Rightarrow> bits \<Rightarrow> bits \<Rightarrow> bool" where
  "bits_gt w a b = bits_lt w b a"

definition bits_le :: "nat \<Rightarrow> bits \<Rightarrow> bits \<Rightarrow> bool" where
  "bits_le w a b = (\<not> bits_lt w b a)"

definition bits_ge :: "nat \<Rightarrow> bits \<Rightarrow> bits \<Rightarrow> bool" where
  "bits_ge w a b = (\<not> bits_lt w a b)"

lemma bval_append: "bval (xs @ ys) = bval xs + 2 ^ (64 * length xs) * bval ys"
  by (induction xs) (simp_all add: bval.simps algebra_simps power_add)

lemma bval_take_Suc: "n < length a \<Longrightarrow> bval (take (Suc n) a) = bval (take n a) + 2 ^ (64 * n) * unat (a ! n)"
  by (simp add: take_Suc_conv_app_nth bval_append bval.simps)

lemma high_word_less:
  fixes x y m :: nat
  assumes "x < m" "h < k"
  shows "x + m * h < y + m * k"
proof -
  have "x + m * h < m * Suc h" using assms(1) by simp
  also have "\<dots> \<le> m * k" using assms(2) by (intro mult_le_mono2) simp
  finally show ?thesis by simp
qed

lemma lt_loop_eq:
  "n \<le> length a \<Longrightarrow> n \<le> length b \<Longrightarrow> lt_loop a b n \<longleftrightarrow> bval (take n a) < bval (take n b)"
proof (induction n)
  case 0
  then show ?case by simp
next
  case (Suc n)
  have la: "bval (take n c) < 2 ^ (64 * n)" if "Suc n \<le> length c" for c
    using bval_less[of "take n c"] that by simp
  show ?case
    using Suc high_word_less[OF la[OF Suc.prems(1)], of "unat (a ! n)" "unat (b ! n)" "bval (take n b)"]
      high_word_less[OF la[OF Suc.prems(2)], of "unat (b ! n)" "unat (a ! n)" "bval (take n a)"]
    by (auto simp: bval_take_Suc word_less_nat_alt not_less u64_eq_iff dest: le_antisym)
qed

lemma bits_lt_eq [bits_val_simps]: "bits_wf w a \<Longrightarrow> bits_wf w b \<Longrightarrow> bits_lt w a b \<longleftrightarrow> bval a < bval b"
  by (simp add: bits_lt_def lt_loop_eq bits_wf_length)

lemma bits_order_eq [bits_val_simps]:
  assumes "bits_wf w a" "bits_wf w b"
  shows "bits_gt w a b \<longleftrightarrow> bval a > bval b" "bits_le w a b \<longleftrightarrow> bval a \<le> bval b"
    "bits_ge w a b \<longleftrightarrow> bval a \<ge> bval b" "bits_eq w a b \<longleftrightarrow> bval a = bval b"
  using assms bits_eq_iff[OF assms]
  by (simp_all add: bits_gt_def bits_le_def bits_ge_def bits_lt_eq not_less bits_eq_eq bits_wf_length)

subsection \<open>Shifts\<close>

definition shl_word :: "nat \<Rightarrow> bits \<Rightarrow> nat \<Rightarrow> nat \<Rightarrow> nat \<Rightarrow> u64" where
  "shl_word w v wordShift bitShift dst =
     (if dst \<ge> wordShift
      then let src = dst - wordShift; x = push_bit bitShift (bits_word w v src)
           in if bitShift \<noteq> 0 \<and> src > 0
              then x OR drop_bit (64 - bitShift) (bits_word w v (src - 1)) else x
      else 0)"

definition bits_shl :: "nat \<Rightarrow> bits \<Rightarrow> nat \<Rightarrow> bits" where
  "bits_shl w v amount =
     (if amount = 0 then v
      else if amount \<ge> w then bits_of_word w 0
      else fold (\<lambda>i out. let dst = (kWords w - 1) - i
                         in setWord w out dst (shl_word w v (amount div 64) (amount mod 64) dst))
             [0..<kWords w] (bits_default w))"

definition lshr_word :: "nat \<Rightarrow> bits \<Rightarrow> nat \<Rightarrow> nat \<Rightarrow> nat \<Rightarrow> u64" where
  "lshr_word w v wordShift bitShift dst =
     (let src = dst + wordShift
      in if src < kWords w
         then let x = drop_bit bitShift (bits_word w v src)
              in if bitShift \<noteq> 0 \<and> src + 1 < kWords w
                 then x OR push_bit (64 - bitShift) (bits_word w v (src + 1)) else x
         else 0)"

definition bits_lshr :: "nat \<Rightarrow> bits \<Rightarrow> nat \<Rightarrow> bits" where
  "bits_lshr w v amount =
     (if amount = 0 then v
      else if amount \<ge> w then bits_of_word w 0
      else fold (\<lambda>dst out. setWord w out dst (lshr_word w v (amount div 64) (amount mod 64) dst))
             [0..<kWords w] (bits_default w))"

definition bits_ashr :: "nat \<Rightarrow> bits \<Rightarrow> nat \<Rightarrow> bits" where
  "bits_ashr w v amount =
     (if amount = 0 then v
      else if amount \<ge> w then (if bits_bit w v (w - 1) then bits_ones w else bits_of_word w 0)
      else let out = bits_lshr w v amount
           in if \<not> bits_bit w v (w - 1) then out
              else bits_or w out (bits_shl w (bits_ones w) (w - amount)))"

text \<open>A loop that sets every word once leaves the masked array of the words it set.\<close>

lemma length_setWord [simp]: "length (setWord w a i x) = length a"
  by (simp add: setWord_def)

lemma nth_setWord:
  "length a = kWords w \<Longrightarrow> j < kWords w \<Longrightarrow>
   setWord w a i x ! j = (if i = j then (if i + 1 = kWords w then x AND topMask w else x) else a ! j)"
  by (auto simp: setWord_def nth_list_update)

lemma fold_setWord:
  "length out = kWords w \<Longrightarrow> distinct (map g is) \<Longrightarrow>
   length (fold (\<lambda>i out. setWord w out (g i) (f (g i))) is out) = kWords w \<and>
   (\<forall>j<kWords w. fold (\<lambda>i out. setWord w out (g i) (f (g i))) is out ! j =
      (if j \<in> g ` set is then (if j + 1 = kWords w then f j AND topMask w else f j) else out ! j))"
proof (induction "is" arbitrary: out)
  case Nil
  then show ?case by simp
next
  case (Cons i "is")
  have "length (setWord w out (g i) (f (g i))) = kWords w" using Cons.prems by simp
  from Cons.IH[OF this] Cons.prems show ?case by (auto simp: nth_setWord)
qed

lemma nth_maskTop:
  "length a = kWords w \<Longrightarrow> j < kWords w \<Longrightarrow>
   maskTop w a ! j = (if j + 1 = kWords w then a ! j AND topMask w else a ! j)"
  by (auto simp: maskTop_def nth_list_update)

lemma fold_setWord_all:
  assumes "length out = kWords w" "distinct (map g is)" "{0..<kWords w} \<subseteq> g ` set is"
  shows "fold (\<lambda>i out. setWord w out (g i) (f (g i))) is out = maskTop w (map f [0..<kWords w])"
  using fold_setWord[OF assms(1,2), of f] assms(3)
  by (intro nth_equalityI) (auto simp: nth_maskTop subset_iff)

lemma fold_setWord_up:
  "fold (\<lambda>i out. setWord w out i (f i)) [0..<kWords w] (bits_default w) = maskTop w (map f [0..<kWords w])"
  using fold_setWord_all[of "bits_default w" w "\<lambda>i. i" "[0..<kWords w]" f] by (simp add: bits_default_def)

lemma fold_setWord_down:
  "fold (\<lambda>i out. let dst = (kWords w - 1) - i in setWord w out dst (f dst)) [0..<kWords w] (bits_default w)
   = maskTop w (map f [0..<kWords w])"
proof -
  have "inj_on (\<lambda>i. (kWords w - 1) - i) {0..<kWords w}"
    by (auto simp: inj_on_def)
  moreover have "{0..<kWords w} \<subseteq> (\<lambda>i. (kWords w - 1) - i) ` {0..<kWords w}"
  proof
    fix j assume "j \<in> {0..<kWords w}"
    then have "j = (kWords w - 1) - ((kWords w - 1) - j)" "(kWords w - 1) - j \<in> {0..<kWords w}" by auto
    then show "j \<in> (\<lambda>i. (kWords w - 1) - i) ` {0..<kWords w}" by blast
  qed
  ultimately show ?thesis
    using fold_setWord_all[of "bits_default w" w "\<lambda>i. (kWords w - 1) - i" "[0..<kWords w]" f]
    by (simp add: bits_default_def distinct_map Let_def)
qed

lemma bit_bval_split: "k < 64 \<Longrightarrow> bit (bval a) (64 * j + k) \<longleftrightarrow> j < length a \<and> bit (a ! j) k"
  by (simp add: bit_bval)

lemma bit_push_u64: "r < 64 \<Longrightarrow> bit (push_bit t (x::u64)) r \<longleftrightarrow> t \<le> r \<and> bit x (r - t)"
  by (auto simp: bit_push_bit_iff)

lemma bit_drop_u64: "bit (drop_bit t (x::u64)) r \<longleftrightarrow> bit x (t + r)"
  by (simp add: bit_drop_bit_eq)

lemma bit_shl_word:
  assumes len: "length v = kWords w" and d: "d < kWords w" and r: "r < 64" and t: "t < 64"
  shows "bit (shl_word w v s t d) r \<longleftrightarrow>
    64 * s + t \<le> 64 * d + r \<and> bit (bval v) (64 * d + r - (64 * s + t))"
proof (cases "s \<le> d")
  case False
  then have "\<not> 64 * s + t \<le> 64 * d + r" using r by linarith
  with False show ?thesis by (simp add: shl_word_def)
next
  case True
  then obtain c where c: "d = s + c" using le_Suc_ex by blast
  show ?thesis
  proof (cases "t \<le> r")
    case True
    then have eq: "64 * d + r - (64 * s + t) = 64 * c + (r - t)" using c by simp
    have bv: "bit (bval v) (64 * d + r - (64 * s + t)) \<longleftrightarrow> bit (v ! c) (r - t)"
      unfolding eq using c d r len by (subst bit_bval_split) auto
    have "\<not> bit y (64 - t + r)" for y :: u64 using True t by simp
    then show ?thesis unfolding bv using True c d r t len
      by (auto simp: shl_word_def Let_def bits_word_def bit_or_iff bit_push_u64 bit_drop_u64)
  next
    case False
    then have nr: "\<not> bit (push_bit t x) r" for x :: u64 using r by (simp add: bit_push_u64)
    show ?thesis
    proof (cases c)
      case 0
      then show ?thesis using False c nr by (auto simp: shl_word_def Let_def bits_word_def bit_or_iff)
    next
      case (Suc e)
      then have eq: "64 * d + r - (64 * s + t) = 64 * e + (64 - t + r)" "64 * s + t \<le> 64 * d + r"
        using c False t by simp_all
      have bv: "bit (bval v) (64 * d + r - (64 * s + t)) \<longleftrightarrow> bit (v ! e) (64 - t + r)"
        unfolding eq using c d len False t Suc by (subst bit_bval_split) auto
      show ?thesis unfolding bv using False c d t len nr Suc eq(2)
        by (auto simp: shl_word_def Let_def bits_word_def bit_or_iff bit_drop_u64)
    qed
  qed
qed

lemma bit_lshr_word:
  assumes len: "length v = kWords w" and d: "d < kWords w" and r: "r < 64" and t: "t < 64"
  shows "bit (lshr_word w v s t d) r \<longleftrightarrow> bit (bval v) (64 * d + r + (64 * s + t))"
proof (cases "t + r < 64")
  case True
  have eq: "64 * d + r + (64 * s + t) = 64 * (d + s) + (t + r)" by simp
  have "\<not> bit (push_bit (64 - t) y) r" for y :: u64 using True r by (simp add: bit_push_u64)
  moreover have "bit (bval v) (64 * d + r + (64 * s + t)) \<longleftrightarrow> d + s < kWords w \<and> bit (v ! (d + s)) (t + r)"
    unfolding eq using True len by (subst bit_bval_split) auto
  ultimately show ?thesis using True len
    by (auto simp: lshr_word_def Let_def bits_word_def bit_or_iff bit_drop_u64)
next
  case False
  have eq: "64 * d + r + (64 * s + t) = 64 * (d + s + 1) + (t + r - 64)" using False by simp
  have "\<not> bit (drop_bit t y) r" for y :: u64 using False by (simp add: bit_drop_u64)
  moreover have "64 - t \<le> r" "r - (64 - t) = t + r - 64" "t \<noteq> 0" "t + r - 64 < 64" using False r t by linarith+
  moreover have "bit (bval v) (64 * d + r + (64 * s + t)) \<longleftrightarrow> d + s + 1 < kWords w \<and> bit (v ! (d + s + 1)) (t + r - 64)"
    unfolding eq using calculation(5) len by (subst bit_bval_split) auto
  ultimately show ?thesis using len r
    by (auto simp: lshr_word_def Let_def bits_word_def bit_or_iff bit_push_u64)
qed

lemma bits_shl_main: "0 < amount \<Longrightarrow> amount < w \<Longrightarrow>
  bits_shl w v amount = maskTop w (map (shl_word w v (amount div 64) (amount mod 64)) [0..<kWords w])"
  unfolding bits_shl_def using fold_setWord_down[of w "shl_word w v (amount div 64) (amount mod 64)"] by simp

lemma bits_lshr_main: "0 < amount \<Longrightarrow> amount < w \<Longrightarrow>
  bits_lshr w v amount = maskTop w (map (lshr_word w v (amount div 64) (amount mod 64)) [0..<kWords w])"
  unfolding bits_lshr_def using fold_setWord_up[of w "lshr_word w v (amount div 64) (amount mod 64)"] by simp

lemma bits_wf_shl [bits_wf_intros]: "bits_wf w v \<Longrightarrow> bits_wf w (bits_shl w v n)"
  using bits_shl_main[of n w v] bits_wf_pos[of w v]
  by (cases "n = 0"; cases "n \<ge> w") (auto simp: bits_shl_def bits_wf_of_word intro!: bits_wf_maskTop)

lemma bits_wf_lshr [bits_wf_intros]: "bits_wf w v \<Longrightarrow> bits_wf w (bits_lshr w v n)"
  using bits_lshr_main[of n w v] bits_wf_pos[of w v]
  by (cases "n = 0"; cases "n \<ge> w") (auto simp: bits_lshr_def bits_wf_of_word intro!: bits_wf_maskTop)

lemma bit_shl [bits_bit_simps]:
  assumes wf: "bits_wf w v"
  shows "bit (bval (bits_shl w v n)) i \<longleftrightarrow> i < w \<and> n \<le> i \<and> bit (bval v) (i - n)"
proof -
  note pos = bits_wf_pos[OF wf]
  consider "n = 0" | "0 < n" "n < w" | "0 < n" "w \<le> n" by linarith
  then show ?thesis
  proof cases
    case 1
    then show ?thesis using bits_wf_bit_less[OF wf] by (auto simp: bits_shl_def)
  next
    case 2
    show ?thesis
      using bit_shl_word[OF bits_wf_length[OF wf], of "i div 64" "i mod 64" "n mod 64" "n div 64"] kWords_last[OF pos, of i]
      unfolding bits_shl_main[OF 2] bit_map_maskTop[OF pos] by auto
  next
    case 3
    then show ?thesis using pos by (auto simp: bits_shl_def bval_of_word)
  qed
qed

lemma bit_lshr [bits_bit_simps]:
  assumes wf: "bits_wf w v"
  shows "bit (bval (bits_lshr w v n)) i \<longleftrightarrow> bit (bval v) (i + n)"
proof -
  note pos = bits_wf_pos[OF wf]
  consider "n = 0" | "0 < n" "n < w" | "0 < n" "w \<le> n" by linarith
  then show ?thesis
  proof cases
    case 1
    then show ?thesis by (simp add: bits_lshr_def)
  next
    case 2
    show ?thesis
      using bit_lshr_word[OF bits_wf_length[OF wf], of "i div 64" "i mod 64" "n mod 64" "n div 64"]
        kWords_last[OF pos, of i] bits_wf_bit_less[OF wf, of "i + n"]
      unfolding bits_lshr_main[OF 2] bit_map_maskTop[OF pos] by auto
  next
    case 3
    then show ?thesis using pos bits_wf_bit_less[OF wf, of "i + n"] by (auto simp: bits_lshr_def bval_of_word)
  qed
qed

lemma bval_shl [bits_val_simps]: "bits_wf w v \<Longrightarrow> bval (bits_shl w v n) = bval v * 2 ^ n mod 2 ^ w"
  unfolding push_bit_eq_mult[symmetric] take_bit_eq_mod[symmetric]
  by (rule bit_eqI) (auto simp: bit_shl bit_take_bit_iff bit_push_bit_iff)

lemma bval_lshr [bits_val_simps]: "bits_wf w v \<Longrightarrow> bval (bits_lshr w v n) = bval v div 2 ^ n"
  unfolding drop_bit_eq_div[symmetric]
  by (rule bit_eqI) (auto simp: bit_lshr bit_drop_bit_eq add.commute)

lemma bits_wf_ashr [bits_wf_intros]: "bits_wf w v \<Longrightarrow> bits_wf w (bits_ashr w v n)"
  using bits_wf_pos[of w v] by (auto simp: bits_ashr_def Let_def intro!: bits_wf_intros)

lemma bit_ashr [bits_bit_simps]:
  assumes wf: "bits_wf w v"
  shows "bit (bval (bits_ashr w v n)) i \<longleftrightarrow>
    i < w \<and> (if i + n < w then bit (bval v) (i + n) else bit (bval v) (w - 1))"
proof -
  note pos = bits_wf_pos[OF wf]
  note bits = bit_lshr[OF wf] bit_shl[OF bits_wf_ones[OF pos]] bit_ones[OF pos]
    bit_bitwise(2)[OF bits_wf_lshr[OF wf] bits_wf_shl[OF bits_wf_ones[OF pos]]]
  consider "n = 0" | "0 < n" "n < w" | "0 < n" "w \<le> n" by linarith
  then show ?thesis
  proof cases
    case 1
    then show ?thesis using bits_wf_bit_less[OF wf, of i] by (auto simp: bits_ashr_def)
  next
    case 2
    have "bit (bval v) (i + n) \<Longrightarrow> i + n < w" using bits_wf_bit_less[OF wf] .
    then show ?thesis using 2 pos
      by (auto simp: bits_ashr_def Let_def bits_bit_eq[OF wf] bits)
  next
    case 3
    then show ?thesis using pos
      by (auto simp: bits_ashr_def bits_bit_eq[OF wf] bits bval_of_word)
  qed
qed

text \<open>The two's complement reading of a value.\<close>

definition bits_sval :: "nat \<Rightarrow> bits \<Rightarrow> int" where
  "bits_sval w a = (if bit (bval a) (w - 1) then int (bval a) - 2 ^ w else int (bval a))"

lemma bits_sval_signed_take_bit:
  assumes wf: "bits_wf w a"
  shows "bits_sval w a = signed_take_bit (w - 1) (int (bval a))"
proof -
  note pos = bits_wf_pos[OF wf]
  have "take_bit w (int (bval a)) = int (bval a)"
    using bits_wf_less[OF wf] by (simp add: take_bit_int_eq_self)
  moreover have "signed_take_bit (w - 1) (int (bval a)) =
      take_bit (Suc (w - 1)) (int (bval a)) - 2 ^ Suc (w - 1) * of_bool (bit (int (bval a)) (w - 1))"
    by (rule signed_take_bit_eq_take_bit_minus)
  ultimately show ?thesis using pos by (simp add: bits_sval_def bit_of_nat_iff_bit)
qed

lemma bit_sval: "bits_wf w a \<Longrightarrow> bit (bits_sval w a) i \<longleftrightarrow> bit (bval a) (min i (w - 1))"
  by (simp add: bits_sval_signed_take_bit bit_signed_take_bit_iff bit_of_nat_iff_bit min.commute)

lemma bits_sval_ashr:
  assumes wf: "bits_wf w v"
  shows "bits_sval w (bits_ashr w v n) = bits_sval w v div 2 ^ n"
  unfolding drop_bit_eq_div[symmetric]
proof (rule bit_eqI)
  fix i
  have "min i (w - 1) + n < w \<longleftrightarrow> i + n < w \<or> n = 0" "min i (w - 1) < w"
    using bits_wf_pos[OF wf] by (auto simp: min_def)
  then show "bit (bits_sval w (bits_ashr w v n)) i \<longleftrightarrow> bit (drop_bit n (bits_sval w v)) i"
    using bits_wf_pos[OF wf]
    by (auto simp: bit_sval wf bits_wf_ashr bit_ashr bit_drop_bit_eq min_def add.commute)
qed

subsection \<open>Width conversions\<close>

definition bits_trunc :: "nat \<Rightarrow> nat \<Rightarrow> bits \<Rightarrow> bits" where
  "bits_trunc outw inw v = fold (\<lambda>i out. setWord outw out i (bits_word inw v i)) [0..<kWords outw] (bits_default outw)"

definition bits_zext :: "nat \<Rightarrow> nat \<Rightarrow> bits \<Rightarrow> bits" where
  "bits_zext outw inw v = fold (\<lambda>i out. setWord outw out i (bits_word inw v i)) [0..<kWords outw] (bits_default outw)"

definition bits_sext :: "nat \<Rightarrow> nat \<Rightarrow> bits \<Rightarrow> bits" where
  "bits_sext outw inw v =
     (let out = fold (\<lambda>i out. setWord outw out i (bits_word inw v i)) [0..<kWords outw] (bits_default outw)
      in if \<not> bits_bit inw v (inw - 1) then out
         else let signWord = (inw - 1) div 64;
                  signBit = (inw - 1) mod 64;
                  topFill = (if signBit < 63 then push_bit (signBit + 1) (NOT 0) else NOT 0);
                  out = setWord outw out signWord (bits_word outw out signWord OR topFill)
              in fold (\<lambda>i out. setWord outw out i (NOT 0)) [signWord + 1..<kWords outw] out)"

definition bits_extract :: "nat \<Rightarrow> nat \<Rightarrow> bits \<Rightarrow> nat \<Rightarrow> bits" where
  "bits_extract outw inw v lsb = bits_trunc outw inw (bits_lshr inw v lsb)"

definition bits_concat2 :: "nat \<Rightarrow> nat \<Rightarrow> bits \<Rightarrow> bits \<Rightarrow> bits" where
  "bits_concat2 wa wb a b =
     bits_or (wa + wb) (bits_shl (wa + wb) (bits_zext (wa + wb) wa a) wb) (bits_zext (wa + wb) wb b)"

fun SumWidth :: "nat list \<Rightarrow> nat" where
  "SumWidth [] = 0"
| "SumWidth (w0 # rest) = w0 + SumWidth rest"

fun bits_concat :: "(nat \<times> bits) list \<Rightarrow> bits" where
  "bits_concat [] = []"
| "bits_concat [(w, a)] = a"
| "bits_concat ((w, a) # x # xs) = bits_concat2 w (SumWidth (map fst (x # xs))) a (bits_concat (x # xs))"

definition appendPackedBitsWords :: "nat \<Rightarrow> u64 list \<Rightarrow> nat \<Rightarrow> bits \<Rightarrow> u64 list \<times> nat" where
  "appendPackedBitsWords w dst offset v =
     fold (\<lambda>i (dst, offset). (dst[offset := bits_word w v i], offset + 1)) [0..<kWords w] (dst, offset)"

definition bits_slt :: "nat \<Rightarrow> bits \<Rightarrow> bits \<Rightarrow> bool" where
  "bits_slt w a b =
     (let sign = bits_shl w (bits_of_word w 1) (w - 1)
      in bits_lt w (bits_xor w a sign) (bits_xor w b sign))"

definition bits_eq1 :: "nat \<Rightarrow> bits \<Rightarrow> bits \<Rightarrow> bits" where
  "bits_eq1 w a b = bits_of_word 1 (if bits_eq w a b then 1 else 0)"

definition bits_ult1 :: "nat \<Rightarrow> bits \<Rightarrow> bits \<Rightarrow> bits" where
  "bits_ult1 w a b = bits_of_word 1 (if bits_lt w a b then 1 else 0)"

lemma bit_words_resize:
  assumes wf: "bits_wf inw v" and pos: "0 < outw"
  shows "bit (bval (maskTop outw (map (bits_word inw v) [0..<kWords outw]))) i \<longleftrightarrow> i < outw \<and> bit (bval v) i"
  unfolding bit_map_maskTop[OF pos] bit_bval[of v]
  using bits_wf_length[OF wf] by (auto simp: bits_word_def)

lemma bits_wf_trunc [bits_wf_intros]: "0 < outw \<Longrightarrow> bits_wf outw (bits_trunc outw inw v)"
  by (simp add: bits_trunc_def fold_setWord_up bits_wf_maskTop)

lemma bits_wf_zext [bits_wf_intros]: "0 < outw \<Longrightarrow> bits_wf outw (bits_zext outw inw v)"
  by (simp add: bits_zext_def fold_setWord_up bits_wf_maskTop)

lemma bit_trunc [bits_bit_simps]:
  "bits_wf inw v \<Longrightarrow> 0 < outw \<Longrightarrow> bit (bval (bits_trunc outw inw v)) i \<longleftrightarrow> i < outw \<and> bit (bval v) i"
  by (simp add: bits_trunc_def fold_setWord_up bit_words_resize)

lemma bit_zext [bits_bit_simps]:
  "bits_wf inw v \<Longrightarrow> inw \<le> outw \<Longrightarrow> bit (bval (bits_zext outw inw v)) i \<longleftrightarrow> bit (bval v) i"
  using bits_wf_bit_less[of inw v i] bits_wf_pos[of inw v]
  by (auto simp: bits_zext_def fold_setWord_up bit_words_resize)

lemma bval_trunc [bits_val_simps]:
  "bits_wf inw v \<Longrightarrow> 0 < outw \<Longrightarrow> bval (bits_trunc outw inw v) = bval v mod 2 ^ outw"
  unfolding take_bit_eq_mod[symmetric] by (rule bit_eqI) (auto simp: bit_trunc bit_take_bit_iff)

lemma bval_zext [bits_val_simps]:
  "bits_wf inw v \<Longrightarrow> inw \<le> outw \<Longrightarrow> bval (bits_zext outw inw v) = bval v"
  by (rule bit_eqI) (auto simp: bit_zext)

definition sext_word :: "nat \<Rightarrow> bits \<Rightarrow> nat \<Rightarrow> u64" where
  "sext_word inw v j =
     (let sw = (inw - 1) div 64; sb = (inw - 1) mod 64
      in if sw < j then NOT 0
         else if j = sw then bits_word inw v j OR (if sb < 63 then push_bit (sb + 1) (NOT 0) else NOT 0)
         else bits_word inw v j)"

lemma bits_sext_negative:
  assumes "bits_bit inw v (inw - 1)" "0 < inw" "inw \<le> outw"
  shows "bits_sext outw inw v = maskTop outw (map (sext_word inw v) [0..<kWords outw])"
proof -
  define sw where "sw = (inw - 1) div 64"
  define sb where "sb = (inw - 1) mod 64"
  define tf where "tf = (if sb < 63 then push_bit (sb + 1) (NOT 0) else (NOT 0 :: u64))"
  define out0 where "out0 = maskTop outw (map (bits_word inw v) [0..<kWords outw])"
  define out1 where "out1 = setWord outw out0 sw (bits_word outw out0 sw OR tf)"
  have sw: "sw < kWords outw"
    using assms kWords_last[of outw "inw - 1"] by (simp add: sw_def)
  have len: "length out0 = kWords outw" "length out1 = kWords outw"
    by (simp_all add: out0_def out1_def)
  have "bits_sext outw inw v = fold (\<lambda>i out. setWord outw out i (NOT 0)) [sw + 1..<kWords outw] out1"
    using assms(1) by (simp add: bits_sext_def fold_setWord_up Let_def sw_def sb_def tf_def out0_def out1_def)
  also have "\<dots> = maskTop outw (map (sext_word inw v) [0..<kWords outw])"
  proof (rule nth_equalityI)
    note fw = fold_setWord[OF len(2), of "\<lambda>i. i" "[sw + 1..<kWords outw]" "\<lambda>_. NOT 0"]
    show "length (fold (\<lambda>i out. setWord outw out i (NOT 0)) [sw + 1..<kWords outw] out1)
        = length (maskTop outw (map (sext_word inw v) [0..<kWords outw]))"
      using fw by simp
    fix j assume "j < length (fold (\<lambda>i out. setWord outw out i (NOT 0)) [sw + 1..<kWords outw] out1)"
    then have j: "j < kWords outw" using fw by simp
    have idem: "(x AND m OR f) AND m = (x OR f) AND m" for x m f :: u64
      by (rule bit_word_eqI) (auto simp: bit_simps)
    have O0: "out0 ! i = (if i + 1 = kWords outw then bits_word inw v i AND topMask outw else bits_word inw v i)"
      if "i < kWords outw" for i
      using that by (simp add: out0_def nth_maskTop)
    have O1: "out1 ! j = (if sw = j then (if sw + 1 = kWords outw then (out0 ! sw OR tf) AND topMask outw else out0 ! sw OR tf)
        else out0 ! j)"
      using nth_setWord[OF len(1) j, of sw "bits_word outw out0 sw OR tf"] sw
      by (simp add: out1_def bits_word_def[of outw])
    have L: "fold (\<lambda>i out. setWord outw out i (NOT 0)) [sw + 1..<kWords outw] out1 ! j =
        (if sw < j then (if j + 1 = kWords outw then NOT 0 AND topMask outw else NOT 0)
         else if j = sw then (if j + 1 = kWords outw then (bits_word inw v sw AND topMask outw OR tf) AND topMask outw
                              else bits_word inw v sw OR tf)
         else bits_word inw v j)"
      using fw j sw O0[OF sw] O0[OF j] O1 by auto
    have R: "maskTop outw (map (sext_word inw v) [0..<kWords outw]) ! j =
        (if j + 1 = kWords outw then sext_word inw v j AND topMask outw else sext_word inw v j)"
      using j by (simp add: nth_maskTop)
    have W: "sext_word inw v j = (if sw < j then NOT 0 else if j = sw then bits_word inw v j OR tf else bits_word inw v j)"
      by (simp only: sext_word_def Let_def sw_def sb_def tf_def)
    show "fold (\<lambda>i out. setWord outw out i (NOT 0)) [sw + 1..<kWords outw] out1 ! j
        = maskTop outw (map (sext_word inw v) [0..<kWords outw]) ! j"
      unfolding L R W idem using sw j by (simp split: if_split)
  qed
  finally show ?thesis .
qed

lemma bit_sext_word:
  assumes wf: "bits_wf inw v"
  shows "bit (sext_word inw v (i div 64)) (i mod 64) \<longleftrightarrow>
    inw \<le> i \<or> bit (bval v) i \<or> (inw mod 64 = 0 \<and> i div 64 = (inw - 1) div 64)"
proof -
  note pos = bits_wf_pos[OF wf]
  define sw where "sw = (inw - 1) div 64"
  define sb where "sb = (inw - 1) mod 64"
  have inw: "inw = 64 * sw + sb + 1" using pos unfolding sw_def sb_def by simp
  have sb: "sb < 64" by (simp add: sb_def)
  have i: "i = 64 * (i div 64) + i mod 64" "i mod 64 < 64" by simp_all
  have m: "inw mod 64 = 0 \<longleftrightarrow> sb = 63" unfolding inw using sb by (auto simp: mod_Suc)
  have bw: "bit (bits_word inw v (i div 64)) (i mod 64) \<longleftrightarrow> bit (bval v) i"
    using bits_wf_length[OF wf] by (simp add: bits_word_def bit_bval)
  have tf: "bit (if sb < 63 then push_bit (sb + 1) (NOT 0) else (NOT 0 :: u64)) (i mod 64) \<longleftrightarrow> sb < i mod 64 \<or> sb = 63"
    using sb i(2) by (auto simp: bit_not_iff bit_mask_iff)
  have cmp: "sw < i div 64 \<Longrightarrow> inw \<le> i" "i div 64 < sw \<Longrightarrow> \<not> inw \<le> i"
    "i div 64 = sw \<Longrightarrow> inw \<le> i \<longleftrightarrow> sb < i mod 64"
    using i inw sb by linarith+
  show ?thesis
    unfolding sext_word_def Let_def sw_def[symmetric] sb_def[symmetric]
    using m tf bw cmp by (cases "sw < i div 64"; cases "i div 64 = sw") (auto simp: bit_or_iff)
qed

lemma bits_wf_sext [bits_wf_intros]: "0 < inw \<Longrightarrow> inw \<le> outw \<Longrightarrow> bits_wf outw (bits_sext outw inw v)"
proof (cases "bits_bit inw v (inw - 1)")
  case True
  assume "0 < inw" "inw \<le> outw"
  then show ?thesis using bits_sext_negative[OF True] by (simp add: bits_wf_maskTop)
next
  case False
  assume "0 < inw" "inw \<le> outw"
  with False show ?thesis by (simp add: bits_sext_def fold_setWord_up bits_wf_maskTop)
qed

text \<open>
  What \<^verbatim>\<open>sext\<close> computes, on every width: the sign bit is copied upwards, and, when the input
  width is a multiple of 64 and the value is negative, the whole word that holds the sign bit
  becomes ones.
\<close>

lemma bit_sext [bits_bit_simps]:
  assumes wf: "bits_wf inw v" and le: "inw \<le> outw"
  shows "bit (bval (bits_sext outw inw v)) i \<longleftrightarrow> i < outw \<and>
    (bit (bval v) i \<or> bit (bval v) (inw - 1) \<and>
       (inw \<le> i \<or> inw mod 64 = 0 \<and> i div 64 = (inw - 1) div 64))"
proof (cases "bit (bval v) (inw - 1)")
  case True
  then have neg: "bits_bit inw v (inw - 1)" by (simp add: bits_bit_eq[OF wf])
  have pos: "0 < outw" using bits_wf_pos[OF wf] le by simp
  show ?thesis
    unfolding bits_sext_negative[OF neg bits_wf_pos[OF wf] le] bit_map_maskTop[OF pos] bit_sext_word[OF wf]
    using True by auto
next
  case False
  then show ?thesis using bit_words_resize[OF wf, of outw i] bits_wf_pos[OF wf] le
    by (simp add: bits_sext_def fold_setWord_up bits_bit_eq[OF wf])
qed

lemma bits_sval_sext:
  assumes wf: "bits_wf inw v" and le: "inw \<le> outw" and nm: "inw mod 64 \<noteq> 0"
  shows "bits_sval outw (bits_sext outw inw v) = bits_sval inw v"
proof (rule bit_eqI)
  fix i
  note pos = bits_wf_pos[OF wf]
  have w: "bits_wf outw (bits_sext outw inw v)" using bits_wf_sext[OF pos le] .
  define k where "k = min i (outw - 1)"
  have k: "k < outw" using pos le by (auto simp: k_def)
  have "bit (bval v) k \<or> bit (bval v) (inw - 1) \<and> inw \<le> k \<longleftrightarrow> bit (bval v) (min i (inw - 1))"
  proof (cases "k < inw")
    case True
    then have "k = min i (inw - 1)" using le by (auto simp: k_def min_def split: if_splits)
    with True show ?thesis by (metis not_le)
  next
    case False
    then have "min i (inw - 1) = inw - 1" "\<not> bit (bval v) k"
      using bits_wf_bit_less[OF wf, of k] by (auto simp: k_def)
    with False show ?thesis by simp
  qed
  then show "bit (bits_sval outw (bits_sext outw inw v)) i \<longleftrightarrow> bit (bits_sval inw v) i"
    unfolding bit_sval[OF w] bit_sval[OF wf] bit_sext[OF wf le] k_def[symmetric] using nm k by auto
qed

lemma bits_wf_extract [bits_wf_intros]: "0 < outw \<Longrightarrow> bits_wf outw (bits_extract outw inw v lsb)"
  by (simp add: bits_extract_def bits_wf_trunc)

lemma bit_extract [bits_bit_simps]:
  "bits_wf inw v \<Longrightarrow> 0 < outw \<Longrightarrow>
   bit (bval (bits_extract outw inw v lsb)) i \<longleftrightarrow> i < outw \<and> bit (bval v) (i + lsb)"
  by (simp add: bits_extract_def bit_trunc bits_wf_lshr bit_lshr)

lemma bval_extract [bits_val_simps]:
  "bits_wf inw v \<Longrightarrow> 0 < outw \<Longrightarrow> bval (bits_extract outw inw v lsb) = bval v div 2 ^ lsb mod 2 ^ outw"
  by (simp add: bits_extract_def bval_trunc bits_wf_lshr bval_lshr)

lemma bits_wf_concat2 [bits_wf_intros]: "0 < wa \<Longrightarrow> bits_wf (wa + wb) (bits_concat2 wa wb a b)"
  by (simp add: bits_concat2_def bits_wf_bitwise)

lemma bit_concat2 [bits_bit_simps]:
  assumes a: "bits_wf wa a" and b: "bits_wf wb b"
  shows "bit (bval (bits_concat2 wa wb a b)) i \<longleftrightarrow> (if i < wb then bit (bval b) i else bit (bval a) (i - wb))"
proof -
  have pos: "0 < wa + wb" using bits_wf_pos[OF a] by simp
  note wfs = bits_wf_zext[OF pos, of wa a] bits_wf_zext[OF pos, of wb b]
  have "bit (bval a) (i - wb) \<Longrightarrow> i - wb < wa" "bit (bval b) i \<Longrightarrow> i < wb"
    using bits_wf_bit_less[OF a] bits_wf_bit_less[OF b] by blast+
  then show ?thesis
    by (auto simp: bits_concat2_def bit_bitwise(2)[OF bits_wf_shl[OF wfs(1)] wfs(2)] bit_shl[OF wfs(1)]
        bit_zext[OF a] bit_zext[OF b])
qed

lemma bval_concat2 [bits_val_simps]:
  assumes a: "bits_wf wa a" and b: "bits_wf wb b"
  shows "bval (bits_concat2 wa wb a b) = bval a * 2 ^ wb + bval b"
proof -
  have disj: "push_bit wb (bval a) AND bval b = 0"
    by (rule bit_eqI) (use bits_wf_bit_less[OF b] in \<open>fastforce simp: bit_and_iff bit_push_bit_iff\<close>)
  have "bval (bits_concat2 wa wb a b) = push_bit wb (bval a) OR bval b"
    by (rule bit_eqI)
      (use bits_wf_bit_less[OF b] in \<open>auto simp: bit_concat2[OF a b] bit_or_iff bit_push_bit_iff\<close>)
  then show ?thesis using disjunctive_add_eq_or[OF disj] by (simp add: push_bit_eq_mult)
qed

fun bits_wf_all :: "(nat \<times> bits) list \<Rightarrow> bool" where
  "bits_wf_all [] = True"
| "bits_wf_all ((w, a) # xs) = (bits_wf w a \<and> bits_wf_all xs)"

fun concat_val :: "(nat \<times> bits) list \<Rightarrow> nat" where
  "concat_val [] = 0"
| "concat_val ((w, a) # xs) = bval a * 2 ^ SumWidth (map fst xs) + concat_val xs"

lemma bits_wf_concat: "bits_wf_all xs \<Longrightarrow> xs \<noteq> [] \<Longrightarrow> bits_wf (SumWidth (map fst xs)) (bits_concat xs)"
  by (induction xs rule: bits_concat.induct) (auto intro: bits_wf_concat2 dest: bits_wf_pos)

lemma bval_concat: "bits_wf_all xs \<Longrightarrow> xs \<noteq> [] \<Longrightarrow> bval (bits_concat xs) = concat_val xs"
proof (induction xs rule: bits_concat.induct)
  case (3 w a x xs)
  then have wf: "bits_wf (SumWidth (map fst (x # xs))) (bits_concat (x # xs))"
    by (intro bits_wf_concat) simp_all
  from 3 have "bits_wf w a" by simp
  then show ?case using 3 bval_concat2[OF \<open>bits_wf w a\<close> wf] by simp
qed auto

lemma bval_sign_bit:
  "0 < w \<Longrightarrow> bit (bval (bits_shl w (bits_of_word w 1) (w - 1))) i \<longleftrightarrow> i = w - 1"
proof -
  assume pos: "0 < w"
  have "bval (bits_of_word w 1) = 1" using pos by (simp add: bval_of_word)
  then show ?thesis using pos by (auto simp: bit_shl bits_wf_of_word bit_Suc_0_iff)
qed

lemma bval_flip_sign:
  assumes wf: "bits_wf w a"
  shows "int (bval (bits_xor w a (bits_shl w (bits_of_word w 1) (w - 1)))) = bits_sval w a + 2 ^ (w - 1)"
proof -
  note pos = bits_wf_pos[OF wf]
  define sgn where "sgn = bits_shl w (bits_of_word w 1) (w - 1)"
  define lo where "lo = take_bit (w - 1) (bval a)"
  have sgn: "bits_wf w sgn" by (simp add: sgn_def bits_wf_intros pos)
  have sgnbit: "bit (bval sgn) i \<longleftrightarrow> i = w - 1" for i using bval_sign_bit[OF pos] by (simp add: sgn_def)
  have lo_less: "lo < 2 ^ (w - 1)" by (simp add: lo_def)
  have split: "n = lo' + (if h then 2 ^ (w - 1) else 0)"
    if "\<And>i. bit n i \<longleftrightarrow> bit lo' i \<or> h \<and> i = w - 1" "lo' < 2 ^ (w - 1)" for n lo' :: nat and h
  proof -
    have "lo' AND (if h then 2 ^ (w - 1) else 0) = 0"
      by (rule bit_eqI) (use nat_bit_lessD[OF that(2)] in \<open>auto simp: bit_and_iff bit_exp_iff\<close>)
    then have "lo' + (if h then 2 ^ (w - 1) else 0) = lo' OR (if h then 2 ^ (w - 1) else 0)"
      by (rule disjunctive_add_eq_or)
    also have "\<dots> = n" by (rule bit_eqI) (auto simp: that(1) bit_or_iff bit_exp_iff)
    finally show ?thesis by simp
  qed
  have bits: "bit (bval a) i \<Longrightarrow> i = w - 1 \<or> i < w - 1" for i using bits_wf_bit_less[OF wf, of i] pos by linarith
  have "bval a = lo + (if bit (bval a) (w - 1) then 2 ^ (w - 1) else 0)"
    by (rule split[OF _ lo_less]) (use bits in \<open>auto simp: lo_def bit_take_bit_iff\<close>)
  moreover have "bval (bits_xor w a sgn) = lo + (if \<not> bit (bval a) (w - 1) then 2 ^ (w - 1) else 0)"
    by (rule split[OF _ lo_less])
      (use bits pos in \<open>auto simp: bit_bitwise(3)[OF wf sgn] sgnbit lo_def bit_take_bit_iff\<close>)
  moreover have "(2::int) ^ w = 2 * 2 ^ (w - 1)" using pos by (simp flip: power_Suc)
  ultimately show ?thesis unfolding sgn_def[symmetric] bits_sval_def by (auto split: if_splits)
qed

lemma bits_slt_eq: "bits_wf w a \<Longrightarrow> bits_wf w b \<Longrightarrow> bits_slt w a b \<longleftrightarrow> bits_sval w a < bits_sval w b"
proof -
  assume a: "bits_wf w a" and b: "bits_wf w b"
  define sgn where "sgn = bits_shl w (bits_of_word w 1) (w - 1)"
  have wfs: "bits_wf w (bits_xor w a sgn)" "bits_wf w (bits_xor w b sgn)"
    using bits_wf_pos[OF a] by (simp_all add: bits_wf_bitwise)
  have "bits_slt w a b \<longleftrightarrow> int (bval (bits_xor w a sgn)) < int (bval (bits_xor w b sgn))"
    by (simp only: bits_slt_def Let_def sgn_def[symmetric] bits_lt_eq[OF wfs] of_nat_less_iff)
  then show ?thesis
    unfolding sgn_def bval_flip_sign[OF a] bval_flip_sign[OF b] by simp
qed

end
