(* ===== verification/Gfsim_Arith.thy ===== *)
theory Gfsim_Arith
  imports Gfsim_Bits "HOL-Library.Signed_Division"
begin

text \<open>
  The arithmetic of \<^verbatim>\<open>include/gfsim/bits.h\<close>: addition and subtraction with an explicit carry
  or borrow, the schoolbook product built from a 64 by 64 bit product of 32-bit limbs, restoring
  division, and the signed operations over them.  Each is proved equal to the mathematical
  operation modulo the width.
\<close>

subsection \<open>Addition and subtraction\<close>

fun add_loop :: "u64 \<Rightarrow> u64 list \<Rightarrow> u64 list \<Rightarrow> u64 list" where
  "add_loop carry (x # xs) (y # ys) =
     (let sum = x + y;
          carryLow = (if sum < x then 1 else 0);
          withCarry = sum + carry;
          carryHigh = (if withCarry < sum then 1 else 0)
      in withCarry # add_loop (carryLow OR carryHigh) xs ys)"
| "add_loop carry _ _ = []"

definition bits_add :: "nat \<Rightarrow> bits \<Rightarrow> bits \<Rightarrow> bits" where
  "bits_add w a b = maskTop w (add_loop 0 a b)"

fun sub_loop :: "u64 \<Rightarrow> u64 list \<Rightarrow> u64 list \<Rightarrow> u64 list" where
  "sub_loop borrow (x # xs) (y # ys) =
     (let diff = x - y;
          borrowLow = (if x < y then 1 else 0);
          withBorrow = diff - borrow;
          borrowHigh = (if diff < borrow then 1 else 0)
      in withBorrow # sub_loop (borrowLow OR borrowHigh) xs ys)"
| "sub_loop borrow _ _ = []"

definition bits_sub :: "nat \<Rightarrow> bits \<Rightarrow> bits \<Rightarrow> bits" where
  "bits_sub w a b = maskTop w (sub_loop 0 a b)"

lemma unat_add_u64: "unat ((x::u64) + y) = (unat x + unat y) mod 2 ^ 64"
  using unat_word_ariths(1)[of x y] by simp

lemma unat_sub_u64: "unat ((x::u64) - y) = (unat x + (2 ^ 64 - unat y)) mod 2 ^ 64"
proof -
  have "unat (x - y) = (if y \<le> x then unat x - unat y else unat x + 2 ^ 64 - unat y)"
    by (simp add: unat_sub_if_size word_size word_le_nat_alt)
  then show ?thesis
    using unat_u64_less[of x] unat_u64_less[of y] by (auto simp: word_le_nat_alt mod_if)
qed

lemma carry_step:
  fixes x y c :: u64
  assumes "c = 0 \<or> c = 1"
  shows "unat (x + y + c) + 2 ^ 64 * unat (((if x + y < x then 1 else 0) OR (if x + y + c < x + y then 1 else 0)) :: u64)
       = unat x + unat y + unat c"
    and "((if x + y < x then 1 else 0) OR (if x + y + c < x + y then 1 else 0)) \<in> {0, 1 :: u64}"
proof -
  have B: "unat x < 2 ^ 64" "unat y < 2 ^ 64" by (rule unat_u64_less)+
  have c: "unat c \<le> 1" using assms by auto
  have s: "unat (x + y) = (if unat x + unat y < 2 ^ 64 then unat x + unat y else unat x + unat y - 2 ^ 64)"
    using B by (simp add: unat_add_u64 mod_if)
  have t: "unat (x + y + c) = (if unat (x + y) + unat c < 2 ^ 64 then unat (x + y) + unat c else unat (x + y) + unat c - 2 ^ 64)"
    using unat_u64_less[of "x + y"] c by (simp add: unat_add_u64[of "x + y"] mod_if)
  show "unat (x + y + c) + 2 ^ 64 * unat (((if x + y < x then 1 else 0) OR (if x + y + c < x + y then 1 else 0)) :: u64)
       = unat x + unat y + unat c"
    unfolding word_less_nat_alt using s t B c by (auto split: if_splits)
  show "((if x + y < x then 1 else 0) OR (if x + y + c < x + y then 1 else 0)) \<in> {0, 1 :: u64}"
    by auto
qed

lemma length_add_loop [simp]: "length xs = length ys \<Longrightarrow> length (add_loop c xs ys) = length xs"
  by (induction c xs ys rule: add_loop.induct) (auto simp: Let_def)

lemma add_loop_val:
  assumes "length xs = length ys" "c = 0 \<or> c = 1"
  shows "\<exists>k. bval (add_loop c xs ys) + 2 ^ (64 * length xs) * k = bval xs + bval ys + unat c"
  using assms
proof (induction xs ys arbitrary: c rule: list_induct2)
  case Nil
  then show ?case by auto
next
  case (Cons x xs y ys c)
  define d where "d = ((if x + y < x then 1 else 0) OR (if x + y + c < x + y then 1 else 0) :: u64)"
  note step = carry_step[OF Cons.prems, of x y, folded d_def]
  obtain k where k: "bval (add_loop d xs ys) + 2 ^ (64 * length xs) * k = bval xs + bval ys + unat d"
    using Cons.IH[of d] step(2) by auto
  have "bval (add_loop c (x # xs) (y # ys)) + 2 ^ (64 * length (x # xs)) * k
      = unat (x + y + c) + 2 ^ 64 * (bval (add_loop d xs ys) + 2 ^ (64 * length xs) * k)"
    by (simp add: Let_def d_def bval.simps power_add algebra_simps)
  also have "\<dots> = (unat (x + y + c) + 2 ^ 64 * unat d) + 2 ^ 64 * (bval xs + bval ys)"
    unfolding k by (simp add: algebra_simps)
  also have "\<dots> = bval (x # xs) + bval (y # ys) + unat c"
    unfolding step(1) by (simp add: bval.simps algebra_simps)
  finally show ?case by blast
qed

lemma bits_wf_add [bits_wf_intros]: "bits_wf w a \<Longrightarrow> bits_wf w b \<Longrightarrow> bits_wf w (bits_add w a b)"
  by (simp add: bits_add_def bits_wf_maskTop bits_wf_length bits_wf_pos)

lemma mod_width_cong:
  fixes x y :: nat
  assumes "x + 2 ^ (64 * kWords w) * k = y" "0 < w"
  shows "x mod 2 ^ w = y mod 2 ^ w"
proof -
  have "(2::nat) ^ w dvd 2 ^ (64 * kWords w)" using kWords_bounds[OF assms(2)] by (intro le_imp_power_dvd) simp
  then obtain m where "(2::nat) ^ (64 * kWords w) * k = 2 ^ w * m" by (metis dvd_def mult.assoc)
  then have "y = x + 2 ^ w * m" using assms(1) by simp
  then show ?thesis by simp
qed

lemma bval_add [bits_val_simps]:
  assumes "bits_wf w a" "bits_wf w b"
  shows "bval (bits_add w a b) = (bval a + bval b) mod 2 ^ w"
proof -
  note len = assms[THEN bits_wf_length]
  obtain k where "bval (add_loop 0 a b) + 2 ^ (64 * length a) * k = bval a + bval b + unat (0::u64)"
    using add_loop_val[of a b 0] len by auto
  then show ?thesis
    using mod_width_cong[of "bval (add_loop 0 a b)" w k] len bits_wf_pos[OF assms(1)]
    by (simp add: bits_add_def bval_maskTop)
qed

lemma borrow_step:
  fixes x y c :: u64
  assumes "c = 0 \<or> c = 1"
  shows "unat (x - y - c) + unat y + unat c
       = unat x + 2 ^ 64 * unat (((if x < y then 1 else 0) OR (if x - y < c then 1 else 0)) :: u64)"
    and "((if x < y then 1 else 0) OR (if x - y < c then 1 else 0)) \<in> {0, 1 :: u64}"
proof -
  have B: "unat x < 2 ^ 64" "unat y < 2 ^ 64" by (rule unat_u64_less)+
  have c: "unat c \<le> 1" using assms by auto
  have d: "unat (p - q) = (if unat p < unat q then unat p + 2 ^ 64 - unat q else unat p - unat q)" for p q :: u64
    using unat_u64_less[of p] unat_u64_less[of q] by (auto simp: unat_sub_u64 mod_if)
  note s = d[of x y] and t = d[of "x - y" c]
  show "unat (x - y - c) + unat y + unat c
       = unat x + 2 ^ 64 * unat (((if x < y then 1 else 0) OR (if x - y < c then 1 else 0)) :: u64)"
    unfolding word_less_nat_alt using s t B c by (auto split: if_splits)
  show "((if x < y then 1 else 0) OR (if x - y < c then 1 else 0)) \<in> {0, 1 :: u64}"
    by auto
qed

lemma length_sub_loop [simp]: "length xs = length ys \<Longrightarrow> length (sub_loop c xs ys) = length xs"
  by (induction c xs ys rule: sub_loop.induct) (auto simp: Let_def)

lemma sub_loop_val:
  assumes "length xs = length ys" "c = 0 \<or> c = 1"
  shows "\<exists>k. bval (sub_loop c xs ys) + bval ys + unat c = bval xs + 2 ^ (64 * length xs) * k"
  using assms
proof (induction xs ys arbitrary: c rule: list_induct2)
  case Nil
  then show ?case by auto
next
  case (Cons x xs y ys c)
  define d where "d = ((if x < y then 1 else 0) OR (if x - y < c then 1 else 0) :: u64)"
  note step = borrow_step[OF Cons.prems, of x y, folded d_def]
  obtain k where k: "bval (sub_loop d xs ys) + bval ys + unat d = bval xs + 2 ^ (64 * length xs) * k"
    using Cons.IH[of d] step(2) by auto
  have "bval (sub_loop c (x # xs) (y # ys)) + bval (y # ys) + unat c
      = (unat (x - y - c) + unat y + unat c) + 2 ^ 64 * (bval (sub_loop d xs ys) + bval ys)"
    by (simp add: Let_def d_def bval.simps algebra_simps)
  also have "\<dots> = unat x + 2 ^ 64 * (bval (sub_loop d xs ys) + bval ys + unat d)"
    unfolding step(1) by (simp add: algebra_simps)
  also have "\<dots> = bval (x # xs) + 2 ^ (64 * length (x # xs)) * k"
    unfolding k by (simp add: bval.simps power_add algebra_simps)
  finally show ?case by blast
qed

lemma bits_wf_sub [bits_wf_intros]: "bits_wf w a \<Longrightarrow> bits_wf w b \<Longrightarrow> bits_wf w (bits_sub w a b)"
  by (simp add: bits_sub_def bits_wf_maskTop bits_wf_length bits_wf_pos)

lemma bval_sub [bits_val_simps]:
  assumes "bits_wf w a" "bits_wf w b"
  shows "bval (bits_sub w a b) = (bval a + (2 ^ w - bval b)) mod 2 ^ w"
proof -
  note len = assms[THEN bits_wf_length]
  obtain k where k: "bval (sub_loop 0 a b) + bval b = bval a + 2 ^ (64 * kWords w) * k"
    using sub_loop_val[of a b 0] len by auto
  have b: "bval b + (2 ^ w - bval b) = 2 ^ w" using bits_wf_less[OF assms(2)] by simp
  have "bval (bits_sub w a b) = (bval (sub_loop 0 a b) + 2 ^ w) mod 2 ^ w"
    using len bits_wf_pos[OF assms(1)] by (simp add: bits_sub_def bval_maskTop)
  also have "\<dots> = (bval (sub_loop 0 a b) + bval b + (2 ^ w - bval b)) mod 2 ^ w"
    by (simp add: b add.assoc)
  also have "\<dots> = (bval a + (2 ^ w - bval b)) mod 2 ^ w"
    unfolding k using mod_width_cong[of "bval a + (2 ^ w - bval b)" w k] bits_wf_pos[OF assms(1)]
    by (simp add: algebra_simps)
  finally show ?thesis .
qed

subsection \<open>Multiplication\<close>

definition mulWord :: "u64 \<Rightarrow> u64 \<Rightarrow> u64 \<times> u64" where
  "mulWord a b =
     (let aLow = a AND 0xFFFFFFFF; aHigh = drop_bit 32 a;
          bLow = b AND 0xFFFFFFFF; bHigh = drop_bit 32 b;
          lowLow = aLow * bLow; lowHigh = aLow * bHigh;
          highLow = aHigh * bLow; highHigh = aHigh * bHigh;
          mid = drop_bit 32 lowLow + (lowHigh AND 0xFFFFFFFF) + (highLow AND 0xFFFFFFFF)
      in (highHigh + drop_bit 32 lowHigh + drop_bit 32 highLow + drop_bit 32 mid,
          (lowLow AND 0xFFFFFFFF) OR push_bit 32 mid))"

fun mul_row :: "u64 \<Rightarrow> u64 \<Rightarrow> u64 list \<Rightarrow> u64 list \<Rightarrow> u64 list" where
  "mul_row ai carry (cur # out) (bj # bs) =
     (let (hi, lo) = mulWord ai bj;
          sum = cur + lo;
          carryLow = (if sum < cur then 1 else 0);
          withCarry = sum + carry;
          carryHigh = (if withCarry < sum then 1 else 0)
      in withCarry # mul_row ai (hi + carryLow + carryHigh) out bs)"
| "mul_row ai carry out _ = out"

fun mul_rows :: "nat \<Rightarrow> u64 list \<Rightarrow> u64 list \<Rightarrow> u64 list \<Rightarrow> u64 list" where
  "mul_rows i [] b out = out"
| "mul_rows i (ai # as) b out = mul_rows (Suc i) as b (take i out @ mul_row ai 0 (drop i out) b)"

definition bits_mul :: "nat \<Rightarrow> bits \<Rightarrow> bits \<Rightarrow> bits" where
  "bits_mul w a b = maskTop w (mul_rows 0 a b (replicate (kWords w) 0))"

lemma unat_and_low: "unat ((x::u64) AND 0xFFFFFFFF) = unat x mod 2 ^ 32"
  unfolding take_bit_eq_mod[symmetric]
proof (rule bit_eqI)
  fix n
  have m: "(0xFFFFFFFF::u64) = mask 32" by (simp add: mask_eq_exp_minus_1)
  show "bit (unat (x AND 0xFFFFFFFF)) n = bit (take_bit 32 (unat x)) n"
    unfolding m bit_unat_u64 bit_take_bit_iff bit_and_iff bit_mask_iff by auto
qed

lemma unat_drop_32: "unat (drop_bit 32 (x::u64)) = unat x div 2 ^ 32"
  unfolding drop_bit_eq_div[symmetric] by (rule bit_eqI) (simp only: bit_unat_u64 bit_drop_bit_eq o_def)

lemma unat_push_32: "unat (push_bit 32 (x::u64)) = unat x mod 2 ^ 32 * 2 ^ 32"
  unfolding take_bit_eq_mod[symmetric] push_bit_eq_mult[symmetric]
proof (rule bit_eqI)
  fix n
  show "bit (unat (push_bit 32 x)) n = bit (push_bit 32 (take_bit 32 (unat x))) n"
    unfolding bit_unat_u64 bit_push_bit_iff bit_take_bit_iff by auto
qed

lemma unat_mul_small: "unat (x::u64) * unat y < 2 ^ 64 \<Longrightarrow> unat (x * y) = unat x * unat y"
  using unat_word_ariths(2)[of x y] by simp

lemma unat_add_small: "unat (x::u64) + unat y < 2 ^ 64 \<Longrightarrow> unat (x + y) = unat x + unat y"
  by (simp add: unat_add_u64)

lemma unat_or_push: "unat (x::u64) < 2 ^ 32 \<Longrightarrow> unat (x OR push_bit 32 m) = unat x + (unat m mod 2 ^ 32) * 2 ^ 32"
proof -
  assume x: "unat x < 2 ^ 32"
  have "x AND push_bit 32 m = 0"
  proof (rule bit_word_eqI)
    fix n assume "n < LENGTH(64)"
    have "bit x n \<Longrightarrow> n < 32" using nat_bit_lessD[OF x, of n] by (simp add: bit_unat_u64)
    then show "bit (x AND push_bit 32 m) n = bit 0 n" by (auto simp: bit_and_iff bit_push_bit_iff)
  qed
  then have "x OR push_bit 32 m = x + push_bit 32 m" by (rule disjunctive_add_eq_or[symmetric])
  moreover have "unat x + unat (push_bit 32 m) < 2 ^ 64"
  proof -
    have "(unat m mod 2 ^ 32) * 2 ^ 32 \<le> (2 ^ 32 - 1) * 2 ^ (32::nat)"
      by (intro mult_le_mono1) (simp add: less_Suc_eq_le[symmetric])
    then show ?thesis using x unfolding unat_push_32 by simp
  qed
  ultimately show ?thesis by (simp only: unat_add_small unat_push_32)
qed

lemma mulWord_arith:
  fixes a0 a1 b0 b1 B :: nat
  defines "ll \<equiv> a0 * b0" and "lh \<equiv> a0 * b1" and "hl \<equiv> a1 * b0" and "hh \<equiv> a1 * b1"
  defines "mid \<equiv> ll div B + lh mod B + hl mod B"
  shows "(hh + lh div B + hl div B + mid div B) * (B * B) + (ll mod B + mid mod B * B) = (a1 * B + a0) * (b1 * B + b0)"
proof -
  have eq: "(hh + p1 + r1 + m1) * (B * B) + (l0 + m0 * B) = hh * (B * B) + ((p1 * B + p0) + (r1 * B + r0)) * B + (l1 * B + l0)"
    if "m1 * B + m0 = l1 + p0 + r0" for p1 p0 r1 r0 m1 m0 l1 l0
  proof -
    have "(m1 * B + m0) * B = (l1 + p0 + r0) * B" using that by simp
    then show ?thesis by (simp add: algebra_simps)
  qed
  have "(hh + lh div B + hl div B + mid div B) * (B * B) + (ll mod B + mid mod B * B)
      = hh * (B * B) + (lh + hl) * B + ll"
    using eq[of "mid div B" "mid mod B" "ll div B" "lh mod B" "hl mod B" "lh div B" "hl div B" "ll mod B"]
    by (simp add: mid_def)
  also have "\<dots> = (a1 * B + a0) * (b1 * B + b0)"
    unfolding ll_def lh_def hl_def hh_def by (simp add: algebra_simps)
  finally show ?thesis .
qed

lemma mulWord_val:
  assumes "mulWord a b = (hi, lo)"
  shows "unat hi * 2 ^ 64 + unat lo = unat a * unat b"
proof -
  define B :: nat where "B = 2 ^ 32"
  define a0 a1 b0 b1 where ab: "a0 = unat a mod B" "a1 = unat a div B" "b0 = unat b mod B" "b1 = unat b div B"
  define aL aH bL bH where w: "aL = a AND 0xFFFFFFFF" "aH = drop_bit 32 a" "bL = b AND 0xFFFFFFFF" "bH = drop_bit 32 b"
  define mid where "mid = drop_bit 32 (aL * bL) + ((aL * bH) AND 0xFFFFFFFF) + ((aH * bL) AND 0xFFFFFFFF)"
  have BB: "B * B = 2 ^ 64" by (simp add: B_def)
  have u: "unat aL = a0" "unat aH = a1" "unat bL = b0" "unat bH = b1"
    by (simp_all only: w ab B_def unat_and_low unat_drop_32)
  have lt: "a0 < B" "a1 < B" "b0 < B" "b1 < B"
    using unat_u64_less[of a] unat_u64_less[of b]
    by (auto simp: ab B_def less_mult_imp_div_less)
  have prod: "p < B \<Longrightarrow> q < B \<Longrightarrow> p * q < 2 ^ 64" for p q
    using mult_strict_mono'[of p B q B] BB by simp
  have m: "unat (aL * bL) = a0 * b0" "unat (aL * bH) = a0 * b1" "unat (aH * bL) = a1 * b0" "unat (aH * bH) = a1 * b1"
    using unat_mul_small prod lt u by metis+
  have lh: "unat (drop_bit 32 (aL * bL)) = a0 * b0 div B" "unat ((aL * bH) AND 0xFFFFFFFF) = a0 * b1 mod B"
    "unat ((aH * bL) AND 0xFFFFFFFF) = a1 * b0 mod B" "unat (drop_bit 32 (aL * bH)) = a0 * b1 div B"
    "unat (drop_bit 32 (aH * bL)) = a1 * b0 div B" "unat ((aL * bL) AND 0xFFFFFFFF) = a0 * b0 mod B"
    by (simp_all only: unat_and_low unat_drop_32 m B_def)
  have small: "a0 * b0 div B < B" "a0 * b1 mod B < B" "a1 * b0 mod B < B"
    using prod[OF lt(1,3)] by (auto simp: B_def less_mult_imp_div_less)
  have mid1: "unat (drop_bit 32 (aL * bL) + ((aL * bH) AND 0xFFFFFFFF)) = a0 * b0 div B + a0 * b1 mod B"
    using small by (subst unat_add_small) (simp_all only: lh, simp add: B_def)
  have mid: "unat mid = a0 * b0 div B + a0 * b1 mod B + a1 * b0 mod B"
    unfolding mid_def using small by (subst unat_add_small) (simp_all only: lh mid1, simp add: B_def)
  define H where "H = a1 * b1 + a0 * b1 div B + a1 * b0 div B + unat mid div B"
  have eq: "H * (B * B) + (a0 * b0 mod B + unat mid mod B * B) = unat a * unat b"
    using mulWord_arith[of a1 b1 a0 B b0] unfolding H_def mid ab by simp
  have "H * 2 ^ 64 \<le> unat a * unat b" using eq BB by simp
  also have "\<dots> < 2 ^ 64 * 2 ^ 64"
    by (rule mult_strict_mono'[OF unat_u64_less unat_u64_less]) simp_all
  finally have H: "H < 2 ^ 64" by simp
  have hi: "unat hi = H"
  proof -
    have "hi = aH * bH + drop_bit 32 (aL * bH) + drop_bit 32 (aH * bL) + drop_bit 32 mid"
      using assms unfolding mulWord_def Let_def w mid_def by blast
    moreover have s1: "unat (aH * bH + drop_bit 32 (aL * bH)) = a1 * b1 + a0 * b1 div B"
      using H by (subst unat_add_small) (simp_all only: m lh, simp add: H_def)
    moreover have s2: "unat (aH * bH + drop_bit 32 (aL * bH) + drop_bit 32 (aH * bL)) = a1 * b1 + a0 * b1 div B + a1 * b0 div B"
      using H by (subst unat_add_small) (simp_all only: s1 lh, simp add: H_def)
    moreover have "unat (drop_bit 32 mid) = unat mid div B" by (simp only: unat_drop_32 B_def)
    ultimately show ?thesis using H unfolding H_def by (simp only: unat_add_small)
  qed
  have lo: "unat lo = a0 * b0 mod B + unat mid mod B * B"
  proof -
    have "lo = ((aL * bL) AND 0xFFFFFFFF) OR push_bit 32 mid"
      using assms unfolding mulWord_def Let_def w mid_def by blast
    moreover have "unat ((aL * bL) AND 0xFFFFFFFF) < 2 ^ 32" unfolding lh by (simp add: B_def)
    ultimately show ?thesis unfolding B_def by (simp only: unat_or_push lh[unfolded B_def])
  qed
  show ?thesis using eq unfolding hi lo BB by simp
qed

lemma mul_carry_step:
  fixes cur lo c hi :: u64
  assumes "unat hi * 2 ^ 64 + unat lo = unat (x::u64) * unat (y::u64)"
  defines "wc \<equiv> cur + lo + c"
  defines "nc \<equiv> hi + (if cur + lo < cur then 1 else 0) + (if wc < cur + lo then 1 else 0)"
  shows "unat wc + 2 ^ 64 * unat nc = unat cur + unat x * unat y + unat c"
proof -
  have ovf: "unat (p + q) + 2 ^ 64 * (if p + q < p then 1 else 0) = unat p + unat q" for p q :: u64
    unfolding word_less_nat_alt using unat_u64_less[of p] unat_u64_less[of q]
    by (auto simp: unat_add_u64 mod_if not_less)
  define cl ch where cc: "cl = (if cur + lo < cur then 1 else 0 :: nat)" "ch = (if wc < cur + lo then 1 else 0 :: nat)"
  have s: "unat (cur + lo) + 2 ^ 64 * cl = unat cur + unat lo" using ovf[of cur lo] by (simp add: cc)
  have t: "unat wc + 2 ^ 64 * ch = unat (cur + lo) + unat c" using ovf[of "cur + lo" c] by (simp add: cc wc_def)
  have tot: "unat wc + 2 ^ 64 * (unat hi + cl + ch) = unat cur + unat x * unat y + unat c"
    using s t assms(1) by (simp add: algebra_simps)
  have "unat x * unat y \<le> (2 ^ 64 - 1) * (2 ^ 64 - 1)"
    using unat_u64_less[of x] unat_u64_less[of y] by (intro mult_le_mono) simp_all
  then have "2 ^ 64 * (unat hi + cl + ch) < 2 ^ 64 * (2 ^ 64 :: nat)"
    using tot unat_u64_less[of cur] unat_u64_less[of c] by simp
  then have lt: "unat hi + cl + ch < 2 ^ 64" by simp
  have "unat nc = unat hi + cl + ch"
  proof -
    have "unat (hi + (if cur + lo < cur then 1 else 0)) = unat hi + cl"
      using lt by (subst unat_add_small) (auto simp: cc)
    then show ?thesis using lt unfolding nc_def by (subst unat_add_small) (auto simp: cc)
  qed
  then show ?thesis using tot by simp
qed

lemma length_mul_row [simp]: "length (mul_row ai c cs bs) = length cs"
  by (induction ai c cs bs rule: mul_row.induct) (auto simp: Let_def split: prod.splits)

lemma mul_row_val:
  "length cs \<le> length bs \<Longrightarrow>
   \<exists>k. bval (mul_row ai c cs bs) + 2 ^ (64 * length cs) * k = bval cs + unat ai * bval (take (length cs) bs) + unat c"
proof (induction cs arbitrary: c bs)
  case Nil
  then show ?case by (intro exI[of _ "unat c"]) simp
next
  case (Cons cur cs)
  then obtain y ys where bs: "bs = y # ys" by (cases bs) auto
  obtain hi lo where hl: "mulWord ai y = (hi, lo)" by fastforce
  define wc where "wc = cur + lo + c"
  define nc where "nc = hi + (if cur + lo < cur then 1 else 0) + (if wc < cur + lo then 1 else 0)"
  have step: "unat wc + 2 ^ 64 * unat nc = unat cur + unat ai * unat y + unat c"
    using mul_carry_step[OF mulWord_val[OF hl]] unfolding wc_def nc_def .
  obtain k where k: "bval (mul_row ai nc cs ys) + 2 ^ (64 * length cs) * k
      = bval cs + unat ai * bval (take (length cs) ys) + unat nc"
    using Cons.IH[of ys nc] Cons.prems bs by auto
  have row: "mul_row ai c (cur # cs) bs = wc # mul_row ai nc cs ys"
    by (simp add: bs hl Let_def wc_def nc_def)
  have "bval (mul_row ai c (cur # cs) bs) + 2 ^ (64 * length (cur # cs)) * k
      = unat wc + 2 ^ 64 * (bval (mul_row ai nc cs ys) + 2 ^ (64 * length cs) * k)"
    unfolding row by (simp add: bval.simps power_add algebra_simps)
  also have "\<dots> = (unat wc + 2 ^ 64 * unat nc) + 2 ^ 64 * (bval cs + unat ai * bval (take (length cs) ys))"
    unfolding k by (simp add: algebra_simps)
  also have "\<dots> = bval (cur # cs) + unat ai * bval (take (length (cur # cs)) bs) + unat c"
    unfolding step bs by (simp add: bval.simps algebra_simps)
  finally show ?case by blast
qed

lemma length_mul_rows: "i + length as \<le> length out \<Longrightarrow> length (mul_rows i as b out) = length out"
  by (induction i as b out rule: mul_rows.induct) auto

lemma mul_rows_val:
  assumes "i + length as = n" "length out = n" "length b = n"
  shows "\<exists>k. bval (mul_rows i as b out) + 2 ^ (64 * n) * k = bval out + 2 ^ (64 * i) * bval as * bval b"
  using assms
proof (induction as arbitrary: i out)
  case Nil
  then show ?case by (intro exI[of _ 0]) simp
next
  case (Cons a as)
  define M :: nat where "M = 2 ^ (64 * n)"
  define P :: nat where "P = 2 ^ (64 * i)"
  define out' where "out' = take i out @ mul_row a 0 (drop i out) b"
  have i: "i \<le> n" using Cons.prems by simp
  have MP: "M = P * 2 ^ (64 * (n - i))" unfolding M_def P_def using i by (simp flip: power_add distrib_left)
  obtain k1 where k1: "bval (mul_row a 0 (drop i out) b) + 2 ^ (64 * (n - i)) * k1
      = bval (drop i out) + unat a * bval (take (n - i) b)"
    using mul_row_val[of "drop i out" b a 0] Cons.prems by auto
  obtain k2 where k2: "bval (mul_rows (Suc i) as b out') + M * k2 = bval out' + 2 ^ (64 * Suc i) * bval as * bval b"
    using Cons.IH[of "Suc i" out'] Cons.prems by (auto simp: out'_def M_def)
  have o: "bval out = bval (take i out) + P * bval (drop i out)"
    using bval_append[of "take i out" "drop i out"] Cons.prems by (simp add: P_def)
  have bb: "bval b = bval (take (n - i) b) + 2 ^ (64 * (n - i)) * bval (drop (n - i) b)"
    using bval_append[of "take (n - i) b" "drop (n - i) b"] Cons.prems by simp
  have o': "bval out' = bval (take i out) + P * bval (mul_row a 0 (drop i out) b)"
    using bval_append[of "take i out"] Cons.prems by (simp add: out'_def P_def)
  have e1: "bval out' + M * k1 = bval out + P * unat a * bval (take (n - i) b)"
  proof -
    have "P * (bval (mul_row a 0 (drop i out) b) + 2 ^ (64 * (n - i)) * k1) = P * (bval (drop i out) + unat a * bval (take (n - i) b))"
      by (simp only: k1)
    then show ?thesis unfolding o o' MP by (simp add: algebra_simps)
  qed
  have e2: "P * unat a * bval b = P * unat a * bval (take (n - i) b) + M * (unat a * bval (drop (n - i) b))"
    unfolding MP by (subst bb) (simp add: algebra_simps)
  have "bval (mul_rows (Suc i) as b out') + M * (k2 + k1 + unat a * bval (drop (n - i) b))
      = bval out + P * unat a * bval b + 2 ^ (64 * Suc i) * bval as * bval b"
    using k2 e1 unfolding e2 by (simp add: algebra_simps)
  also have "\<dots> = bval out + P * bval (a # as) * bval b"
    unfolding P_def by (simp add: bval.simps power_add algebra_simps)
  finally show ?case unfolding M_def P_def by (auto simp: out'_def)
qed

lemma bits_wf_mul [bits_wf_intros]: "bits_wf w a \<Longrightarrow> bits_wf w (bits_mul w a b)"
  by (simp add: bits_mul_def bits_wf_maskTop length_mul_rows bits_wf_length bits_wf_pos)

lemma bval_mul [bits_val_simps]:
  assumes "bits_wf w a" "bits_wf w b"
  shows "bval (bits_mul w a b) = bval a * bval b mod 2 ^ w"
proof -
  note len = assms[THEN bits_wf_length]
  obtain k where "bval (mul_rows 0 a b (replicate (kWords w) 0)) + 2 ^ (64 * kWords w) * k = bval a * bval b"
    using mul_rows_val[of 0 a "kWords w" "replicate (kWords w) 0" b] len by auto
  then show ?thesis
    using mod_width_cong[of "bval (mul_rows 0 a b (replicate (kWords w) 0))" w k] len bits_wf_pos[OF assms(1)]
    by (simp add: bits_mul_def bval_maskTop length_mul_rows)
qed

subsection \<open>Division\<close>

definition isZero :: "nat \<Rightarrow> bits \<Rightarrow> bool" where
  "isZero w v = list_all (\<lambda>i. bits_word w v i = 0) [0..<kWords w]"

definition isAllOnes :: "nat \<Rightarrow> bits \<Rightarrow> bool" where
  "isAllOnes w v = list_all (\<lambda>i. bits_bit w v i) [0..<w]"

definition isMinSigned :: "nat \<Rightarrow> bits \<Rightarrow> bool" where
  "isMinSigned w v = (bits_bit w v (w - 1) \<and> list_all (\<lambda>i. \<not> bits_bit w v i) [0..<w - 1])"

definition bits_negate :: "nat \<Rightarrow> bits \<Rightarrow> bits" where
  "bits_negate w v = bits_add w (bits_not w v) (bits_of_word w 1)"

definition setBit :: "nat \<Rightarrow> bits \<Rightarrow> nat \<Rightarrow> bits" where
  "setBit w v idx = (if idx \<ge> w then v else bits_or w v (bits_shl w (bits_of_word w 1) idx))"

fun udivrem_loop :: "nat \<Rightarrow> bits \<Rightarrow> bits \<Rightarrow> nat \<Rightarrow> bits \<Rightarrow> bits \<Rightarrow> bits \<times> bits" where
  "udivrem_loop w numer denom 0 quot rem = (quot, rem)"
| "udivrem_loop w numer denom (Suc i) quot rem =
     (let rem = bits_shl w rem 1;
          rem = (if bits_bit w numer i then bits_or w rem (bits_of_word w 1) else rem)
      in if bits_ge w rem denom
         then udivrem_loop w numer denom i (setBit w quot i) (bits_sub w rem denom)
         else udivrem_loop w numer denom i quot rem)"

definition udivrem :: "nat \<Rightarrow> bits \<Rightarrow> bits \<Rightarrow> bits \<times> bits" where
  "udivrem w numer denom =
     (if isZero w denom then (bits_of_word w 0, bits_of_word w 0)
      else udivrem_loop w numer denom w (bits_of_word w 0) (bits_of_word w 0))"

definition bits_udiv :: "nat \<Rightarrow> bits \<Rightarrow> bits \<Rightarrow> bits" where
  "bits_udiv w a b =
     (if isZero w b then bits_of_word w 0
      else if w \<le> 64 then bits_of_word w (bits_value a div bits_value b)
      else fst (udivrem w a b))"

definition bits_urem :: "nat \<Rightarrow> bits \<Rightarrow> bits \<Rightarrow> bits" where
  "bits_urem w a b =
     (if isZero w b then bits_of_word w 0
      else if w \<le> 64 then bits_of_word w (bits_value a mod bits_value b)
      else snd (udivrem w a b))"

lemma isZero_eq: "bits_wf w v \<Longrightarrow> isZero w v \<longleftrightarrow> bval v = 0"
proof -
  assume wf: "bits_wf w v"
  have "isZero w v \<longleftrightarrow> v = bits_default w"
    using bits_wf_length[OF wf]
    by (auto simp: isZero_def list_all_iff bits_word_def bits_default_def intro!: nth_equalityI)
  also have "\<dots> \<longleftrightarrow> bval v = 0"
    using bits_eq_iff[OF wf bits_wf_default[OF bits_wf_pos[OF wf]]] by (simp add: bval_default)
  finally show ?thesis .
qed

lemma bits_wf_setBit [bits_wf_intros]: "bits_wf w v \<Longrightarrow> bits_wf w (setBit w v i)"
  using bits_wf_pos[of w v] by (simp add: setBit_def bits_wf_bitwise)

lemma bval_one: "0 < w \<Longrightarrow> bval (bits_of_word w 1) = 1"
  by (simp add: bval_of_word)

lemma bval_setBit:
  assumes wf: "bits_wf w v" and i: "i < w" and d: "bval v = 2 ^ Suc i * q"
  shows "bval (setBit w v i) = bval v + 2 ^ i"
proof -
  note pos = bits_wf_pos[OF wf]
  have s: "bval (bits_shl w (bits_of_word w 1) i) = 2 ^ i"
    using i pos by (simp add: bval_shl bits_wf_of_word bval_one)
  have "\<not> bit (bval v) i" unfolding d bit_iff_odd by simp
  then have "bval v AND 2 ^ i = 0"
    by (intro bit_eqI) (auto simp: bit_and_iff bit_exp_iff)
  then show ?thesis
    using i wf pos s disjunctive_add_eq_or[of "bval v" "2 ^ i"]
    by (simp add: setBit_def bval_bitwise(2) bits_wf_intros)
qed

lemma div_mod_double:
  fixes P D b :: nat
  assumes "b \<le> 1" "0 < D"
  shows "(2 * P + b) div D = 2 * (P div D) + (if D \<le> 2 * (P mod D) + b then 1 else 0)"
    and "(2 * P + b) mod D = (if D \<le> 2 * (P mod D) + b then 2 * (P mod D) + b - D else 2 * (P mod D) + b)"
proof -
  have lt: "P mod D < D" using assms by simp
  have e: "2 * P + b = D * (2 * (P div D)) + (2 * (P mod D) + b)"
    by (metis add.assoc div_mult_mod_eq add_mult_distrib2 mult.assoc mult.commute)
  show "(2 * P + b) div D = 2 * (P div D) + (if D \<le> 2 * (P mod D) + b then 1 else 0)"
  proof (cases "D \<le> 2 * (P mod D) + b")
    case True
    moreover have "2 * (P mod D) + b < 2 * D" using lt assms by linarith
    ultimately have "(2 * (P mod D) + b) div D = 1" by (intro div_nat_eqI) simp_all
    with True assms show ?thesis unfolding e by simp
  next
    case False
    then show ?thesis unfolding e using assms by simp
  qed
  show "(2 * P + b) mod D = (if D \<le> 2 * (P mod D) + b then 2 * (P mod D) + b - D else 2 * (P mod D) + b)"
  proof (cases "D \<le> 2 * (P mod D) + b")
    case True
    moreover have "2 * (P mod D) + b - D < D" using lt assms by linarith
    ultimately have "(2 * (P mod D) + b) mod D = 2 * (P mod D) + b - D" by (simp only: le_mod_geq mod_less)
    with True show ?thesis unfolding e by simp
  next
    case False
    then show ?thesis unfolding e by simp
  qed
qed

lemma udivrem_loop_correct:
  assumes "bits_wf w numer" "bits_wf w denom" "0 < bval denom"
    and "bits_wf w quot" "bits_wf w rem" "i \<le> w"
    and "bval quot = 2 ^ i * (bval numer div 2 ^ i div bval denom)"
    and "bval rem = bval numer div 2 ^ i mod bval denom"
  shows "case udivrem_loop w numer denom i quot rem of (q, r) \<Rightarrow>
    bits_wf w q \<and> bits_wf w r \<and> bval q = bval numer div bval denom \<and> bval r = bval numer mod bval denom"
  using assms
proof (induction i arbitrary: quot rem)
  case 0
  then show ?case by simp
next
  case (Suc i)
  note n = Suc.prems(1) and d = Suc.prems(2) and q = Suc.prems(4) and r = Suc.prems(5)
  note pos = bits_wf_pos[OF n]
  define N D P where "N = bval numer" and "D = bval denom" and "P = N div 2 ^ Suc i"
  define b :: nat where "b = of_bool (bit N i)"
  have b1: "b \<le> 1" by (simp add: b_def)
  have D0: "0 < D" using Suc.prems(3) by (simp add: D_def)
  have NP: "N div 2 ^ i = 2 * P + b"
    unfolding P_def b_def bit_iff_odd by (simp add: div_mult2_eq mult.commute[of 2 "2 ^ i"] mod_2_eq_odd[symmetric])
  have Pw: "2 * P + b < 2 ^ w"
    unfolding NP[symmetric] using bits_wf_less[OF n] by (simp add: N_def order_le_less_trans[OF div_le_dividend])
  have rem0: "bval rem = P mod D" using Suc.prems(8) by (simp add: P_def N_def D_def)
  have le: "P mod D \<le> P" by simp
  define r1 where "r1 = bits_shl w rem 1"
  have "2 * (P mod D) < 2 ^ w" using Pw le by linarith
  then have r1: "bits_wf w r1" "bval r1 = 2 * (P mod D)"
    using r by (simp_all add: r1_def bits_wf_shl bval_shl rem0 mult.commute)
  define r2 where "r2 = (if bits_bit w numer i then bits_or w r1 (bits_of_word w 1) else r1)"
  have or1: "2 * m OR 1 = 2 * m + (1::nat)" for m
  proof -
    have "2 * m AND 1 = (0::nat)" by (simp add: and_one_eq)
    then show ?thesis using disjunctive_add_eq_or by metis
  qed
  have r2: "bits_wf w r2" "bval r2 = 2 * (P mod D) + b"
    using r1 pos or1[of "P mod D"] bits_bit_eq[OF n, of i]
    by (auto simp: r2_def b_def N_def bits_wf_bitwise bval_bitwise(2) bits_wf_of_word bval_one)
  have ge: "bits_ge w r2 denom \<longleftrightarrow> D \<le> 2 * (P mod D) + b"
    using r2 d by (simp add: bits_order_eq D_def)
  have quot0: "bval quot = 2 ^ Suc i * (P div D)" using Suc.prems(7) by (simp add: P_def N_def D_def)
  have step: "udivrem_loop w numer denom (Suc i) quot rem =
      (if bits_ge w r2 denom then udivrem_loop w numer denom i (setBit w quot i) (bits_sub w r2 denom)
       else udivrem_loop w numer denom i quot r2)"
    by (simp only: udivrem_loop.simps Let_def r1_def r2_def)
  have iw: "i \<le> w" using Suc.prems(6) by simp
  note IH = Suc.IH[OF n d Suc.prems(3) _ _ iw]
  show ?case
  proof (cases "bits_ge w r2 denom")
    case True
    have qs: "bits_wf w (setBit w quot i)" "bval (setBit w quot i) = 2 ^ i * (N div 2 ^ i div D)"
      using bval_setBit[OF q _ quot0] Suc.prems(6) True ge q unfolding NP div_mod_double(1)[OF b1 D0] quot0
      by (simp_all add: bits_wf_setBit algebra_simps)
    have lt: "2 * (P mod D) + b - D < 2 ^ w" using Pw le by linarith
    have "2 * (P mod D) + b + (2 ^ w - D) = (2 * (P mod D) + b - D) + 2 ^ w"
      using True ge bits_wf_less[OF d] unfolding D_def[symmetric] by linarith
    then have "(2 * (P mod D) + b + (2 ^ w - D)) mod 2 ^ w = 2 * (P mod D) + b - D"
      using lt by (simp only: mod_add_self2 mod_less)
    then have rs: "bits_wf w (bits_sub w r2 denom)" "bval (bits_sub w r2 denom) = N div 2 ^ i mod D"
      using True ge r2 d unfolding NP div_mod_double(2)[OF b1 D0]
      by (simp_all add: bits_wf_sub bval_sub D_def[symmetric])
    show ?thesis unfolding step using True IH[OF qs(1) rs(1)] qs(2) rs(2) by (simp add: N_def D_def)
  next
    case False
    have qs: "bval quot = 2 ^ i * (N div 2 ^ i div D)"
      using False ge unfolding NP div_mod_double(1)[OF b1 D0] quot0 by simp
    have rs: "bval r2 = N div 2 ^ i mod D"
      using False ge r2 unfolding NP div_mod_double(2)[OF b1 D0] by simp
    show ?thesis unfolding step using False IH[OF q r2(1)] qs rs by (simp add: N_def D_def)
  qed
qed

lemma udivrem_correct:
  assumes "bits_wf w numer" "bits_wf w denom" "bval denom \<noteq> 0" "udivrem w numer denom = (q, r)"
  shows "bits_wf w q" "bits_wf w r" "bval q = bval numer div bval denom" "bval r = bval numer mod bval denom"
proof -
  have pos: "0 < w" using assms(1) by (rule bits_wf_pos)
  have z: "\<not> isZero w denom" using assms(2,3) by (simp add: isZero_eq)
  have n0: "bval numer div 2 ^ w = 0" using bits_wf_less[OF assms(1)] by simp
  have "case udivrem_loop w numer denom w (bits_of_word w 0) (bits_of_word w 0) of (q, r) \<Rightarrow>
    bits_wf w q \<and> bits_wf w r \<and> bval q = bval numer div bval denom \<and> bval r = bval numer mod bval denom"
    by (rule udivrem_loop_correct)
      (use assms pos in \<open>simp_all add: n0 bits_wf_of_word bval_of_word\<close>)
  then show "bits_wf w q" "bits_wf w r" "bval q = bval numer div bval denom" "bval r = bval numer mod bval denom"
    using assms(4) z by (simp_all add: udivrem_def)
qed

lemma unat_bits_value_small: "bits_wf w a \<Longrightarrow> w \<le> 64 \<Longrightarrow> unat (bits_value a) = bval a"
proof -
  assume wf: "bits_wf w a" and "w \<le> 64"
  then have "(2::nat) ^ w \<le> 2 ^ 64" by (intro power_increasing) simp_all
  then show ?thesis using bits_wf_less[OF wf] unfolding unat_bits_value[OF wf] by simp
qed

lemma udivrem_parts:
  assumes "bits_wf w a" "bits_wf w b" "\<not> isZero w b"
  shows "bits_wf w (fst (udivrem w a b))" "bits_wf w (snd (udivrem w a b))"
    "bval (fst (udivrem w a b)) = bval a div bval b" "bval (snd (udivrem w a b)) = bval a mod bval b"
proof -
  have "bval b \<noteq> 0" using assms(2,3) by (simp add: isZero_eq)
  note udivrem_correct[OF assms(1,2) this surjective_pairing]
  then show "bits_wf w (fst (udivrem w a b))" "bits_wf w (snd (udivrem w a b))"
    "bval (fst (udivrem w a b)) = bval a div bval b" "bval (snd (udivrem w a b)) = bval a mod bval b" .
qed

lemma bits_wf_udiv_urem [bits_wf_intros]:
  assumes "bits_wf w a" "bits_wf w b"
  shows "bits_wf w (bits_udiv w a b)" "bits_wf w (bits_urem w a b)"
  using bits_wf_of_word[OF bits_wf_pos[OF assms(1)]] udivrem_parts(1,2)[OF assms]
  by (simp_all add: bits_udiv_def bits_urem_def)

lemma bval_udiv [bits_val_simps]:
  assumes a: "bits_wf w a" and b: "bits_wf w b"
  shows "bval (bits_udiv w a b) = bval a div bval b" "bval (bits_urem w a b) = (if bval b = 0 then 0 else bval a mod bval b)"
proof -
  note pos = bits_wf_pos[OF a]
  have le: "bval a div bval b < 2 ^ w" "bval a mod bval b < 2 ^ w"
    using bits_wf_less[OF a] by (meson div_le_dividend le_less_trans, meson mod_less_eq_dividend le_less_trans)
  have big: "bval b \<noteq> 0 \<Longrightarrow> bval (fst (udivrem w a b)) = bval a div bval b"
    "bval b \<noteq> 0 \<Longrightarrow> bval (snd (udivrem w a b)) = bval a mod bval b"
    using udivrem_parts(3,4)[OF a b] by (simp_all add: isZero_eq[OF b])
  show "bval (bits_udiv w a b) = bval a div bval b"
    using le big(1) pos
    by (simp add: bits_udiv_def isZero_eq[OF b] bval_of_word unat_div unat_bits_value_small[OF a] unat_bits_value_small[OF b])
  show "bval (bits_urem w a b) = (if bval b = 0 then 0 else bval a mod bval b)"
    using le big(2) pos
    by (simp add: bits_urem_def isZero_eq[OF b] bval_of_word unat_mod unat_bits_value_small[OF a] unat_bits_value_small[OF b])
qed

subsection \<open>Signed division\<close>

definition asSigned :: "nat \<Rightarrow> bits \<Rightarrow> int" where
  "asSigned w v =
     (if w = 64 then sint (bits_value v)
      else let x = bits_value v; signBit = push_bit (w - 1) 1
           in sint (if x AND signBit \<noteq> 0 then x OR push_bit w (NOT 0) else x))"

definition bits_sdiv :: "nat \<Rightarrow> bits \<Rightarrow> bits \<Rightarrow> bits" where
  "bits_sdiv w a b =
     (if isZero w b then bits_of_word w 0
      else if isMinSigned w a \<and> isAllOnes w b then a
      else if w \<le> 64 then bits_of_word w (word_of_int (asSigned w a sdiv asSigned w b))
      else let aNeg = bits_bit w a (w - 1);
               bNeg = bits_bit w b (w - 1);
               ua = (if aNeg then bits_negate w a else a);
               ub = (if bNeg then bits_negate w b else b);
               q = fst (udivrem w ua ub)
           in if aNeg \<noteq> bNeg then bits_negate w q else q)"

definition bits_srem :: "nat \<Rightarrow> bits \<Rightarrow> bits \<Rightarrow> bits" where
  "bits_srem w a b =
     (if isZero w b then bits_of_word w 0
      else if isMinSigned w a \<and> isAllOnes w b then bits_of_word w 0
      else if w \<le> 64 then bits_of_word w (word_of_int (asSigned w a smod asSigned w b))
      else let aNeg = bits_bit w a (w - 1);
               bNeg = bits_bit w b (w - 1);
               ua = (if aNeg then bits_negate w a else a);
               ub = (if bNeg then bits_negate w b else b);
               r = snd (udivrem w ua ub)
           in if aNeg then bits_negate w r else r)"

subsection \<open>Signed division\<close>

lemma nat_bit_pos: "bit (n::nat) i \<Longrightarrow> 0 < n"
  by (rule ccontr) simp

lemma int_bval_sval: "bits_wf w a \<Longrightarrow> int (bval a) = bits_sval w a mod 2 ^ w"
  using bits_wf_less[of w a] by (simp add: bits_sval_def)

lemma bits_sval_range:
  assumes wf: "bits_wf w a"
  shows "- (2 ^ (w - 1)) \<le> bits_sval w a" "bits_sval w a < 2 ^ (w - 1)"
  unfolding bits_sval_signed_take_bit[OF wf]
  by (rule signed_take_bit_int_greater_eq_minus_exp, rule signed_take_bit_int_less_exp)

lemma sval_unique:
  assumes wf: "bits_wf w a" and r: "- (2 ^ (w - 1)) \<le> k" "k < 2 ^ (w - 1)" and e: "int (bval a) = k mod 2 ^ w"
  shows "bits_sval w a = k"
proof -
  have p: "(2::int) ^ w = 2 * 2 ^ (w - 1)" using bits_wf_pos[OF wf] by (simp flip: power_Suc)
  have "bits_sval w a mod 2 ^ w = k mod 2 ^ w" using e int_bval_sval[OF wf] by simp
  then have "2 ^ w dvd (bits_sval w a - k)" by (simp add: mod_eq_dvd_iff)
  then obtain m where m: "bits_sval w a - k = 2 ^ w * m" by (auto simp: dvd_def)
  have "\<bar>bits_sval w a - k\<bar> < 2 ^ w" using bits_sval_range[OF wf] r p by linarith
  then have "m = 0" unfolding m by (simp add: abs_mult)
  then show ?thesis using m by simp
qed

lemma bits_wf_negate [bits_wf_intros]: "bits_wf w a \<Longrightarrow> bits_wf w (bits_negate w a)"
  using bits_wf_pos[of w a] by (simp add: bits_negate_def bits_wf_add bits_wf_bitwise bits_wf_of_word)

lemma bval_negate:
  assumes wf: "bits_wf w a"
  shows "int (bval (bits_negate w a)) = (- int (bval a)) mod 2 ^ w"
proof -
  note pos = bits_wf_pos[OF wf]
  have le: "bval a + 1 \<le> 2 ^ w" using bits_wf_less[OF wf] by simp
  have "bval (bits_negate w a) = (2 ^ w - 1 - bval a + 1) mod 2 ^ w"
    using wf pos by (simp add: bits_negate_def bval_add bits_wf_bitwise bits_wf_of_word bval_not bval_one)
  also have "2 ^ w - 1 - bval a + 1 = 2 ^ w - bval a" using le by simp
  finally have "int (bval (bits_negate w a)) = (2 ^ w - int (bval a)) mod 2 ^ w"
    using le by (simp add: of_nat_mod of_nat_diff)
  then show ?thesis by (metis diff_0 minus_mod_self1)
qed

lemma isAllOnes_eq: "bits_wf w v \<Longrightarrow> isAllOnes w v \<longleftrightarrow> bits_sval w v = -1"
proof -
  assume wf: "bits_wf w v"
  have "isAllOnes w v \<longleftrightarrow> (\<forall>i. bit (bits_sval w v) i)"
    using bits_wf_pos[OF wf] by (auto simp: isAllOnes_def list_all_iff bits_bit_eq[OF wf] bit_sval[OF wf] min_def)
  also have "\<dots> \<longleftrightarrow> bits_sval w v = -1" by (auto simp: bit_eq_iff)
  finally show ?thesis .
qed

lemma isMinSigned_eq: "bits_wf w v \<Longrightarrow> isMinSigned w v \<longleftrightarrow> bits_sval w v = - (2 ^ (w - 1))"
proof -
  assume wf: "bits_wf w v"
  have b: "bit (- (2 ^ (w - 1)) :: int) i \<longleftrightarrow> w - 1 \<le> i" for i by (simp add: bit_minus_exp_iff)
  have "bits_sval w v = - (2 ^ (w - 1)) \<longleftrightarrow> (\<forall>i. bit (bval v) (min i (w - 1)) \<longleftrightarrow> w - 1 \<le> i)"
    unfolding bit_eq_iff bit_sval[OF wf] b by simp
  also have "\<dots> \<longleftrightarrow> isMinSigned w v"
    by (auto simp: isMinSigned_def list_all_iff bits_bit_eq[OF wf] min_def not_le)
  finally show ?thesis by simp
qed

lemma bits_value_bit: "bits_wf w v \<Longrightarrow> w \<le> 64 \<Longrightarrow> bit (bits_value v) i \<longleftrightarrow> bit (bval v) i"
  by (metis bit_unat_u64 unat_bits_value_small)

lemma asSigned_eq: "bits_wf w v \<Longrightarrow> w \<le> 64 \<Longrightarrow> asSigned w v = bits_sval w v"
proof -
  assume wf: "bits_wf w v" and w: "w \<le> 64"
  note pos = bits_wf_pos[OF wf]
  have bs: "bit (sint (x::u64)) i \<longleftrightarrow> bit x (min i 63)" for x i
    by (simp add: bit_signed_iff min.commute)
  show ?thesis
  proof (cases "w = 64")
    case True
    have "bit (asSigned w v) i = bit (bits_sval w v) i" for i
      unfolding bit_sval[OF wf] using True by (simp add: asSigned_def bs bits_value_bit[OF wf])
    then show ?thesis by (intro bit_eqI) simp
  next
    case False
    then have w': "w < 64" using w by simp
    have sb: "bits_value v AND push_bit (w - 1) 1 \<noteq> 0 \<longleftrightarrow> bit (bval v) (w - 1)"
    proof -
      have "bits_value v AND push_bit (w - 1) 1 \<noteq> 0 \<longleftrightarrow> bit (bits_value v) (w - 1)"
        using w' by (simp add: bit_iff_and_push_bit_not_eq_0)
      then show ?thesis using bits_value_bit[OF wf w] by simp
    qed
    define y where "y = (if bit (bval v) (w - 1) then bits_value v OR push_bit w (NOT 0) else bits_value v)"
    have as: "asSigned w v = sint y" using False unfolding asSigned_def Let_def sb y_def by simp
    have ybit: "bit y k \<longleftrightarrow> bit (bval v) k \<or> bit (bval v) (w - 1) \<and> w \<le> k" if "k < 64" for k
      using that w' unfolding y_def
      by (auto simp: bit_or_iff bit_not_iff bit_mask_iff bits_value_bit[OF wf w])
    show ?thesis
    proof (rule bit_eqI)
      fix i :: nat
      define k where "k = min i 63"
      have k: "k < 64" by (simp add: k_def)
      show "bit (asSigned w v) i = bit (bits_sval w v) i"
      proof (cases "k < w")
        case True
        then have "k = min i (w - 1)" using w' by (auto simp: k_def min_def split: if_splits)
        then show ?thesis unfolding as bs bit_sval[OF wf] k_def[symmetric] ybit[OF k] using True by (metis not_le)
      next
        case False
        then have "min i (w - 1) = w - 1" "\<not> bit (bval v) k"
          using bits_wf_bit_less[OF wf, of k] by (auto simp: k_def)
        then show ?thesis unfolding as bs bit_sval[OF wf] k_def[symmetric] ybit[OF k] using False by simp
      qed
    qed
  qed
qed

lemma bval_of_word_int:
  "0 < w \<Longrightarrow> w \<le> 64 \<Longrightarrow> int (bval (bits_of_word w (word_of_int k))) = k mod 2 ^ w"
proof -
  assume "0 < w" "w \<le> 64"
  have "int (unat (word_of_int k :: u64)) = k mod 2 ^ 64"
    by (simp add: unsigned_of_int take_bit_eq_mod)
  moreover have "(2::int) ^ w dvd 2 ^ 64" using \<open>w \<le> 64\<close> by (rule le_imp_power_dvd)
  ultimately show ?thesis using \<open>0 < w\<close> by (simp add: bval_of_word of_nat_mod mod_mod_cancel)
qed

text \<open>The magnitudes the wide signed path divides.\<close>

definition bits_magnitude :: "nat \<Rightarrow> bits \<Rightarrow> bits" where
  "bits_magnitude w a = (if bits_bit w a (w - 1) then bits_negate w a else a)"

lemma bits_magnitude:
  assumes wf: "bits_wf w a"
  shows "bits_wf w (bits_magnitude w a)" "int (bval (bits_magnitude w a)) = \<bar>bits_sval w a\<bar>"
proof -
  have lt: "int (bval a) < 2 ^ w" using bits_wf_less[OF wf] by (metis of_nat_less_iff of_nat_numeral of_nat_power)
  have "bit (bval a) (w - 1) \<Longrightarrow> (- int (bval a)) mod 2 ^ w = 2 ^ w - int (bval a)"
  proof -
    assume "bit (bval a) (w - 1)"
    then have "0 < bval a" by (rule nat_bit_pos)
    then have "(2 ^ w - int (bval a)) mod 2 ^ w = 2 ^ w - int (bval a)" using lt by (intro mod_pos_pos_trivial) auto
    then show ?thesis by (metis diff_0 minus_mod_self1)
  qed
  then show "int (bval (bits_magnitude w a)) = \<bar>bits_sval w a\<bar>"
    using lt by (auto simp: bits_magnitude_def bits_bit_eq[OF wf] bits_sval_def bval_negate[OF wf])
  show "bits_wf w (bits_magnitude w a)" using wf by (simp add: bits_magnitude_def bits_wf_negate)
qed

lemma bits_sval_neg_iff: "bits_wf w a \<Longrightarrow> bits_bit w a (w - 1) \<longleftrightarrow> bits_sval w a < 0"
proof -
  assume wf: "bits_wf w a"
  have "int (bval a) < 2 ^ w" using bits_wf_less[OF wf] by (metis of_nat_less_iff of_nat_numeral of_nat_power)
  then show ?thesis by (auto simp: bits_bit_eq[OF wf] bits_sval_def)
qed

lemma bits_sval_zero_iff: "bits_wf w a \<Longrightarrow> bits_sval w a = 0 \<longleftrightarrow> bval a = 0"
proof -
  assume wf: "bits_wf w a"
  have "int (bval a) < 2 ^ w" using bits_wf_less[OF wf] by (metis of_nat_less_iff of_nat_numeral of_nat_power)
  then show ?thesis using nat_bit_pos[of "bval a" "w - 1"] by (auto simp: bits_sval_def)
qed

lemma bits_sdiv_magnitude:
  "bits_sdiv w a b =
     (if isZero w b then bits_of_word w 0
      else if isMinSigned w a \<and> isAllOnes w b then a
      else if w \<le> 64 then bits_of_word w (word_of_int (asSigned w a sdiv asSigned w b))
      else if bits_bit w a (w - 1) \<noteq> bits_bit w b (w - 1)
      then bits_negate w (fst (udivrem w (bits_magnitude w a) (bits_magnitude w b)))
      else fst (udivrem w (bits_magnitude w a) (bits_magnitude w b)))"
  by (simp only: bits_sdiv_def bits_magnitude_def Let_def)

lemma bits_srem_magnitude:
  "bits_srem w a b =
     (if isZero w b then bits_of_word w 0
      else if isMinSigned w a \<and> isAllOnes w b then bits_of_word w 0
      else if w \<le> 64 then bits_of_word w (word_of_int (asSigned w a smod asSigned w b))
      else if bits_bit w a (w - 1)
      then bits_negate w (snd (udivrem w (bits_magnitude w a) (bits_magnitude w b)))
      else snd (udivrem w (bits_magnitude w a) (bits_magnitude w b)))"
  by (simp only: bits_srem_def bits_magnitude_def Let_def)

lemma bits_wf_sdiv_srem [bits_wf_intros]:
  assumes "bits_wf w a" "bits_wf w b"
  shows "bits_wf w (bits_sdiv w a b)" "bits_wf w (bits_srem w a b)"
proof -
  note m = bits_magnitude(1)[OF assms(1)] bits_magnitude(1)[OF assms(2)]
  have nz: "\<not> isZero w b \<Longrightarrow> \<not> isZero w (bits_magnitude w b)"
    using isZero_eq[OF assms(2)] isZero_eq[OF m(2)] bits_magnitude(2)[OF assms(2)] bits_sval_zero_iff[OF assms(2)]
    by simp
  note parts = udivrem_parts(1,2)[OF m nz]
  show "bits_wf w (bits_sdiv w a b)"
    using parts(1) assms bits_wf_of_word[OF bits_wf_pos[OF assms(1)]]
    by (simp add: bits_sdiv_magnitude bits_wf_negate)
  show "bits_wf w (bits_srem w a b)"
    using parts(2) assms bits_wf_of_word[OF bits_wf_pos[OF assms(1)]]
    by (simp add: bits_srem_magnitude bits_wf_negate)
qed

lemma exp_half_mod: "0 < w \<Longrightarrow> (2 ^ (w - 1)) mod (2 ^ w) = (- (2 ^ (w - 1))) mod (2 ^ w :: int)"
  unfolding mod_eq_dvd_iff by (cases w) simp_all

lemma bval_sdiv:
  assumes a: "bits_wf w a" and b: "bits_wf w b" and nz: "bval b \<noteq> 0"
  shows "int (bval (bits_sdiv w a b)) = (bits_sval w a sdiv bits_sval w b) mod 2 ^ w"
proof -
  note pos = bits_wf_pos[OF a]
  have z: "\<not> isZero w b" using nz by (simp add: isZero_eq[OF b])
  note m = bits_magnitude[OF a] bits_magnitude[OF b]
  have zm: "\<not> isZero w (bits_magnitude w b)"
    using nz m(4) bits_sval_zero_iff[OF b] by (simp add: isZero_eq[OF m(3)])
  define q where "q = fst (udivrem w (bits_magnitude w a) (bits_magnitude w b))"
  have q: "bits_wf w q" "int (bval q) = \<bar>bits_sval w a\<bar> div \<bar>bits_sval w b\<bar>"
    using udivrem_parts(1,3)[OF m(1,3) zm] m(2,4) by (simp_all add: q_def zdiv_int)
  consider "isMinSigned w a \<and> isAllOnes w b" | "\<not> (isMinSigned w a \<and> isAllOnes w b)" "w \<le> 64"
    | "\<not> (isMinSigned w a \<and> isAllOnes w b)" "64 < w" by linarith
  then show ?thesis
  proof cases
    case 1
    then have "bits_sval w a sdiv bits_sval w b = - bits_sval w a"
      by (simp add: isMinSigned_eq[OF a] isAllOnes_eq[OF b] signed_divide_int_def)
    moreover have "(2 ^ (w - 1)) mod (2 ^ w) = (- (2 ^ (w - 1))) mod (2 ^ w :: int)"
      by (rule exp_half_mod[OF pos])
    ultimately show ?thesis using 1 z int_bval_sval[OF a]
      by (simp add: bits_sdiv_def isMinSigned_eq[OF a])
  next
    case 2
    then show ?thesis using z pos
      by (auto simp: bits_sdiv_def asSigned_eq[OF a] asSigned_eq[OF b] bval_of_word_int)
  next
    case 3
    have "bits_sdiv w a b = (if (bits_sval w a < 0) \<noteq> (bits_sval w b < 0) then bits_negate w q else q)"
      using 3 z by (auto simp: bits_sdiv_magnitude q_def simp flip: bits_sval_neg_iff[OF a] bits_sval_neg_iff[OF b])
    moreover have "int (bval q) mod 2 ^ w = int (bval q)"
      using bits_wf_less[OF q(1)] by (metis mod_less of_nat_mod of_nat_numeral of_nat_power)
    moreover have "bits_sval w b \<noteq> 0" using nz bits_sval_zero_iff[OF b] by simp
    ultimately show ?thesis using q bval_negate[OF q(1)]
      by (auto simp: signed_divide_int_def sgn_if)
  qed
qed

lemma smod_int_abs:
  fixes x y :: int
  assumes "y \<noteq> 0"
  shows "x smod y = (if x < 0 then - (\<bar>x\<bar> mod \<bar>y\<bar>) else \<bar>x\<bar> mod \<bar>y\<bar>)"
proof -
  have "\<bar>x\<bar> mod \<bar>y\<bar> = \<bar>x\<bar> - \<bar>x\<bar> div \<bar>y\<bar> * \<bar>y\<bar>" by (simp add: minus_div_mult_eq_mod)
  then show ?thesis using assms
    by (cases "x < 0"; cases "y < 0"; cases "x = 0") (simp_all add: signed_modulo_int_def signed_divide_int_def sgn_if)
qed

lemma bval_srem:
  assumes a: "bits_wf w a" and b: "bits_wf w b" and nz: "bval b \<noteq> 0"
  shows "int (bval (bits_srem w a b)) = (bits_sval w a smod bits_sval w b) mod 2 ^ w"
proof -
  note pos = bits_wf_pos[OF a]
  have z: "\<not> isZero w b" using nz by (simp add: isZero_eq[OF b])
  note m = bits_magnitude[OF a] bits_magnitude[OF b]
  have zm: "\<not> isZero w (bits_magnitude w b)"
    using nz m(4) bits_sval_zero_iff[OF b] by (simp add: isZero_eq[OF m(3)])
  define q where "q = snd (udivrem w (bits_magnitude w a) (bits_magnitude w b))"
  have q: "bits_wf w q" "int (bval q) = \<bar>bits_sval w a\<bar> mod \<bar>bits_sval w b\<bar>"
    using udivrem_parts(2,4)[OF m(1,3) zm] m(2,4) by (simp_all add: q_def zmod_int)
  consider "isMinSigned w a \<and> isAllOnes w b" | "\<not> (isMinSigned w a \<and> isAllOnes w b)" "w \<le> 64"
    | "\<not> (isMinSigned w a \<and> isAllOnes w b)" "64 < w" by linarith
  then show ?thesis
  proof cases
    case 1
    then show ?thesis using z pos
      by (simp add: bits_srem_def isMinSigned_eq[OF a] isAllOnes_eq[OF b] signed_modulo_int_def
          signed_divide_int_def bval_of_word)
  next
    case 2
    then show ?thesis using z pos
      by (auto simp: bits_srem_def asSigned_eq[OF a] asSigned_eq[OF b] bval_of_word_int)
  next
    case 3
    have "bits_srem w a b = (if bits_sval w a < 0 then bits_negate w q else q)"
      using 3 z by (auto simp: bits_srem_magnitude q_def simp flip: bits_sval_neg_iff[OF a])
    moreover have "int (bval q) mod 2 ^ w = int (bval q)"
      using bits_wf_less[OF q(1)] by (metis mod_less of_nat_mod of_nat_numeral of_nat_power)
    moreover have "bits_sval w b \<noteq> 0" using nz bits_sval_zero_iff[OF b] by simp
    ultimately show ?thesis using q bval_negate[OF q(1)] smod_int_abs[of "bits_sval w b" "bits_sval w a"]
      by (cases "bits_sval w a < 0") simp_all
  qed
qed

lemma abs_sdiv_le: "\<bar>(x::int) sdiv y\<bar> \<le> \<bar>x\<bar>"
proof -
  have "\<bar>x\<bar> div \<bar>y\<bar> \<le> \<bar>x\<bar>"
    using zdiv_mono2[of "\<bar>x\<bar>" 1 "\<bar>y\<bar>"] by (cases "y = 0") simp_all
  moreover have "0 \<le> \<bar>x\<bar> div \<bar>y\<bar>" by (cases "y = 0") (simp_all add: pos_imp_zdiv_nonneg_iff)
  ultimately show ?thesis by (simp add: signed_divide_int_def abs_mult abs_sgn_eq)
qed

lemma sdiv_eq_exp:
  fixes x y m :: int
  assumes "0 < m" "- m \<le> x" "x < m" "y \<noteq> 0" "m \<le> x sdiv y"
  shows "x = - m" "y = - 1"
proof -
  have "x sdiv y \<le> \<bar>x\<bar>" using abs_sdiv_le[of x y] by linarith
  then show x: "x = - m" using assms by linarith
  have q: "sgn x * sgn y * (\<bar>x\<bar> div \<bar>y\<bar>) \<ge> m" using assms(5) by (simp add: signed_divide_int_def sgn_mult)
  have neg: "y < 0"
  proof (rule ccontr)
    assume "\<not> y < 0"
    then have "0 < y" using assms(4) by simp
    moreover then have "0 \<le> m div y" using assms(1) by (simp add: pos_imp_zdiv_nonneg_iff)
    ultimately show False using q x assms(1) by simp
  qed
  then have "m \<le> m div \<bar>y\<bar>" using q x assms(1) by simp
  moreover have "m div \<bar>y\<bar> < m" if "1 < \<bar>y\<bar>" using that assms(1) by (simp add: int_div_less_self)
  ultimately show "y = - 1" using neg by (cases "1 < \<bar>y\<bar>") auto
qed

lemma bits_sval_sdiv:
  assumes a: "bits_wf w a" and b: "bits_wf w b" and nz: "bval b \<noteq> 0"
    and no: "\<not> (bits_sval w a = - (2 ^ (w - 1)) \<and> bits_sval w b = - 1)"
  shows "bits_sval w (bits_sdiv w a b) = bits_sval w a sdiv bits_sval w b"
proof (rule sval_unique[OF bits_wf_sdiv_srem(1)[OF a b] _ _ bval_sdiv[OF a b nz]])
  have y: "bits_sval w b \<noteq> 0" using nz bits_sval_zero_iff[OF b] by simp
  note r = bits_sval_range[OF a] and le = abs_sdiv_le[of "bits_sval w a" "bits_sval w b"]
  show "bits_sval w a sdiv bits_sval w b < 2 ^ (w - 1)"
    using sdiv_eq_exp[OF _ r y] no by (metis not_le zero_less_numeral zero_less_power)
  show "- (2 ^ (w - 1)) \<le> bits_sval w a sdiv bits_sval w b" using r le by linarith
qed

lemma abs_smod_less: "(y::int) \<noteq> 0 \<Longrightarrow> \<bar>x smod y\<bar> < \<bar>y\<bar>"
  using smod_int_abs[of y x] pos_mod_bound[of "\<bar>y\<bar>" "\<bar>x\<bar>"] pos_mod_sign[of "\<bar>y\<bar>" "\<bar>x\<bar>"] by simp

lemma bits_sval_srem:
  assumes a: "bits_wf w a" and b: "bits_wf w b" and nz: "bval b \<noteq> 0"
  shows "bits_sval w (bits_srem w a b) = bits_sval w a smod bits_sval w b"
proof (rule sval_unique[OF bits_wf_sdiv_srem(2)[OF a b] _ _ bval_srem[OF a b nz]])
  have y: "bits_sval w b \<noteq> 0" using nz bits_sval_zero_iff[OF b] by simp
  note r = bits_sval_range[OF b] and le = abs_smod_less[OF y, of "bits_sval w a"]
  show "bits_sval w a smod bits_sval w b < 2 ^ (w - 1)" using r le by linarith
  show "- (2 ^ (w - 1)) \<le> bits_sval w a smod bits_sval w b" using r le by linarith
qed

lemma bits_sval_of_zero: "0 < w \<Longrightarrow> bits_sval w (bits_of_word w 0) = 0"
  by (simp add: bits_sval_def bval_of_word)

lemma bits_sdiv_overflow:
  assumes a: "bits_wf w a" and b: "bits_wf w b"
    and o: "bits_sval w a = - (2 ^ (w - 1))" "bits_sval w b = - 1"
  shows "bits_sdiv w a b = a"
proof -
  have "bval b \<noteq> 0" using bits_sval_zero_iff[OF b] o(2) by simp
  then show ?thesis using o by (simp add: bits_sdiv_def isZero_eq[OF b] isMinSigned_eq[OF a] isAllOnes_eq[OF b])
qed

lemma bits_div_zero:
  assumes "bits_wf w b" "bval b = 0"
  shows "bits_sdiv w a b = bits_of_word w 0" "bits_srem w a b = bits_of_word w 0"
  using assms by (simp_all add: bits_sdiv_def bits_srem_def isZero_eq)

lemma int_bval_sub:
  assumes a: "bits_wf w a" and b: "bits_wf w b"
  shows "int (bval (bits_sub w a b)) = (int (bval a) - int (bval b)) mod 2 ^ w"
proof -
  have "int (bval a + (2 ^ w - bval b)) = int (bval a) - int (bval b) + 2 ^ w"
    using bits_wf_less[OF b] by (simp add: of_nat_diff)
  then show ?thesis by (simp only: bval_sub[OF a b] zmod_int of_nat_power of_nat_numeral mod_add_self2)
qed

subsection \<open>Properties\<close>

lemmas bits_eval = bits_wf_def kWords_def topMask_def maskTop_def setWord_def bits_word_def bits_bit_def
  bits_default_def bits_of_word_def upt_rec Let_def

text \<open>C8.  Addition, subtraction and multiplication of \<open>Bits<w>\<close> are arithmetic modulo
  \<open>2 ^ w\<close> for every width, the carry, borrow and 32-bit-limb product chains across the 64-bit words
  included, and keep the bits above the width zero.\<close>

theorem arithmetic_modular:
  assumes a: "bits_wf w a" and b: "bits_wf w b"
  shows "bits_wf w (bits_add w a b) \<and> bval (bits_add w a b) = (bval a + bval b) mod 2 ^ w \<and>
    bits_wf w (bits_sub w a b) \<and> int (bval (bits_sub w a b)) = (int (bval a) - int (bval b)) mod 2 ^ w \<and>
    bits_wf w (bits_mul w a b) \<and> bval (bits_mul w a b) = bval a * bval b mod 2 ^ w"
  using bits_wf_add[OF a b] bval_add[OF a b] bits_wf_sub[OF a b] int_bval_sub[OF a b] bits_wf_mul[OF a] bval_mul[OF a b]
  by blast

theorem arithmetic_modular_witness:
  "bits_wf 65 [5, 1] \<and> bits_wf 65 [7, 1] \<and>
   bval (bits_mul 65 [5, 1] [7, 1]) = (5 + 2 ^ 64) * (7 + 2 ^ 64) mod 2 ^ 65"
proof -
  have wf: "bits_wf 65 [5, 1]" "bits_wf 65 [7, 1]" by code_simp+
  show ?thesis using wf arithmetic_modular[OF wf] by (simp add: bval.simps)
qed

text \<open>C17.  Unsigned division and remainder return the exact quotient and remainder at every width,
  through the one-word path and through the bit-serial \<open>udivrem\<close> loop alike, and zero on a zero divisor.\<close>

theorem unsigned_division:
  assumes a: "bits_wf w a" and b: "bits_wf w b"
  shows "bits_wf w (bits_udiv w a b) \<and> bits_wf w (bits_urem w a b) \<and>
    bval (bits_udiv w a b) = (if bval b = 0 then 0 else bval a div bval b) \<and>
    bval (bits_urem w a b) = (if bval b = 0 then 0 else bval a mod bval b)"
  using bits_wf_udiv_urem[OF a b] bval_udiv[OF a b] by simp

theorem unsigned_division_witness:
  "bits_wf 66 [0, 2] \<and> bits_wf 66 [3, 0] \<and> bval (bits_udiv 66 [0, 2] [3, 0]) = 2 ^ 65 div 3"
proof -
  have wf: "bits_wf 66 [0, 2]" "bits_wf 66 [3, 0]" by code_simp+
  show ?thesis using wf unsigned_division[OF wf] by (simp add: bval.simps)
qed

text \<open>C18.  Signed division and remainder truncate towards zero at every width.  A zero divisor gives
  zero, and the one quotient that does not fit, the minimum divided by minus one, gives the minimum back.\<close>

theorem signed_division:
  assumes a: "bits_wf w a" and b: "bits_wf w b"
  shows "bits_wf w (bits_sdiv w a b) \<and> bits_wf w (bits_srem w a b) \<and>
    bits_sval w (bits_sdiv w a b) =
      (if bits_sval w b = 0 then 0
       else if bits_sval w a = - (2 ^ (w - 1)) \<and> bits_sval w b = - 1 then bits_sval w a
       else bits_sval w a sdiv bits_sval w b) \<and>
    bits_sval w (bits_srem w a b) = (if bits_sval w b = 0 then 0 else bits_sval w a smod bits_sval w b)"
  using bits_wf_sdiv_srem[OF a b] bits_sval_sdiv[OF a b] bits_sval_srem[OF a b] bits_sdiv_overflow[OF a b]
    bits_div_zero[OF b, of a] bits_sval_zero_iff[OF b] bits_sval_of_zero[OF bits_wf_pos[OF a]]
  by simp

theorem signed_division_witness:
  "bits_wf 8 [0xF9] \<and> bits_wf 8 [2] \<and> bits_sval 8 (bits_sdiv 8 [0xF9] [2]) = - 3 \<and>
   bits_sval 8 (bits_srem 8 [0xF9] [2]) = - 1"
proof -
  have wf: "bits_wf 8 [0xF9]" "bits_wf 8 [2]" by code_simp+
  have v: "bits_sval 8 [0xF9] = - 7" "bits_sval 8 [2] = 2"
    by (simp_all add: bits_sval_def bval.simps bit_iff_odd)
  show ?thesis using wf signed_division[OF wf]
    unfolding v by (simp add: signed_divide_int_def signed_modulo_int_def)
qed

text \<open>C29.  The multi-word shifts are multiplication modulo \<open>2 ^ w\<close>, floor division of the unsigned
  value and floor division of the signed value by \<open>2 ^ n\<close>, for every amount including those at or above the width.\<close>

theorem shifts_value:
  assumes v: "bits_wf w v"
  shows "bval (bits_shl w v n) = bval v * 2 ^ n mod 2 ^ w \<and> bval (bits_lshr w v n) = bval v div 2 ^ n \<and>
    bits_sval w (bits_ashr w v n) = bits_sval w v div 2 ^ n \<and>
    bits_wf w (bits_shl w v n) \<and> bits_wf w (bits_lshr w v n) \<and> bits_wf w (bits_ashr w v n)"
  using bval_shl[OF v] bval_lshr[OF v] bits_sval_ashr[OF v] bits_wf_shl[OF v] bits_wf_lshr[OF v] bits_wf_ashr[OF v]
  by blast

theorem shifts_value_witness:
  "bits_wf 65 [5, 1] \<and> bval (bits_shl 65 [5, 1] 63) = (5 + 2 ^ 64) * 2 ^ 63 mod 2 ^ 65"
proof -
  have wf: "bits_wf 65 [5, 1]" by code_simp
  show ?thesis using wf shifts_value[OF wf, of 63] by (simp add: bval.simps)
qed

text \<open>C35.  The word-wise comparisons agree with the order of the unsigned values, equality of the
  representation is equality of the value, and \<open>slt\<close> agrees with the order of the signed values.\<close>

theorem comparisons_order:
  assumes a: "bits_wf w a" and b: "bits_wf w b"
  shows "bits_lt w a b = (bval a < bval b) \<and> bits_gt w a b = (bval a > bval b) \<and>
    bits_le w a b = (bval a \<le> bval b) \<and> bits_ge w a b = (bval a \<ge> bval b) \<and>
    bits_eq w a b = (a = b) \<and> bits_slt w a b = (bits_sval w a < bits_sval w b)"
  using bits_lt_eq[OF a b] bits_order_eq[OF a b] bits_slt_eq[OF a b] bits_eq_iff[OF a b] by simp

theorem comparisons_order_witness:
  "bits_wf 65 [5, 1] \<and> bits_wf 65 [7, 0] \<and> bits_slt 65 [5, 1] [7, 0] \<and> bits_gt 65 [5, 1] [7, 0]"
proof -
  have wf: "bits_wf 65 [5, 1]" "bits_wf 65 [7, 0]" by code_simp+
  show ?thesis using wf comparisons_order[OF wf] by (simp add: bval.simps bits_sval_def bit_iff_odd)
qed

text \<open>C30.  The vectorised bitwise operations, equality test and multiplexer return what the scalar
  loops return, for an odd number of words as well as for an even one.\<close>

theorem simd_equals_scalar:
  assumes a: "bits_wf w a" and b: "bits_wf w b"
  shows "neon_and w a b = bits_and w a b \<and> neon_or w a b = bits_or w a b \<and> neon_xor w a b = bits_xor w a b \<and>
    neon_not w a = bits_not w a \<and> neon_eq w a b = bits_eq w a b \<and> neon_mux w s a b = bits_mux s a b"
  using neon_ops_eq[OF a b] by simp

theorem simd_equals_scalar_witness:
  "bits_wf 130 [1, 2, 3] \<and> bits_wf 130 [7, 0, 2] \<and> neon_xor 130 [1, 2, 3] [7, 0, 2] = bits_xor 130 [1, 2, 3] [7, 0, 2]"
proof -
  have wf: "bits_wf 130 [1, 2, 3]" "bits_wf 130 [7, 0, 2]" by code_simp+
  show ?thesis using wf simd_equals_scalar[OF wf] by simp
qed

text \<open>C31.  Concatenation places its first operand above its second, and extracting either field from
  the result gives the operand back.\<close>

theorem concat_extract:
  assumes a: "bits_wf wa a" and b: "bits_wf wb b"
  shows "bval (bits_concat2 wa wb a b) = bval a * 2 ^ wb + bval b \<and>
    bits_extract wb (wa + wb) (bits_concat2 wa wb a b) 0 = b \<and>
    bits_extract wa (wa + wb) (bits_concat2 wa wb a b) wb = a"
proof -
  note pos = bits_wf_pos[OF a] bits_wf_pos[OF b]
  note c = bits_wf_concat2[OF pos(1), of wb a b] and v = bval_concat2[OF a b]
  have "bits_extract wb (wa + wb) (bits_concat2 wa wb a b) 0 = b"
    by (rule bits_eqI[OF bits_wf_extract[OF pos(2)] b])
      (use bits_wf_less[OF b] in \<open>simp add: bval_extract[OF c pos(2)] v\<close>)
  moreover have "bits_extract wa (wa + wb) (bits_concat2 wa wb a b) wb = a"
    by (rule bits_eqI[OF bits_wf_extract[OF pos(1)] a])
      (use bits_wf_less[OF a] bits_wf_less[OF b] in \<open>simp add: bval_extract[OF c pos(1)] v\<close>)
  ultimately show ?thesis using v by simp
qed

theorem concat_extract_witness:
  "bits_wf 60 [9] \<and> bits_wf 8 [0xFF] \<and> bits_extract 60 68 (bits_concat2 60 8 [9] [0xFF]) 8 = [9]"
proof -
  have wf: "bits_wf 60 [9]" "bits_wf 8 [0xFF]" by code_simp+
  show ?thesis using wf concat_extract[OF wf] by simp
qed

text \<open>Sign extension keeps the signed value whenever the input width is not a multiple of 64.\<close>

theorem sext_value:
  assumes "bits_wf inw v" "inw \<le> outw" "inw mod 64 \<noteq> 0"
  shows "bits_wf outw (bits_sext outw inw v) \<and> bits_sval outw (bits_sext outw inw v) = bits_sval inw v"
  using bits_sval_sext[OF assms] bits_wf_sext[OF bits_wf_pos[OF assms(1)] assms(2)] by simp

theorem sext_value_witness:
  "bits_wf 8 [0xF9] \<and> bits_sval 70 (bits_sext 70 8 [0xF9]) = - 7"
proof -
  have wf: "bits_wf 8 [0xF9]" by code_simp
  show ?thesis using wf sext_value[OF wf, of 70] by (simp add: bits_sval_def bval.simps bit_iff_odd)
qed

lemma sign_word:
  assumes "0 < w" "w mod 64 = 0"
  shows "i div 64 = (w - 1) div 64 \<longleftrightarrow> w - 64 \<le> i \<and> i < (w :: nat)"
proof -
  obtain k where k: "w = 64 * k" using assms(2) by auto
  then have "(w - 1) div 64 = k - 1" "0 < k" using assms(1) by auto
  then show ?thesis using k by auto
qed

lemma bit_sext_aligned:
  assumes v: "bits_wf w v" and al: "w mod 64 = 0" and le: "w \<le> outw" and neg: "bit (bval v) (w - 1)"
  shows "bit (bval (bits_sext outw w v)) i \<longleftrightarrow> i < outw \<and> (w - 64 \<le> i \<or> bit (bval v) i)"
  using bit_sext[OF v le, of i] sign_word[OF bits_wf_pos[OF v] al, of i] neg al by auto

text \<open>C39.  When the input width is a multiple of 64 and the value is negative, the fill mask of \<open>sext\<close> covers
  the whole word that holds the sign bit: every bit of that word, and every bit above it, becomes one.  The result is
  therefore the sign extension of the value only if that word was all ones before.\<close>

theorem sext_word_aligned:
  assumes "bits_wf w v" "w mod 64 = 0" "w \<le> outw" "bits_sval w v < 0"
  shows "(\<forall>i < outw. bit (bval (bits_sext outw w v)) i = (w - 64 \<le> i \<or> bit (bval v) i)) \<and>
    (bits_sval outw (bits_sext outw w v) = bits_sval w v \<longleftrightarrow> (\<forall>i. w - 64 \<le> i \<and> i < w \<longrightarrow> bit (bval v) i))"
proof -
  note v = assms(1) and le = assms(3)
  note pos = bits_wf_pos[OF v]
  have neg: "bit (bval v) (w - 1)" using assms(4) by (auto simp: bits_sval_def split: if_splits)
  note b = bit_sext_aligned[OF v assms(2) le neg]
  have out: "bits_wf outw (bits_sext outw w v)" using bits_wf_sext[OF pos le] .
  have "bits_sval outw (bits_sext outw w v) = bits_sval w v \<longleftrightarrow>
      (\<forall>i. (w - 64 \<le> min i (outw - 1) \<or> bit (bval v) (min i (outw - 1))) = bit (bval v) (min i (w - 1)))"
  proof -
    have m: "min i (outw - 1) < outw" for i using pos le by simp
    show ?thesis unfolding bit_eq_iff bit_sval[OF out] bit_sval[OF v] b using m by simp
  qed
  also have "\<dots> \<longleftrightarrow> (\<forall>i. w - 64 \<le> i \<and> i < w \<longrightarrow> bit (bval v) i)"
  proof
    assume all: "\<forall>i. (w - 64 \<le> min i (outw - 1) \<or> bit (bval v) (min i (outw - 1))) = bit (bval v) (min i (w - 1))"
    show "\<forall>i. w - 64 \<le> i \<and> i < w \<longrightarrow> bit (bval v) i"
    proof (intro allI impI)
      fix i assume i: "w - 64 \<le> i \<and> i < w"
      then have "min i (outw - 1) = i" "min i (w - 1) = i" using le by auto
      then show "bit (bval v) i" using all[rule_format, of i] i by simp
    qed
  next
    assume ones: "\<forall>i. w - 64 \<le> i \<and> i < w \<longrightarrow> bit (bval v) i"
    show "\<forall>i. (w - 64 \<le> min i (outw - 1) \<or> bit (bval v) (min i (outw - 1))) = bit (bval v) (min i (w - 1))"
    proof
      fix i show "(w - 64 \<le> min i (outw - 1) \<or> bit (bval v) (min i (outw - 1))) = bit (bval v) (min i (w - 1))"
      proof (cases "i < w")
        case True
        then have "min i (outw - 1) = i" "min i (w - 1) = i" using le by auto
        then show ?thesis using ones True by auto
      next
        case False
        then have "w - 64 \<le> min i (outw - 1)" "min i (w - 1) = w - 1" using le pos by auto
        then show ?thesis using neg by simp
      qed
    qed
  qed
  finally show ?thesis using b by blast
qed

theorem sext_word_aligned_witness:
  "bits_sval 64 [0x8000000000000000] = - (2 ^ 63) \<and> bits_sval 128 (bits_sext 128 64 [0x8000000000000000]) \<noteq> bits_sval 64 [0x8000000000000000]"
proof -
  have wf: "bits_wf 64 [0x8000000000000000]" by code_simp
  have neg: "bits_sval 64 [0x8000000000000000] = - (2 ^ 63)" and zero: "\<not> bit (bval [0x8000000000000000]) 0"
    by (simp_all add: bits_sval_def bval.simps bit_iff_odd)
  show ?thesis using sext_word_aligned[OF wf, of 128] neg zero by (simp; metis zero_le zero_less_numeral)
qed

end
