(* ===== verification/Gfsim_FourState.thy ===== *)
theory Gfsim_FourState
  imports Gfsim_Arith
begin

text \<open>
  The four-state values \<^verbatim>\<open>FourState<Width>\<close> of \<^verbatim>\<open>include/gfsim/four_state.h\<close>: three
  masks, the value, the known bits and the high-impedance bits.  The private constructor throws
  when a bit is both known and high-impedance; \<open>fs_ctor\<close> returns that exception, and so does
  every operator that reaches it (in a \<^verbatim>\<open>noexcept\<close> function the exception ends the process).
  The factories \<open>fs_known\<close>, \<open>fs_unknown\<close> and \<open>fs_highImpedance\<close> read the constructed value off with
  \<open>projr\<close>; \<open>fs_ctor_factories\<close> shows that their constructor call never throws.

  \<open>fs_at\<close> reads one bit as a Verilog logic value and \<open>completes\<close> says that a binary value is one of
  the values a four-state value may stand for.  The lemmas give the logic value of each result bit
  and show that a known result bit is right for every completion of the operands.
\<close>

record four_state =
  fs_value :: bits
  fs_knownMask :: bits
  fs_zMask :: bits

subsection \<open>Operations\<close>

definition fs_invariantHolds :: "nat \<Rightarrow> four_state \<Rightarrow> bool" where
  "fs_invariantHolds w f = bits_eq w (bits_and w (fs_knownMask f) (fs_zMask f)) (bits_of_word w 0)"

definition fs_ctor :: "nat \<Rightarrow> bits \<Rightarrow> bits \<Rightarrow> bits \<Rightarrow> exn + four_state" where
  "fs_ctor w v k z =
     (let f = \<lparr>fs_value = v, fs_knownMask = k, fs_zMask = z\<rparr>
      in if \<not> fs_invariantHolds w f then Inl (InvalidArgument ''four-state masks require (known & z) == 0'')
         else Inr f)"

definition fs_fromMasks :: "nat \<Rightarrow> bits \<Rightarrow> bits \<Rightarrow> bits \<Rightarrow> exn + four_state" where
  "fs_fromMasks w v k z = fs_ctor w v k z"

definition fs_known :: "nat \<Rightarrow> bits \<Rightarrow> four_state" where
  "fs_known w v = projr (fs_ctor w v (bits_ones w) (bits_of_word w 0))"

definition fs_unknown_of :: "nat \<Rightarrow> bits \<Rightarrow> four_state" where
  "fs_unknown_of w v = projr (fs_ctor w v (bits_of_word w 0) (bits_of_word w 0))"

definition fs_unknown :: "nat \<Rightarrow> four_state" where
  "fs_unknown w = fs_unknown_of w (bits_of_word w 0)"

definition fs_highImpedance :: "nat \<Rightarrow> bits \<Rightarrow> four_state" where
  "fs_highImpedance w v = projr (fs_ctor w v (bits_of_word w 0) (bits_ones w))"

definition fs_isFullyKnown :: "nat \<Rightarrow> four_state \<Rightarrow> bool" where
  "fs_isFullyKnown w f \<longleftrightarrow>
     bits_eq w (fs_knownMask f) (bits_ones w) \<and> bits_eq w (fs_zMask f) (bits_of_word w 0)"

definition fs_parityEquivalent :: "nat \<Rightarrow> four_state \<Rightarrow> four_state \<Rightarrow> bool" where
  "fs_parityEquivalent w f g =
     (if \<not> fs_invariantHolds w f \<or> \<not> fs_invariantHolds w g \<or>
         \<not> bits_eq w (fs_knownMask f) (fs_knownMask g) \<or> \<not> bits_eq w (fs_zMask f) (fs_zMask g)
      then False
      else bits_eq w (bits_and w (bits_xor w (fs_value f) (fs_value g)) (fs_knownMask f)) (bits_of_word w 0))"

text \<open>The body of the \<^verbatim>\<open>update\<close> closure of \<^verbatim>\<open>assignSlice\<close>.\<close>

definition slice_update :: "nat \<Rightarrow> nat \<Rightarrow> nat \<Rightarrow> nat \<Rightarrow> nat \<Rightarrow> bits \<Rightarrow> bits \<Rightarrow> bits" where
  "slice_update w n low position count target input =
     (let destinationBit = low + position;
          destinationWord = destinationBit div 64;
          destinationOffset = destinationBit mod 64;
          bts = (if count = 64 then NOT 0 else push_bit count 1 - 1);
          msk = push_bit destinationOffset bts;
          sourceOffset = position mod 64;
          word = drop_bit sourceOffset (bits_word n input (position div 64));
          word' = (if sourceOffset \<noteq> 0 \<and> sourceOffset + count > 64
                   then word OR push_bit (64 - sourceOffset) (bits_word n input (position div 64 + 1))
                   else word)
      in setWord w target destinationWord
           ((bits_word w target destinationWord AND NOT msk) OR push_bit destinationOffset (word' AND bts)))"

definition slice_count :: "nat \<Rightarrow> nat \<Rightarrow> nat \<Rightarrow> nat" where
  "slice_count n low position =
     (let destinationOffset = (low + position) mod 64; count = n - position
      in if count > 64 - destinationOffset then 64 - destinationOffset else count)"

lemma slice_count_pos: "position < n \<Longrightarrow> 0 < slice_count n low position"
  by (simp add: slice_count_def Let_def)

function slice_loop :: "nat \<Rightarrow> nat \<Rightarrow> nat \<Rightarrow> nat \<Rightarrow> four_state \<Rightarrow> four_state \<Rightarrow> four_state" where
  "slice_loop w n low position f source =
     (if position < n
      then let count = slice_count n low position;
               f' = \<lparr>fs_value = slice_update w n low position count (fs_value f) (fs_value source),
                     fs_knownMask = slice_update w n low position count (fs_knownMask f) (fs_knownMask source),
                     fs_zMask = slice_update w n low position count (fs_zMask f) (fs_zMask source)\<rparr>
           in slice_loop w n low (position + count) f' source
      else f)"
  by pat_completeness auto
termination
  by (relation "measure (\<lambda>(w, n, low, position, f, source). n - position)")
    (auto intro!: diff_less_mono2 simp: slice_count_pos)

declare slice_loop.simps [simp del]

definition fs_assignSlice :: "nat \<Rightarrow> nat \<Rightarrow> four_state \<Rightarrow> nat \<Rightarrow> four_state \<Rightarrow> four_state" where
  "fs_assignSlice w n f low source = (if low > w - n then f else slice_loop w n low 0 f source)"

definition fs_bit_not :: "nat \<Rightarrow> four_state \<Rightarrow> exn + four_state" where
  "fs_bit_not w f = fs_fromMasks w (bits_not w (fs_value f)) (fs_knownMask f) (bits_of_word w 0)"

definition fs_bit_and :: "nat \<Rightarrow> four_state \<Rightarrow> four_state \<Rightarrow> exn + four_state" where
  "fs_bit_and w lhs rhs =
     (let zero = bits_or w (bits_and w (fs_knownMask lhs) (bits_not w (fs_value lhs)))
                           (bits_and w (fs_knownMask rhs) (bits_not w (fs_value rhs)));
          one = bits_and w (bits_and w (bits_and w (fs_knownMask lhs) (fs_value lhs)) (fs_knownMask rhs)) (fs_value rhs)
      in fs_fromMasks w (bits_and w (fs_value lhs) (fs_value rhs)) (bits_or w zero one) (bits_of_word w 0))"

definition fs_bit_or :: "nat \<Rightarrow> four_state \<Rightarrow> four_state \<Rightarrow> exn + four_state" where
  "fs_bit_or w lhs rhs =
     (let one = bits_or w (bits_and w (fs_knownMask lhs) (fs_value lhs))
                          (bits_and w (fs_knownMask rhs) (fs_value rhs));
          zero = bits_and w (bits_and w (bits_and w (fs_knownMask lhs) (bits_not w (fs_value lhs)))
                                        (fs_knownMask rhs)) (bits_not w (fs_value rhs))
      in fs_fromMasks w (bits_or w (fs_value lhs) (fs_value rhs)) (bits_or w zero one) (bits_of_word w 0))"

definition fs_bit_xor :: "nat \<Rightarrow> four_state \<Rightarrow> four_state \<Rightarrow> exn + four_state" where
  "fs_bit_xor w lhs rhs =
     fs_fromMasks w (bits_xor w (fs_value lhs) (fs_value rhs))
       (bits_and w (fs_knownMask lhs) (fs_knownMask rhs)) (bits_of_word w 0)"

definition fs_add :: "nat \<Rightarrow> four_state \<Rightarrow> four_state \<Rightarrow> four_state" where
  "fs_add w lhs rhs =
     (if \<not> fs_isFullyKnown w lhs \<or> \<not> fs_isFullyKnown w rhs then fs_unknown w
      else fs_known w (bits_add w (fs_value lhs) (fs_value rhs)))"

definition fs_sub :: "nat \<Rightarrow> four_state \<Rightarrow> four_state \<Rightarrow> four_state" where
  "fs_sub w lhs rhs =
     (if \<not> fs_isFullyKnown w lhs \<or> \<not> fs_isFullyKnown w rhs then fs_unknown w
      else fs_known w (bits_sub w (fs_value lhs) (fs_value rhs)))"

definition fs_mul :: "nat \<Rightarrow> four_state \<Rightarrow> four_state \<Rightarrow> four_state" where
  "fs_mul w lhs rhs =
     (if \<not> fs_isFullyKnown w lhs \<or> \<not> fs_isFullyKnown w rhs then fs_unknown w
      else fs_known w (bits_mul w (fs_value lhs) (fs_value rhs)))"

definition fs_udiv :: "nat \<Rightarrow> four_state \<Rightarrow> four_state \<Rightarrow> four_state" where
  "fs_udiv w lhs rhs =
     (if \<not> fs_isFullyKnown w lhs \<or> \<not> fs_isFullyKnown w rhs \<or> bits_eq w (fs_value rhs) (bits_of_word w 0)
      then fs_unknown w
      else fs_known w (bits_udiv w (fs_value lhs) (fs_value rhs)))"

definition fs_urem :: "nat \<Rightarrow> four_state \<Rightarrow> four_state \<Rightarrow> four_state" where
  "fs_urem w lhs rhs =
     (if \<not> fs_isFullyKnown w lhs \<or> \<not> fs_isFullyKnown w rhs \<or> bits_eq w (fs_value rhs) (bits_of_word w 0)
      then fs_unknown w
      else fs_known w (bits_urem w (fs_value lhs) (fs_value rhs)))"

datatype ComparePredicate = EQ | NE | ULT | ULE | UGT | UGE | SLT | SLE | SGT | SGE | CASE_EQ

definition fs_bool :: "bool \<Rightarrow> four_state" where
  "fs_bool b = fs_known 1 (bits_of_word 1 (if b then 1 else 0))"

definition fs_compare :: "ComparePredicate \<Rightarrow> nat \<Rightarrow> four_state \<Rightarrow> four_state \<Rightarrow> four_state" where
  "fs_compare p w lhs rhs =
     (if p = CASE_EQ then fs_bool (fs_parityEquivalent w lhs rhs)
      else if p = EQ \<or> p = NE then
        (let difference = bits_and w (bits_and w (bits_xor w (fs_value lhs) (fs_value rhs)) (fs_knownMask lhs))
                                     (fs_knownMask rhs)
         in if \<not> bits_eq w difference (bits_of_word w 0) then fs_bool (p = NE)
            else if \<not> fs_isFullyKnown w lhs \<or> \<not> fs_isFullyKnown w rhs then fs_unknown 1
            else fs_bool (p = EQ))
      else if \<not> fs_isFullyKnown w lhs \<or> \<not> fs_isFullyKnown w rhs then fs_unknown 1
      else fs_bool (case p of
          ULT \<Rightarrow> bits_lt w (fs_value lhs) (fs_value rhs)
        | ULE \<Rightarrow> bits_le w (fs_value lhs) (fs_value rhs)
        | UGT \<Rightarrow> bits_gt w (fs_value lhs) (fs_value rhs)
        | UGE \<Rightarrow> bits_ge w (fs_value lhs) (fs_value rhs)
        | SLT \<Rightarrow> bits_slt w (fs_value lhs) (fs_value rhs)
        | SLE \<Rightarrow> \<not> bits_slt w (fs_value rhs) (fs_value lhs)
        | SGT \<Rightarrow> bits_slt w (fs_value rhs) (fs_value lhs)
        | SGE \<Rightarrow> \<not> bits_slt w (fs_value lhs) (fs_value rhs)
        | _ \<Rightarrow> False))"

definition fs_select :: "nat \<Rightarrow> four_state \<Rightarrow> four_state \<Rightarrow> four_state \<Rightarrow> exn + four_state" where
  "fs_select w condition whenTrue whenFalse =
     (if fs_isFullyKnown 1 condition
      then Inr (if toBool (fs_value condition) then whenTrue else whenFalse)
      else let commonKnown = bits_and w (bits_and w (fs_knownMask whenTrue) (fs_knownMask whenFalse))
                               (bits_not w (bits_xor w (fs_value whenTrue) (fs_value whenFalse)));
               commonZ = bits_and w (fs_zMask whenTrue) (fs_zMask whenFalse)
           in fs_fromMasks w (fs_value whenTrue) commonKnown commonZ)"

definition fs_zero_extend :: "nat \<Rightarrow> nat \<Rightarrow> four_state \<Rightarrow> exn + four_state" where
  "fs_zero_extend outw inw f =
     (let inputMask = bits_zext outw inw (bits_ones inw)
      in fs_fromMasks outw (bits_zext outw inw (fs_value f))
           (bits_or outw (bits_zext outw inw (fs_knownMask f)) (bits_not outw inputMask))
           (bits_zext outw inw (fs_zMask f)))"

definition fs_truncate :: "nat \<Rightarrow> nat \<Rightarrow> four_state \<Rightarrow> exn + four_state" where
  "fs_truncate outw inw f =
     fs_fromMasks outw (bits_trunc outw inw (fs_value f)) (bits_trunc outw inw (fs_knownMask f))
       (bits_trunc outw inw (fs_zMask f))"

definition fs_sign_extend :: "nat \<Rightarrow> nat \<Rightarrow> four_state \<Rightarrow> exn + four_state" where
  "fs_sign_extend outw inw f =
     fs_fromMasks outw (bits_sext outw inw (fs_value f)) (bits_sext outw inw (fs_knownMask f))
       (bits_sext outw inw (fs_zMask f))"

definition fs_extract :: "nat \<Rightarrow> nat \<Rightarrow> four_state \<Rightarrow> nat \<Rightarrow> exn + four_state" where
  "fs_extract outw inw f low =
     (if outw > inw \<or> low > inw - outw then Inr (fs_unknown outw)
      else fs_fromMasks outw (bits_extract outw inw (fs_value f) low)
             (bits_extract outw inw (fs_knownMask f) low) (bits_extract outw inw (fs_zMask f) low))"

definition fs_concat :: "nat \<Rightarrow> nat \<Rightarrow> four_state \<Rightarrow> four_state \<Rightarrow> exn + four_state" where
  "fs_concat hw lw high low =
     fs_fromMasks (hw + lw) (bits_concat2 hw lw (fs_value high) (fs_value low))
       (bits_concat2 hw lw (fs_knownMask high) (fs_knownMask low))
       (bits_concat2 hw lw (fs_zMask high) (fs_zMask low))"

definition boundedShift :: "nat \<Rightarrow> nat \<Rightarrow> four_state \<Rightarrow> nat" where
  "boundedShift w aw amount =
     (if list_ex (\<lambda>i. bits_word aw (fs_value amount) i \<noteq> 0) [1..<kWords aw] then w
      else if unat (bits_value (fs_value amount)) \<ge> w then w
      else unat (bits_value (fs_value amount)))"

definition fs_shl :: "nat \<Rightarrow> nat \<Rightarrow> four_state \<Rightarrow> four_state \<Rightarrow> exn + four_state" where
  "fs_shl w aw f amount =
     (if \<not> fs_isFullyKnown aw amount then Inr (fs_unknown w)
      else let count = boundedShift w aw amount;
               fill = bits_not w (bits_shl w (bits_ones w) count)
           in fs_fromMasks w (bits_shl w (fs_value f) count)
                (bits_or w (bits_shl w (fs_knownMask f) count) fill) (bits_shl w (fs_zMask f) count))"

definition fs_lshr :: "nat \<Rightarrow> nat \<Rightarrow> four_state \<Rightarrow> four_state \<Rightarrow> exn + four_state" where
  "fs_lshr w aw f amount =
     (if \<not> fs_isFullyKnown aw amount then Inr (fs_unknown w)
      else let count = boundedShift w aw amount;
               fill = bits_not w (bits_lshr w (bits_ones w) count)
           in fs_fromMasks w (bits_lshr w (fs_value f) count)
                (bits_or w (bits_lshr w (fs_knownMask f) count) fill) (bits_lshr w (fs_zMask f) count))"

definition fs_ashr :: "nat \<Rightarrow> nat \<Rightarrow> four_state \<Rightarrow> four_state \<Rightarrow> exn + four_state" where
  "fs_ashr w aw f amount =
     (if \<not> fs_isFullyKnown aw amount then Inr (fs_unknown w)
      else let count = boundedShift w aw amount
           in fs_fromMasks w (bits_ashr w (fs_value f) count) (bits_ashr w (fs_knownMask f) count)
                (bits_ashr w (fs_zMask f) count))"

subsection \<open>Meaning\<close>

datatype logic4 = L0 | L1 | LX | LZ

definition fs_at :: "four_state \<Rightarrow> nat \<Rightarrow> logic4" where
  "fs_at f i =
     (if bit (bval (fs_knownMask f)) i then (if bit (bval (fs_value f)) i then L1 else L0)
      else if bit (bval (fs_zMask f)) i then LZ else LX)"

definition fs_wf :: "nat \<Rightarrow> four_state \<Rightarrow> bool" where
  "fs_wf w f \<longleftrightarrow> bits_wf w (fs_value f) \<and> bits_wf w (fs_knownMask f) \<and> bits_wf w (fs_zMask f) \<and>
     fs_invariantHolds w f"

definition completes :: "nat \<Rightarrow> four_state \<Rightarrow> bits \<Rightarrow> bool" where
  "completes w f v \<longleftrightarrow> bits_wf w v \<and>
     (\<forall>i<w. bit (bval (fs_knownMask f)) i \<longrightarrow> bit (bval v) i = bit (bval (fs_value f)) i)"

fun not4 :: "logic4 \<Rightarrow> logic4" where
  "not4 L0 = L1"
| "not4 L1 = L0"
| "not4 _ = LX"

fun and4 :: "logic4 \<Rightarrow> logic4 \<Rightarrow> logic4" where
  "and4 L0 _ = L0"
| "and4 _ L0 = L0"
| "and4 L1 L1 = L1"
| "and4 _ _ = LX"

fun or4 :: "logic4 \<Rightarrow> logic4 \<Rightarrow> logic4" where
  "or4 L1 _ = L1"
| "or4 _ L1 = L1"
| "or4 L0 L0 = L0"
| "or4 _ _ = LX"

fun xor4 :: "logic4 \<Rightarrow> logic4 \<Rightarrow> logic4" where
  "xor4 L0 L0 = L0"
| "xor4 L1 L1 = L0"
| "xor4 L0 L1 = L1"
| "xor4 L1 L0 = L1"
| "xor4 _ _ = LX"

text \<open>A select on an unknown condition keeps the common known bits and the common Z bits of its branches, and gives X
  elsewhere.  The conditional operator of Verilog differs on two Z bits, where it gives X.\<close>

fun merge4 :: "logic4 \<Rightarrow> logic4 \<Rightarrow> logic4" where
  "merge4 a b = (if a = b then a else LX)"

lemma bits_zero_iff: "bits_wf w a \<Longrightarrow> bits_eq w a (bits_of_word w 0) \<longleftrightarrow> (\<forall>i. \<not> bit (bval a) i)"
proof -
  assume wf: "bits_wf w a"
  note pos = bits_wf_pos[OF wf]
  have "bits_eq w a (bits_of_word w 0) \<longleftrightarrow> bval a = 0"
    by (simp add: bits_order_eq[OF wf bits_wf_of_word[OF pos]] bval_of_word[OF pos])
  also have "\<dots> \<longleftrightarrow> (\<forall>i. \<not> bit (bval a) i)" by (metis bit_0_eq bit_eqI bot_apply bot_bool_def)
  finally show ?thesis .
qed

lemma bit_zero [bits_bit_simps]: "0 < w \<Longrightarrow> \<not> bit (bval (bits_of_word w 0)) i"
  by (simp add: bval_of_word)

lemma fs_invariantHolds_iff:
  assumes "bits_wf w (fs_knownMask f)" "bits_wf w (fs_zMask f)"
  shows "fs_invariantHolds w f \<longleftrightarrow> (\<forall>i. \<not> (bit (bval (fs_knownMask f)) i \<and> bit (bval (fs_zMask f)) i))"
  using assms bits_zero_iff[OF bits_wf_bitwise(1), of w "fs_knownMask f" "fs_zMask f"]
  by (simp add: fs_invariantHolds_def bit_bitwise bits_wf_pos)

lemma fs_wfD:
  assumes "fs_wf w f"
  shows "bits_wf w (fs_value f)" "bits_wf w (fs_knownMask f)" "bits_wf w (fs_zMask f)" "0 < w"
    "\<not> (bit (bval (fs_knownMask f)) i \<and> bit (bval (fs_zMask f)) i)"
  using assms fs_invariantHolds_iff[of w f] bits_wf_pos[of w "fs_value f"] by (auto simp: fs_wf_def)

lemma fs_ctor_Inr:
  assumes "bits_wf w v" "bits_wf w k" "bits_wf w z" "\<And>i. \<not> (bit (bval k) i \<and> bit (bval z) i)"
  shows "fs_ctor w v k z = Inr \<lparr>fs_value = v, fs_knownMask = k, fs_zMask = z\<rparr>"
    and "fs_wf w \<lparr>fs_value = v, fs_knownMask = k, fs_zMask = z\<rparr>"
  using assms fs_invariantHolds_iff[of w "\<lparr>fs_value = v, fs_knownMask = k, fs_zMask = z\<rparr>"]
  by (auto simp: fs_ctor_def fs_wf_def Let_def)

lemma fs_ctor_Inl:
  assumes "bits_wf w k" "bits_wf w z" "bit (bval k) i" "bit (bval z) i"
  shows "fs_ctor w v k z = Inl (InvalidArgument ''four-state masks require (known & z) == 0'')"
  using assms fs_invariantHolds_iff[of w "\<lparr>fs_value = v, fs_knownMask = k, fs_zMask = z\<rparr>"]
  by (auto simp: fs_ctor_def Let_def)

lemma fs_ctor_factories:
  assumes "bits_wf w v"
  shows "fs_ctor w v (bits_ones w) (bits_of_word w 0) = Inr (fs_known w v)"
    and "fs_ctor w v (bits_of_word w 0) (bits_of_word w 0) = Inr (fs_unknown_of w v)"
    and "fs_ctor w v (bits_of_word w 0) (bits_ones w) = Inr (fs_highImpedance w v)"
  using assms bits_wf_pos[OF assms]
  by (simp_all add: fs_known_def fs_unknown_of_def fs_highImpedance_def fs_ctor_Inr(1) bits_wf_ones bits_wf_of_word
      bit_zero bit_ones)

lemma fs_known_eq: "bits_wf w v \<Longrightarrow>
    fs_known w v = \<lparr>fs_value = v, fs_knownMask = bits_ones w, fs_zMask = bits_of_word w 0\<rparr>"
  using bits_wf_pos[of w v] fs_ctor_Inr[OF _ bits_wf_ones bits_wf_of_word, of w v 0]
  by (simp add: fs_known_def bits_bit_simps)

lemma fs_unknown_eq: "0 < w \<Longrightarrow>
    fs_unknown w = \<lparr>fs_value = bits_of_word w 0, fs_knownMask = bits_of_word w 0, fs_zMask = bits_of_word w 0\<rparr>"
  using fs_ctor_Inr[OF bits_wf_of_word bits_wf_of_word bits_wf_of_word, of w 0 0 0]
  by (simp add: fs_unknown_def fs_unknown_of_def bits_bit_simps)

lemma fs_wf_known [simp]: "bits_wf w v \<Longrightarrow> fs_wf w (fs_known w v)"
  using fs_ctor_Inr(2)[OF _ bits_wf_ones bits_wf_of_word, of w v 0]
  by (simp add: fs_known_eq bits_wf_pos bits_bit_simps)

lemma fs_wf_unknown [simp]: "0 < w \<Longrightarrow> fs_wf w (fs_unknown w)"
  using fs_ctor_Inr(2)[OF bits_wf_of_word bits_wf_of_word bits_wf_of_word, of w 0 0 0]
  by (simp add: fs_unknown_eq bits_bit_simps)

lemma fs_at_known: "bits_wf w v \<Longrightarrow> i < w \<Longrightarrow> fs_at (fs_known w v) i = (if bit (bval v) i then L1 else L0)"
  by (simp add: fs_known_eq fs_at_def bit_ones bits_wf_pos)

lemma fs_at_unknown: "0 < w \<Longrightarrow> fs_at (fs_unknown w) i = LX"
  by (simp add: fs_unknown_eq fs_at_def bit_zero)

lemma fs_value_known [simp]: "bits_wf w v \<Longrightarrow> fs_value (fs_known w v) = v"
  by (simp add: fs_known_eq)

lemma fs_isFullyKnown_iff: "fs_wf w f \<Longrightarrow> fs_isFullyKnown w f \<longleftrightarrow> (\<forall>i<w. bit (bval (fs_knownMask f)) i)"
proof -
  assume f: "fs_wf w f"
  note wf = fs_wfD(1-4)[OF f] and ex = fs_wfD(5)[OF f]
  have "bits_eq w (fs_knownMask f) (bits_ones w) \<longleftrightarrow> (\<forall>i. bit (bval (fs_knownMask f)) i \<longleftrightarrow> i < w)"
    unfolding bits_order_eq(4)[OF wf(2) bits_wf_ones[OF wf(4)]] by (simp add: bit_eq_iff bit_ones[OF wf(4)])
  then show ?thesis
    using ex bits_wf_bit_less[OF wf(2)] bits_wf_bit_less[OF wf(3)]
    by (auto simp: fs_isFullyKnown_def bits_zero_iff[OF wf(3)])
qed

lemma fs_isFullyKnown_known [simp]: "bits_wf w v \<Longrightarrow> fs_isFullyKnown w (fs_known w v)"
  by (simp add: fs_isFullyKnown_iff) (simp add: fs_known_eq bit_ones bits_wf_pos)

lemma fs_isFullyKnown_unknown [simp]: "0 < w \<Longrightarrow> \<not> fs_isFullyKnown w (fs_unknown w)"
  by (simp add: fs_isFullyKnown_iff) (auto simp: fs_unknown_eq bit_zero)

lemma fs_fullyKnown_eq: "fs_wf w f \<Longrightarrow> fs_isFullyKnown w f \<Longrightarrow> f = fs_known w (fs_value f)"
proof -
  assume f: "fs_wf w f" and k: "fs_isFullyKnown w f"
  note wf = fs_wfD(1-4)[OF f]
  have "fs_knownMask f = bits_ones w" "fs_zMask f = bits_of_word w 0"
    using k wf by (auto simp: fs_isFullyKnown_def bits_order_eq(4) bits_wf_intros intro!: bits_eqI[of w])
  then show ?thesis by (simp add: fs_known_eq[OF wf(1)])
qed

definition fs_yields :: "nat \<Rightarrow> exn + four_state \<Rightarrow> (nat \<Rightarrow> logic4) \<Rightarrow> bool" where
  "fs_yields w x P \<longleftrightarrow> (\<exists>r. x = Inr r \<and> fs_wf w r \<and> (\<forall>i<w. fs_at r i = P i))"

lemma fs_yields_fromMasks:
  assumes "bits_wf w v" "bits_wf w k" "bits_wf w z" "\<And>i. \<not> (bit (bval k) i \<and> bit (bval z) i)"
    and "\<And>i. i < w \<Longrightarrow> fs_at \<lparr>fs_value = v, fs_knownMask = k, fs_zMask = z\<rparr> i = P i"
  shows "fs_yields w (fs_fromMasks w v k z) P"
  using fs_ctor_Inr[OF assms(1-3)] assms(4,5) by (auto simp: fs_yields_def fs_fromMasks_def)

lemma fs_yields_Inr: "fs_wf w f \<Longrightarrow> (\<And>i. i < w \<Longrightarrow> fs_at f i = P i) \<Longrightarrow> fs_yields w (Inr f) P"
  by (simp add: fs_yields_def)

lemma fs_yields_unknown: "0 < w \<Longrightarrow> (\<And>i. i < w \<Longrightarrow> P i = LX) \<Longrightarrow> fs_yields w (Inr (fs_unknown w)) P"
  by (rule fs_yields_Inr) (simp_all add: fs_at_unknown)

lemma logic4_tables:
  "not4 a = (if a = L0 then L1 else if a = L1 then L0 else LX)"
  "and4 a b = (if a = L0 \<or> b = L0 then L0 else if a = L1 \<and> b = L1 then L1 else LX)"
  "or4 a b = (if a = L1 \<or> b = L1 then L1 else if a = L0 \<and> b = L0 then L0 else LX)"
  "xor4 a b = (if (a = L0 \<or> a = L1) \<and> (b = L0 \<or> b = L1) then (if a = b then L0 else L1) else LX)"
  by (cases a; cases b; simp)+

lemma fs_bitwise_tables:
  assumes a: "fs_wf w a" and b: "fs_wf w b"
  shows "fs_yields w (fs_bit_not w a) (\<lambda>i. not4 (fs_at a i))"
    and "fs_yields w (fs_bit_and w a b) (\<lambda>i. and4 (fs_at a i) (fs_at b i))"
    and "fs_yields w (fs_bit_or w a b) (\<lambda>i. or4 (fs_at a i) (fs_at b i))"
    and "fs_yields w (fs_bit_xor w a b) (\<lambda>i. xor4 (fs_at a i) (fs_at b i))"
  unfolding fs_bit_not_def fs_bit_and_def fs_bit_or_def fs_bit_xor_def Let_def
  by (rule fs_yields_fromMasks;
      auto simp: fs_wfD(1-4)[OF a] fs_wfD(1-3)[OF b] bits_wf_bitwise bits_wf_of_word bit_bitwise bit_zero fs_at_def
        logic4_tables)+

lemma fs_select_lanes:
  assumes a: "fs_wf w a" and b: "fs_wf w b"
  shows "fs_yields w (fs_select w c a b)
    (\<lambda>i. if fs_isFullyKnown 1 c then fs_at (if toBool (fs_value c) then a else b) i
         else merge4 (fs_at a i) (fs_at b i))"
proof (cases "fs_isFullyKnown 1 c")
  case True
  then show ?thesis using a b by (auto simp: fs_select_def intro!: fs_yields_Inr)
next
  case False
  have "fs_yields w (fs_select w c a b) (\<lambda>i. merge4 (fs_at a i) (fs_at b i))"
    using False unfolding fs_select_def Let_def if_not_P[OF False]
    by (intro fs_yields_fromMasks)
      (use fs_wfD(5)[OF a] fs_wfD(5)[OF b] in \<open>auto simp: fs_wfD(1-4)[OF a] fs_wfD(1-3)[OF b] bits_wf_bitwise
         bit_bitwise fs_at_def\<close>)
  then show ?thesis using False by (simp add: fs_yields_def)
qed

lemma fs_resize_lanes:
  assumes f: "fs_wf inw f"
  shows "inw \<le> outw \<Longrightarrow> fs_yields outw (fs_zero_extend outw inw f) (\<lambda>i. if i < inw then fs_at f i else L0)"
    and "0 < outw \<Longrightarrow> outw \<le> inw \<Longrightarrow> fs_yields outw (fs_truncate outw inw f) (fs_at f)"
    and "inw \<le> outw \<Longrightarrow> inw mod 64 \<noteq> 0 \<Longrightarrow>
      fs_yields outw (fs_sign_extend outw inw f) (\<lambda>i. fs_at f (min i (inw - 1)))"
    and "0 < outw \<Longrightarrow> fs_yields outw (fs_extract outw inw f low)
      (\<lambda>i. if low + outw \<le> inw then fs_at f (i + low) else LX)"
proof -
  note wf = fs_wfD(1-4)[OF f] and ex = fs_wfD(5)[OF f]
  have less: "bit (bval (fs_value f)) i \<Longrightarrow> i < inw" "bit (bval (fs_knownMask f)) i \<Longrightarrow> i < inw"
    "bit (bval (fs_zMask f)) i \<Longrightarrow> i < inw" for i
    using bits_wf_bit_less wf by blast+
  {
    assume le: "inw \<le> outw"
    then have pos: "0 < outw" using wf(4) by simp
    note bs = bit_zext[OF _ le] bits_wf_zext[OF pos] bits_wf_ones[OF wf(4)] bit_ones[OF wf(4)]
    show "fs_yields outw (fs_zero_extend outw inw f) (\<lambda>i. if i < inw then fs_at f i else L0)"
      unfolding fs_zero_extend_def Let_def
      by (rule fs_yields_fromMasks)
        (use ex less le in \<open>auto simp: bs wf(1-3) bits_wf_bitwise[OF pos] bit_bitwise fs_at_def\<close>)
  }
  {
    assume "0 < outw" "outw \<le> inw"
    then show "fs_yields outw (fs_truncate outw inw f) (fs_at f)"
      unfolding fs_truncate_def
      by (intro fs_yields_fromMasks)
        (use ex in \<open>auto simp: wf(1-3) bits_wf_trunc bit_trunc fs_at_def\<close>)
  }
  {
    assume le: "inw \<le> outw" and nm: "inw mod 64 \<noteq> 0"
    have b: "bit (bval (bits_sext outw inw v)) i \<longleftrightarrow> i < outw \<and> bit (bval v) (min i (inw - 1))" if "bits_wf inw v" for v i
      using bit_sext[OF that le, of i] nm bits_wf_bit_less[OF that, of i] by (auto simp: min_def)
    show "fs_yields outw (fs_sign_extend outw inw f) (\<lambda>i. fs_at f (min i (inw - 1)))"
      unfolding fs_sign_extend_def
      by (rule fs_yields_fromMasks)
        (use ex le in \<open>simp_all add: b wf(1-3) bits_wf_sext[OF wf(4) le] fs_at_def\<close>)
  }
  {
    assume pos: "0 < outw"
    show "fs_yields outw (fs_extract outw inw f low) (\<lambda>i. if low + outw \<le> inw then fs_at f (i + low) else LX)"
    proof (cases "low + outw \<le> inw")
      case True
      then have "\<not> (outw > inw \<or> low > inw - outw)" by auto
      then show ?thesis using True unfolding fs_extract_def
        by (simp, intro fs_yields_fromMasks)
          (use ex pos in \<open>auto simp: wf(1-3) bits_wf_extract bit_extract fs_at_def\<close>)
    next
      case False
      then have "outw > inw \<or> low > inw - outw" by auto
      then show ?thesis using False pos by (simp add: fs_extract_def fs_yields_unknown)
    qed
  }
qed

lemma fs_concat_lanes:
  assumes a: "fs_wf hw a" and b: "fs_wf lw b"
  shows "fs_yields (hw + lw) (fs_concat hw lw a b) (\<lambda>i. if i < lw then fs_at b i else fs_at a (i - lw))"
  unfolding fs_concat_def
  by (rule fs_yields_fromMasks)
    (use fs_wfD(5)[OF a] fs_wfD(5)[OF b] in
      \<open>auto simp: fs_wfD(1-4)[OF a] fs_wfD(1-3)[OF b] bits_wf_concat2 bit_concat2 fs_at_def\<close>)

lemma bval_eq_0_iff: "bval xs = 0 \<longleftrightarrow> (\<forall>i<length xs. xs ! i = 0)"
  by (induction xs) (auto simp: bval.simps less_Suc_eq_0_disj unat_eq_zero)

lemma ex_less_Suc_shift: "(\<exists>i\<in>{1..<Suc n}. P (i - 1)) \<longleftrightarrow> (\<exists>i<n. P i)"
proof
  assume "\<exists>i<n. P i"
  then obtain i where "i < n" "P i" by blast
  then show "\<exists>i\<in>{1..<Suc n}. P (i - 1)" by (intro bexI[of _ "Suc i"]) simp_all
next
  assume "\<exists>i\<in>{1..<Suc n}. P (i - 1)"
  then obtain i where "1 \<le> i" "i < Suc n" "P (i - 1)" by auto
  then show "\<exists>i<n. P i" by (intro exI[of _ "i - 1"]) simp
qed

lemma boundedShift_eq:
  assumes a: "bits_wf aw (fs_value amount)" and w: "w \<le> 2 ^ 64"
  shows "boundedShift w aw amount = min (bval (fs_value amount)) w"
proof -
  obtain x xs where v: "fs_value amount = x # xs"
    using bits_wf_length[OF a] by (cases "fs_value amount") (auto simp: kWords_def)
  have len: "kWords aw = Suc (length xs)" using bits_wf_length[OF a] v by simp
  have "list_ex (\<lambda>i. bits_word aw (fs_value amount) i \<noteq> 0) [1..<kWords aw] \<longleftrightarrow> (\<exists>i<length xs. xs ! i \<noteq> 0)"
    unfolding ex_less_Suc_shift[of "length xs" "\<lambda>i. xs ! i \<noteq> 0", symmetric] list_ex_iff set_upt len
    by (rule bex_cong) (auto simp: bits_word_def len v)
  also have "\<dots> \<longleftrightarrow> bval xs \<noteq> 0" by (simp add: bval_eq_0_iff)
  finally have ex: "list_ex (\<lambda>i. bits_word aw (fs_value amount) i \<noteq> 0) [1..<kWords aw] \<longleftrightarrow> bval xs \<noteq> 0" .
  have bv: "bval (fs_value amount) = unat x + 2 ^ 64 * bval xs" by (simp only: v bval.simps)
  show ?thesis
  proof (cases "bval xs = 0")
    case True
    then show ?thesis using ex bv by (simp add: boundedShift_def bits_value_def v min_def)
  next
    case False
    then have "(2::nat) ^ 64 * 1 \<le> 2 ^ 64 * bval xs" by (intro mult_le_mono2) simp
    then have "w \<le> bval (fs_value amount)" using w bv by linarith
    then show ?thesis using False ex by (simp add: boundedShift_def min_def)
  qed
qed

lemma fs_shift_lanes:
  assumes f: "fs_wf w f" and am: "fs_wf aw amount" and w: "w \<le> 2 ^ 64"
  defines "n \<equiv> bval (fs_value amount)"
  shows "fs_yields w (fs_shl w aw f amount)
      (\<lambda>i. if fs_isFullyKnown aw amount then (if i < n then L0 else fs_at f (i - n)) else LX)"
    and "fs_yields w (fs_lshr w aw f amount)
      (\<lambda>i. if fs_isFullyKnown aw amount then (if i + n < w then fs_at f (i + n) else L0) else LX)"
    and "fs_yields w (fs_ashr w aw f amount)
      (\<lambda>i. if fs_isFullyKnown aw amount then fs_at f (min (i + n) (w - 1)) else LX)"
proof -
  note wf = fs_wfD(1-4)[OF f] and ex = fs_wfD(5)[OF f]
  have less: "bit (bval (fs_value f)) i \<Longrightarrow> i < w" "bit (bval (fs_knownMask f)) i \<Longrightarrow> i < w"
    "bit (bval (fs_zMask f)) i \<Longrightarrow> i < w" for i
    using bits_wf_bit_less wf by blast+
  have c: "boundedShift w aw amount = min n w"
    using boundedShift_eq[OF fs_wfD(1)[OF am] w] by (simp add: n_def)
  note simps = bits_wf_bitwise[OF wf(4)] bit_bitwise bits_wf_ones[OF wf(4)] bit_ones[OF wf(4)] wf(1-3)
  show "fs_yields w (fs_shl w aw f amount)
      (\<lambda>i. if fs_isFullyKnown aw amount then (if i < n then L0 else fs_at f (i - n)) else LX)"
  proof (cases "fs_isFullyKnown aw amount")
    case True
    then show ?thesis unfolding fs_shl_def Let_def c
      by (simp, intro fs_yields_fromMasks)
        (use ex less in \<open>auto simp: simps bits_wf_shl bit_shl fs_at_def\<close>)
  qed (simp add: fs_shl_def fs_yields_unknown wf(4))
  show "fs_yields w (fs_lshr w aw f amount)
      (\<lambda>i. if fs_isFullyKnown aw amount then (if i + n < w then fs_at f (i + n) else L0) else LX)"
  proof (cases "fs_isFullyKnown aw amount")
    case True
    then show ?thesis unfolding fs_lshr_def Let_def c
      by (simp, intro fs_yields_fromMasks)
        (use ex less in \<open>auto simp: simps bits_wf_lshr bit_lshr fs_at_def min_def dest: less\<close>)
  qed (simp add: fs_lshr_def fs_yields_unknown wf(4))
  show "fs_yields w (fs_ashr w aw f amount)
      (\<lambda>i. if fs_isFullyKnown aw amount then fs_at f (min (i + n) (w - 1)) else LX)"
  proof (cases "fs_isFullyKnown aw amount")
    case True
    have b: "bit (bval (bits_ashr w v (min n w))) i \<longleftrightarrow> i < w \<and> bit (bval v) (min (i + n) (w - 1))" if "bits_wf w v" for v i
      using bit_ashr[OF that, of "min n w" i] wf(4) by (auto simp: min_def)
    show ?thesis using True unfolding fs_ashr_def Let_def c
      by (simp, intro fs_yields_fromMasks)
        (use ex in \<open>auto simp: wf(1-3) bits_wf_ashr b fs_at_def\<close>)
  qed (simp add: fs_ashr_def fs_yields_unknown wf(4))
qed

subsection \<open>Completions\<close>

lemma completes_iff: "completes w f v \<longleftrightarrow> bits_wf w v \<and>
    (\<forall>i<w. (fs_at f i = L1 \<longrightarrow> bit (bval v) i) \<and> (fs_at f i = L0 \<longrightarrow> \<not> bit (bval v) i))"
  by (auto simp: completes_def fs_at_def)

lemma completes_fullyKnown:
  assumes f: "fs_wf w f" and k: "fs_isFullyKnown w f" and c: "completes w f v"
  shows "v = fs_value f"
proof (rule bits_eqI[of w])
  show v: "bits_wf w v" and wf: "bits_wf w (fs_value f)" using c fs_wfD(1)[OF f] by (simp_all add: completes_def)
  show "bval v = bval (fs_value f)"
    using c k bits_wf_bit_less[OF v] bits_wf_bit_less[OF wf]
    by (intro bit_eqI) (auto simp: completes_def fs_isFullyKnown_iff[OF f])
qed

lemma completes_known: "bits_wf w v \<Longrightarrow> completes w (fs_known w v) v"
  by (auto simp: completes_iff fs_at_known split: if_splits)

lemma completes_unknown: "bits_wf w v \<Longrightarrow> completes w (fs_unknown w) v"
  by (simp add: completes_iff fs_at_unknown bits_wf_pos)

lemma completes_value: "fs_wf w f \<Longrightarrow> completes w f (fs_value f)"
  by (simp add: completes_def fs_wfD(1))

lemma completes_yields:
  assumes "fs_yields w x P" "bits_wf w v" "\<And>i. i < w \<Longrightarrow> P i = L1 \<Longrightarrow> bit (bval v) i"
    "\<And>i. i < w \<Longrightarrow> P i = L0 \<Longrightarrow> \<not> bit (bval v) i"
  shows "\<exists>r. x = Inr r \<and> fs_wf w r \<and> completes w r v"
  using assms by (auto simp: fs_yields_def completes_iff)

lemma fs_arith_complete:
  assumes a: "fs_wf w a" and b: "fs_wf w b" and va: "completes w a va" and vb: "completes w b vb"
  shows "completes w (fs_add w a b) (bits_add w va vb)"
    and "completes w (fs_sub w a b) (bits_sub w va vb)"
    and "completes w (fs_mul w a b) (bits_mul w va vb)"
    and "completes w (fs_udiv w a b) (bits_udiv w va vb)"
    and "completes w (fs_urem w a b) (bits_urem w va vb)"
proof -
  have wf: "bits_wf w va" "bits_wf w vb" using va vb by (simp_all add: completes_def)
  note eqs = completes_fullyKnown[OF a _ va] completes_fullyKnown[OF b _ vb]
  note simps = bits_wf_add[OF wf] bits_wf_sub[OF wf] bits_wf_mul[OF wf(1)] bits_wf_udiv_urem[OF wf]
    completes_known completes_unknown
  show "completes w (fs_add w a b) (bits_add w va vb)" using eqs simps by (auto simp: fs_add_def)
  show "completes w (fs_sub w a b) (bits_sub w va vb)" using eqs simps by (auto simp: fs_sub_def)
  show "completes w (fs_mul w a b) (bits_mul w va vb)" using eqs simps by (auto simp: fs_mul_def)
  show "completes w (fs_udiv w a b) (bits_udiv w va vb)" using eqs simps by (auto simp: fs_udiv_def)
  show "completes w (fs_urem w a b) (bits_urem w va vb)" using eqs simps by (auto simp: fs_urem_def)
qed

lemma fs_arith_wf:
  assumes "fs_wf w a" "fs_wf w b"
  shows "fs_wf w (fs_add w a b)" "fs_wf w (fs_sub w a b)" "fs_wf w (fs_mul w a b)" "fs_wf w (fs_udiv w a b)"
    "fs_wf w (fs_urem w a b)"
  using assms fs_wfD(1,4)[OF assms(1)] fs_wfD(1)[OF assms(2)]
  by (simp_all add: fs_add_def fs_sub_def fs_mul_def fs_udiv_def fs_urem_def bits_wf_add bits_wf_sub bits_wf_mul
      bits_wf_udiv_urem)

text \<open>The relation a predicate stands for on binary values.\<close>

fun compare_rel :: "ComparePredicate \<Rightarrow> nat \<Rightarrow> bits \<Rightarrow> bits \<Rightarrow> bool" where
  "compare_rel EQ w a b \<longleftrightarrow> bval a = bval b"
| "compare_rel NE w a b \<longleftrightarrow> bval a \<noteq> bval b"
| "compare_rel ULT w a b \<longleftrightarrow> bval a < bval b"
| "compare_rel ULE w a b \<longleftrightarrow> bval a \<le> bval b"
| "compare_rel UGT w a b \<longleftrightarrow> bval a > bval b"
| "compare_rel UGE w a b \<longleftrightarrow> bval a \<ge> bval b"
| "compare_rel SLT w a b \<longleftrightarrow> bits_sval w a < bits_sval w b"
| "compare_rel SLE w a b \<longleftrightarrow> bits_sval w a \<le> bits_sval w b"
| "compare_rel SGT w a b \<longleftrightarrow> bits_sval w a > bits_sval w b"
| "compare_rel SGE w a b \<longleftrightarrow> bits_sval w a \<ge> bits_sval w b"
| "compare_rel CASE_EQ w a b \<longleftrightarrow> bval a = bval b"

lemma fs_bool [simp]: "fs_wf 1 (fs_bool b)" "fs_at (fs_bool b) 0 = (if b then L1 else L0)" "fs_isFullyKnown 1 (fs_bool b)"
  by (auto simp: fs_bool_def bits_wf_of_word fs_at_known bval_of_word bit_Suc_0_iff)

lemma bits_bool [simp]: "bits_wf 1 (bits_of_word 1 x)" "bit (bval (bits_of_word 1 (if b then 1 else 0))) 0 = b"
  by (auto simp: bits_wf_of_word bval_of_word bit_Suc_0_iff)

lemmas fs_bool_Suc [simp] = fs_bool[unfolded One_nat_def] bits_bool[unfolded One_nat_def]

lemma completes_bool: "completes 1 (fs_bool b) (bits_of_word 1 (if b then 1 else 0))"
  unfolding fs_bool_def by (rule completes_known) simp

lemma completes_bool_Suc [simp]:
  "completes (Suc 0) (fs_bool True) (bits_of_word (Suc 0) 1)" "completes (Suc 0) (fs_bool False) (bits_of_word (Suc 0) 0)"
  "completes (Suc 0) (fs_unknown (Suc 0)) (bits_of_word (Suc 0) x)"
  using completes_bool[of True] completes_bool[of False] completes_unknown[of "Suc 0" "bits_of_word (Suc 0) x"]
  by simp_all

lemma fs_difference_iff:
  assumes a: "fs_wf w a" and b: "fs_wf w b"
  shows "bits_eq w (bits_and w (bits_and w (bits_xor w (fs_value a) (fs_value b)) (fs_knownMask a)) (fs_knownMask b))
      (bits_of_word w 0) \<longleftrightarrow>
    (\<forall>i. bit (bval (fs_knownMask a)) i \<and> bit (bval (fs_knownMask b)) i \<longrightarrow> bit (bval (fs_value a)) i = bit (bval (fs_value b)) i)"
  using fs_wfD(1-4)[OF a] fs_wfD(1-3)[OF b] by (auto simp: bits_zero_iff bits_wf_bitwise bit_bitwise)

lemma fs_compare_complete:
  assumes a: "fs_wf w a" and b: "fs_wf w b" and va: "completes w a va" and vb: "completes w b vb" and p: "p \<noteq> CASE_EQ"
  shows "completes 1 (fs_compare p w a b) (bits_of_word 1 (if compare_rel p w va vb then 1 else 0))"
proof (cases "fs_isFullyKnown w a \<and> fs_isFullyKnown w b")
  case True
  have v: "va = fs_value a" "vb = fs_value b" using completes_fullyKnown[OF a _ va] completes_fullyKnown[OF b _ vb] True by auto
  have wf: "bits_wf w (fs_value a)" "bits_wf w (fs_value b)" using fs_wfD(1)[OF a] fs_wfD(1)[OF b] .
  have k: "bit (bval (fs_knownMask a)) i \<and> bit (bval (fs_knownMask b)) i \<longleftrightarrow> i < w" for i
    using True bits_wf_bit_less[OF fs_wfD(2)[OF a], of i]
    by (auto simp: fs_isFullyKnown_iff[OF a] fs_isFullyKnown_iff[OF b])
  have e: "bval (fs_value a) = bval (fs_value b) \<longleftrightarrow>
      (\<forall>i. bit (bval (fs_knownMask a)) i \<and> bit (bval (fs_knownMask b)) i \<longrightarrow> bit (bval (fs_value a)) i = bit (bval (fs_value b)) i)"
    unfolding k nat_bit_eq_iff using bits_wf_bit_less[OF wf(1)] bits_wf_bit_less[OF wf(2)] by blast
  have "fs_compare p w a b = fs_bool (compare_rel p w va vb)"
    using True p unfolding fs_compare_def Let_def fs_difference_iff[OF a b] e[symmetric] v
    by (cases p) (simp_all add: bits_lt_eq[OF wf] bits_order_eq[OF wf] bits_slt_eq wf not_less)
  then show ?thesis by (simp add: completes_bool)
next
  case False
  show ?thesis
  proof (cases "p = EQ \<or> p = NE")
    case True
    define D where "D \<longleftrightarrow> bits_eq w (bits_and w (bits_and w (bits_xor w (fs_value a) (fs_value b)) (fs_knownMask a))
      (fs_knownMask b)) (bits_of_word w 0)"
    have "\<not> D \<Longrightarrow> bval va \<noteq> bval vb"
      using va vb bits_wf_bit_less[OF fs_wfD(2)[OF a]] unfolding D_def fs_difference_iff[OF a b] completes_def by metis
    then show ?thesis using True False p by (auto simp: fs_compare_def Let_def D_def[symmetric])
  next
    case F: False
    then have "fs_compare p w a b = fs_unknown 1" using False p by (auto simp: fs_compare_def)
    then show ?thesis by (simp add: completes_unknown)
  qed
qed

subsection \<open>Slice assignment\<close>

lemma setWord_maskTop:
  assumes wf: "bits_wf w a" and i: "i < kWords w"
  shows "setWord w a i x = maskTop w (a[i := x])"
proof (rule nth_equalityI)
  note len = bits_wf_length[OF wf]
  have top: "a ! (kWords w - 1) AND topMask w = a ! (kWords w - 1)"
    using wf by (auto simp: bits_wf_def bit_eq_iff bit_simps)
  show "length (setWord w a i x) = length (maskTop w (a[i := x]))" by (simp add: maskTop_def)
  fix j assume "j < length (setWord w a i x)"
  then have j: "j < kWords w" by (simp add: len)
  show "setWord w a i x ! j = maskTop w (a[i := x]) ! j"
  proof (cases "j + 1 = kWords w")
    case True
    then have "j = kWords w - 1" by simp
    then show ?thesis using top len i j by (auto simp: nth_setWord nth_maskTop nth_list_update)
  next
    case False
    then show ?thesis using len i j by (auto simp: nth_setWord nth_maskTop nth_list_update)
  qed
qed

lemma bits_wf_setWord [bits_wf_intros]: "bits_wf w a \<Longrightarrow> bits_wf w (setWord w a i x)"
  by (cases "i < kWords w") (simp_all add: setWord_maskTop bits_wf_maskTop bits_wf_pos bits_wf_length, simp add: setWord_def)

lemma bit_setWord:
  assumes wf: "bits_wf w a" and j: "j < kWords w"
  shows "bit (bval (setWord w a j x)) i \<longleftrightarrow> i < w \<and> (if i div 64 = j then bit x (i mod 64) else bit (bval a) i)"
  unfolding setWord_maskTop[OF wf j] using bits_wf_length[OF wf] bits_wf_pos[OF wf] j
  by (simp add: bit_maskTop bit_bval[of "a[j := x]"] bit_bval[of a])

lemma bit_bits_word:
  assumes wf: "bits_wf w a" and k: "k < 64"
  shows "bit (bits_word w a j) k \<longleftrightarrow> bit (bval a) (64 * j + k)"
  using bit_bval_split[OF k, of a j] bits_wf_length[OF wf] by (simp add: bits_word_def)

lemma slice_countD:
  assumes "position < n"
  shows "slice_count n low position \<le> 64 - (low + position) mod 64" "position + slice_count n low position \<le> n"
    "slice_count n low position \<le> 64"
  using assms by (auto simp: slice_count_def Let_def)

lemma bit_low_mask: "c \<le> 64 \<Longrightarrow> bit (if c = 64 then NOT 0 else push_bit c 1 - 1 :: u64) k \<longleftrightarrow> k < c"
proof (cases "c = 64")
  case False
  assume "c \<le> 64"
  then have "push_bit c 1 - 1 = (mask c :: u64)" by (simp add: mask_eq_exp_minus_1 push_bit_eq_mult)
  then show ?thesis using False \<open>c \<le> 64\<close> by (auto simp: bit_mask_iff)
qed (auto simp: bit_minus_1_iff)

lemma slice_source_bit:
  assumes wf: "bits_wf n input" and c: "c \<le> 64" and k: "k < c"
  shows "bit (if p mod 64 \<noteq> 0 \<and> p mod 64 + c > 64
      then drop_bit (p mod 64) (bits_word n input (p div 64)) OR push_bit (64 - p mod 64) (bits_word n input (p div 64 + 1))
      else drop_bit (p mod 64) (bits_word n input (p div 64))) k \<longleftrightarrow> bit (bval input) (p + k)"
proof -
  have p: "p = 64 * (p div 64) + p mod 64" by simp
  show ?thesis
  proof (cases "p mod 64 + k < 64")
    case True
    have "bit (drop_bit (p mod 64) (bits_word n input (p div 64))) k \<longleftrightarrow> bit (bval input) (64 * (p div 64) + (p mod 64 + k))"
      by (simp only: bit_drop_u64 bit_bits_word[OF wf True])
    moreover have "\<not> bit (push_bit (64 - p mod 64) x) k" for x :: u64
      using True by (auto simp: bit_push_bit_iff)
    ultimately show ?thesis by (auto simp: bit_or_iff simp flip: add.assoc)
  next
    case False
    then have c': "p mod 64 \<noteq> 0 \<and> p mod 64 + c > 64" using k c by auto
    have lt: "k - (64 - p mod 64) < 64" using k c by linarith
    have "bit (push_bit (64 - p mod 64) (bits_word n input (p div 64 + 1))) k \<longleftrightarrow>
        bit (bval input) (64 * (p div 64 + 1) + (k - (64 - p mod 64)))"
      using False k c by (simp only: bit_push_u64 bit_bits_word[OF wf lt]) auto
    moreover have "64 * (p div 64 + 1) + (k - (64 - p mod 64)) = p + k"
      using False p by simp
    moreover have "\<not> bit (drop_bit (p mod 64) x) k" for x :: u64 using False by (simp add: bit_drop_u64)
    ultimately show ?thesis using c' by (simp add: bit_or_iff)
  qed
qed

lemma bits_wf_slice_update: "bits_wf w t \<Longrightarrow> bits_wf w (slice_update w n low p c t x)"
  by (simp add: slice_update_def Let_def bits_wf_setWord)

lemma bit_slice_update:
  assumes t: "bits_wf w t" and x: "bits_wf n x" and p: "p < n" and fit: "low + n \<le> w"
  defines "c \<equiv> slice_count n low p"
  shows "bit (bval (slice_update w n low p c t x)) i \<longleftrightarrow>
    (if low + p \<le> i \<and> i < low + p + c then bit (bval x) (i - low) else bit (bval t) i)"
proof -
  note cd = slice_countD[OF p, of low, folded c_def]
  define d off where "d = (low + p) div 64" and "off = (low + p) mod 64"
  have db: "low + p = 64 * d + off" "off < 64" by (simp_all add: d_def off_def)
  have d: "d < kWords w" unfolding d_def using kWords_last[of w "low + p"] fit p by simp
  define bts where "bts = (if c = 64 then NOT 0 else push_bit c 1 - 1 :: u64)"
  define wd where "wd = (if p mod 64 \<noteq> 0 \<and> p mod 64 + c > 64
      then drop_bit (p mod 64) (bits_word n x (p div 64)) OR push_bit (64 - p mod 64) (bits_word n x (p div 64 + 1))
      else drop_bit (p mod 64) (bits_word n x (p div 64)))"
  have bts: "bit bts k \<longleftrightarrow> k < c" for k unfolding bts_def by (rule bit_low_mask[OF cd(3)])
  have wd: "bit wd k \<longleftrightarrow> bit (bval x) (p + k)" if "k < c" for k
    unfolding wd_def by (rule slice_source_bit[OF x cd(3) that])
  have new: "bit ((bits_word w t d AND NOT (push_bit off bts)) OR push_bit off (wd AND bts)) r \<longleftrightarrow>
      (if off \<le> r \<and> r < off + c then bit (bval x) (p + (r - off)) else bit (bval t) (64 * d + r))" if "r < 64" for r
  proof (cases "off \<le> r \<and> r < off + c")
    case True
    then have "r - off < c" by linarith
    then show ?thesis using True that wd[of "r - off"]
      by (simp add: bit_or_iff bit_and_iff bit_not_iff bit_push_u64 bts)
  next
    case False
    then have "off \<le> r \<Longrightarrow> \<not> r - off < c" by linarith
    then show ?thesis using False that bit_bits_word[OF t that, of d]
      by (auto simp: bit_or_iff bit_and_iff bit_not_iff bit_push_u64 bts)
  qed
  have upd: "slice_update w n low p c t x =
      setWord w t d ((bits_word w t d AND NOT (push_bit off bts)) OR push_bit off (wd AND bts))"
    unfolding slice_update_def Let_def wd_def bts_def d_def off_def ..
  define j r where "j = i div 64" and "r = i mod 64"
  have i: "i = 64 * j + r" "r < 64" by (simp_all add: j_def r_def)
  have "low + p \<le> i \<and> i < low + p + c \<longleftrightarrow> j = d \<and> off \<le> r \<and> r < off + c"
  proof -
    have "off + c \<le> 64" using cd(1) db(2) by (simp add: off_def)
    then show ?thesis unfolding i(1) db(1) using db(2) i(2) by (cases j d rule: linorder_cases) auto
  qed
  moreover have "i < w" if "low + p \<le> i \<and> i < low + p + c" using that cd(2) fit by linarith
  moreover have "p + (r - off) = i - low" if "j = d" "off \<le> r" using that i(1) db(1) by linarith
  ultimately show ?thesis
    unfolding upd bit_setWord[OF t d] j_def[symmetric] r_def[symmetric] new[OF i(2)]
    using bits_wf_bit_less[OF t, of i] i(1) by auto
qed

definition slice_at :: "nat \<Rightarrow> nat \<Rightarrow> nat \<Rightarrow> bits \<Rightarrow> bits \<Rightarrow> bits \<Rightarrow> bool" where
  "slice_at low p q t x u \<longleftrightarrow>
     (\<forall>i. bit (bval u) i \<longleftrightarrow> (if low + p \<le> i \<and> i < low + q then bit (bval x) (i - low) else bit (bval t) i))"

lemma slice_at_step:
  assumes "bits_wf w t" "bits_wf n x" "p < n" "low + n \<le> w"
  shows "slice_at low p (p + slice_count n low p) t x (slice_update w n low p (slice_count n low p) t x)"
  unfolding slice_at_def using bit_slice_update[OF assms] by (simp add: add.assoc)

lemma slice_at_trans: "slice_at low p q t x t' \<Longrightarrow> slice_at low q r t' x u \<Longrightarrow> p \<le> q \<Longrightarrow> q \<le> r \<Longrightarrow> slice_at low p r t x u"
  unfolding slice_at_def by (auto simp: not_less)

lemma slice_loop_correct:
  assumes "bits_wf w (fs_value f)" "bits_wf w (fs_knownMask f)" "bits_wf w (fs_zMask f)"
    and s: "bits_wf n (fs_value s)" "bits_wf n (fs_knownMask s)" "bits_wf n (fs_zMask s)"
    and fit: "low + n \<le> w" "p \<le> n"
  defines "g \<equiv> slice_loop w n low p f s"
  shows "bits_wf w (fs_value g) \<and> bits_wf w (fs_knownMask g) \<and> bits_wf w (fs_zMask g) \<and>
    slice_at low p n (fs_value f) (fs_value s) (fs_value g) \<and>
    slice_at low p n (fs_knownMask f) (fs_knownMask s) (fs_knownMask g) \<and>
    slice_at low p n (fs_zMask f) (fs_zMask s) (fs_zMask g)"
  using assms(1-3) fit(2) unfolding g_def
proof (induction "n - p" arbitrary: p f rule: less_induct)
  case less
  show ?case
  proof (cases "p < n")
    case False
    then show ?thesis using less.prems by (auto simp: slice_loop.simps slice_at_def)
  next
    case True
    define c where "c = slice_count n low p"
    define f' where "f' = \<lparr>fs_value = slice_update w n low p c (fs_value f) (fs_value s),
        fs_knownMask = slice_update w n low p c (fs_knownMask f) (fs_knownMask s),
        fs_zMask = slice_update w n low p c (fs_zMask f) (fs_zMask s)\<rparr>"
    have c: "0 < c" "p + c \<le> n" using slice_count_pos[OF True] slice_countD(2)[OF True] by (simp_all add: c_def)
    have eq: "slice_loop w n low p f s = slice_loop w n low (p + c) f' s"
      using True by (subst slice_loop.simps) (simp add: c_def f'_def Let_def)
    have wf: "bits_wf w (fs_value f')" "bits_wf w (fs_knownMask f')" "bits_wf w (fs_zMask f')"
      using less.prems by (simp_all add: f'_def bits_wf_slice_update)
    have at: "slice_at low p (p + c) (fs_value f) (fs_value s) (fs_value f')"
      "slice_at low p (p + c) (fs_knownMask f) (fs_knownMask s) (fs_knownMask f')"
      "slice_at low p (p + c) (fs_zMask f) (fs_zMask s) (fs_zMask f')"
      using slice_at_step[OF less.prems(1) s(1) True fit(1)] slice_at_step[OF less.prems(2) s(2) True fit(1)]
        slice_at_step[OF less.prems(3) s(3) True fit(1)] by (simp_all add: f'_def c_def)
    have "n - (p + c) < n - p" using True c(1) by linarith
    from less.hyps[OF this wf c(2)] show ?thesis
      unfolding eq using at slice_at_trans[OF _ _ _ c(2)] by (meson le_add1)
  qed
qed

lemma fs_at_slice:
  assumes "slice_at low 0 n (fs_value f) (fs_value s) (fs_value g)"
    "slice_at low 0 n (fs_knownMask f) (fs_knownMask s) (fs_knownMask g)"
    "slice_at low 0 n (fs_zMask f) (fs_zMask s) (fs_zMask g)"
  shows "fs_at g i = (if low \<le> i \<and> i < low + n then fs_at s (i - low) else fs_at f i)"
  using assms by (simp add: slice_at_def fs_at_def)

lemma fs_assignSlice_lanes:
  fixes low :: nat
  assumes f: "fs_wf w f" and s: "fs_wf n s" and n: "n \<le> w"
  defines "g \<equiv> fs_assignSlice w n f low s"
  shows "fs_wf w g" and "low + n \<le> w \<Longrightarrow> fs_at g i = (if low \<le> i \<and> i < low + n then fs_at s (i - low) else fs_at f i)"
    and "w < low + n \<Longrightarrow> g = f"
proof -
  have main: "fs_wf w g \<and> (\<forall>i. fs_at g i = (if low \<le> i \<and> i < low + n then fs_at s (i - low) else fs_at f i))"
    if "low + n \<le> w"
  proof -
    have g: "g = slice_loop w n low 0 f s" using that by (simp add: g_def fs_assignSlice_def)
    note r = slice_loop_correct[OF fs_wfD(1-3)[OF f] fs_wfD(1-3)[OF s] that le0, folded g]
    have "fs_invariantHolds w g"
      using r fs_wfD(5)[OF f] fs_wfD(5)[OF s] fs_invariantHolds_iff[of w g] by (simp add: slice_at_def)
    then show ?thesis using r fs_at_slice[of low n f s g] by (simp add: fs_wf_def)
  qed
  show triv: "w < low + n \<Longrightarrow> g = f" using n by (simp add: g_def fs_assignSlice_def)
  show "fs_wf w g" using main triv f by (cases "low + n \<le> w") auto
  show "low + n \<le> w \<Longrightarrow> fs_at g i = (if low \<le> i \<and> i < low + n then fs_at s (i - low) else fs_at f i)"
    using main by simp
qed

subsection \<open>Case equality, selection and bitwise operators\<close>

lemma fs_parityEquivalent_iff:
  assumes a: "fs_wf w a" and b: "fs_wf w b"
  shows "fs_parityEquivalent w a b \<longleftrightarrow> (\<forall>i<w. fs_at a i = fs_at b i)"
proof -
  note wa = fs_wfD(1-4)[OF a] and wb = fs_wfD(1-3)[OF b]
  have inv: "fs_invariantHolds w a" "fs_invariantHolds w b" using a b by (simp_all add: fs_wf_def)
  have eq: "bits_eq w x y \<longleftrightarrow> (\<forall>i<w. bit (bval x) i = bit (bval y) i)" if "bits_wf w x" "bits_wf w y" for x y
    unfolding bits_order_eq(4)[OF that] nat_bit_eq_iff using bits_wf_bit_less[OF that(1)] bits_wf_bit_less[OF that(2)] by blast
  have "bits_eq w (bits_and w (bits_xor w (fs_value a) (fs_value b)) (fs_knownMask a)) (bits_of_word w 0) \<longleftrightarrow>
      (\<forall>i<w. bit (bval (fs_knownMask a)) i \<longrightarrow> bit (bval (fs_value a)) i = bit (bval (fs_value b)) i)"
    using wa wb bits_wf_bit_less[OF wa(2)] by (auto simp: bits_zero_iff bits_wf_bitwise bit_bitwise)
  then have "fs_parityEquivalent w a b \<longleftrightarrow> (\<forall>i<w. bit (bval (fs_knownMask a)) i = bit (bval (fs_knownMask b)) i \<and>
      bit (bval (fs_zMask a)) i = bit (bval (fs_zMask b)) i \<and>
      (bit (bval (fs_knownMask a)) i \<longrightarrow> bit (bval (fs_value a)) i = bit (bval (fs_value b)) i))"
    unfolding fs_parityEquivalent_def eq[OF wa(2) wb(2)] eq[OF wa(3) wb(3)] using inv by auto
  also have "\<dots> \<longleftrightarrow> (\<forall>i<w. fs_at a i = fs_at b i)"
    using fs_wfD(5)[OF a] fs_wfD(5)[OF b] by (intro all_cong1) (auto simp: fs_at_def)
  finally show ?thesis .
qed

lemma fs_bitwise_complete:
  assumes a: "fs_wf w a" and b: "fs_wf w b" and va: "completes w a va" and vb: "completes w b vb"
  shows "\<exists>r. fs_bit_not w a = Inr r \<and> fs_wf w r \<and> completes w r (bits_not w va)"
    and "\<exists>r. fs_bit_and w a b = Inr r \<and> fs_wf w r \<and> completes w r (bits_and w va vb)"
    and "\<exists>r. fs_bit_or w a b = Inr r \<and> fs_wf w r \<and> completes w r (bits_or w va vb)"
    and "\<exists>r. fs_bit_xor w a b = Inr r \<and> fs_wf w r \<and> completes w r (bits_xor w va vb)"
proof -
  have wf: "bits_wf w va" "bits_wf w vb" "0 < w" using va vb fs_wfD(4)[OF a] by (simp_all add: completes_def)
  note t = fs_bitwise_tables[OF a b] and c = va[unfolded completes_iff] vb[unfolded completes_iff]
  note simps = bits_wf_bitwise[OF wf(3)] bit_bitwise[OF wf(1)] wf logic4_tables
  show "\<exists>r. fs_bit_not w a = Inr r \<and> fs_wf w r \<and> completes w r (bits_not w va)"
    by (rule completes_yields[OF t(1)]) (use c in \<open>auto simp: simps split: if_splits\<close>)
  show "\<exists>r. fs_bit_and w a b = Inr r \<and> fs_wf w r \<and> completes w r (bits_and w va vb)"
    by (rule completes_yields[OF t(2)]) (use c in \<open>auto simp: simps split: if_splits\<close>)
  show "\<exists>r. fs_bit_or w a b = Inr r \<and> fs_wf w r \<and> completes w r (bits_or w va vb)"
    by (rule completes_yields[OF t(3)]) (use c in \<open>auto simp: simps split: if_splits\<close>)
  show "\<exists>r. fs_bit_xor w a b = Inr r \<and> fs_wf w r \<and> completes w r (bits_xor w va vb)"
    by (rule completes_yields[OF t(4)]) (use c in \<open>auto simp: simps split: if_splits\<close>)
qed

lemma fs_select_complete:
  assumes a: "fs_wf w a" and b: "fs_wf w b" and c: "fs_wf 1 c"
    and va: "completes w a va" and vb: "completes w b vb" and vc: "completes 1 c vc"
  shows "\<exists>r. fs_select w c a b = Inr r \<and> fs_wf w r \<and> completes w r (bits_mux vc va vb)"
proof (rule completes_yields[OF fs_select_lanes[OF a b, of c]])
  have "toBool (fs_value c) = toBool vc" if "fs_isFullyKnown 1 c" using completes_fullyKnown[OF c that vc] by simp
  then show "\<And>i. i < w \<Longrightarrow> (if fs_isFullyKnown 1 c then fs_at (if toBool (fs_value c) then a else b) i
         else merge4 (fs_at a i) (fs_at b i)) = L1 \<Longrightarrow> bit (bval (bits_mux vc va vb)) i"
    and "\<And>i. i < w \<Longrightarrow> (if fs_isFullyKnown 1 c then fs_at (if toBool (fs_value c) then a else b) i
         else merge4 (fs_at a i) (fs_at b i)) = L0 \<Longrightarrow> \<not> bit (bval (bits_mux vc va vb)) i"
    using va vb by (auto simp: completes_iff bits_mux_def split: if_splits)
  show "bits_wf w (bits_mux vc va vb)" using va vb by (simp add: completes_def bits_mux_def)
qed

lemma fs_resize_complete:
  assumes f: "fs_wf w f" and c: "completes w f vf"
  shows "w \<le> outw \<Longrightarrow> \<exists>r. fs_zero_extend outw w f = Inr r \<and> fs_wf outw r \<and> completes outw r (bits_zext outw w vf)"
    and "0 < outw \<Longrightarrow> outw \<le> w \<Longrightarrow> \<exists>r. fs_truncate outw w f = Inr r \<and> fs_wf outw r \<and> completes outw r (bits_trunc outw w vf)"
    and "w \<le> outw \<Longrightarrow> w mod 64 \<noteq> 0 \<Longrightarrow> \<exists>r. fs_sign_extend outw w f = Inr r \<and> fs_wf outw r \<and> completes outw r (bits_sext outw w vf)"
    and "0 < outw \<Longrightarrow> \<exists>r. fs_extract outw w f low = Inr r \<and> fs_wf outw r \<and> completes outw r (bits_extract outw w vf low)"
proof -
  have v: "bits_wf w vf" and at: "\<And>i. i < w \<Longrightarrow> fs_at f i = L1 \<Longrightarrow> bit (bval vf) i" "\<And>i. i < w \<Longrightarrow> fs_at f i = L0 \<Longrightarrow> \<not> bit (bval vf) i"
    using c by (auto simp: completes_iff)
  note pos = fs_wfD(4)[OF f] and less = bits_wf_bit_less[OF v]
  show "\<exists>r. fs_zero_extend outw w f = Inr r \<and> fs_wf outw r \<and> completes outw r (bits_zext outw w vf)" if le: "w \<le> outw"
  proof (rule completes_yields[OF fs_resize_lanes(1)[OF f le]])
    show "bits_wf outw (bits_zext outw w vf)" using le pos by (simp add: bits_wf_zext)
    show "(if i < w then fs_at f i else L0) = L1 \<Longrightarrow> bit (bval (bits_zext outw w vf)) i" for i
      using at(1)[of i] by (simp add: bit_zext[OF v le] split: if_splits)
    show "(if i < w then fs_at f i else L0) = L0 \<Longrightarrow> \<not> bit (bval (bits_zext outw w vf)) i" for i
      using at(2)[of i] less[of i] by (auto simp: bit_zext[OF v le] split: if_splits)
  qed
  show "\<exists>r. fs_truncate outw w f = Inr r \<and> fs_wf outw r \<and> completes outw r (bits_trunc outw w vf)" if le: "0 < outw" "outw \<le> w"
  proof (rule completes_yields[OF fs_resize_lanes(2)[OF f le]])
    show "i < outw \<Longrightarrow> fs_at f i = L1 \<Longrightarrow> bit (bval (bits_trunc outw w vf)) i" "i < outw \<Longrightarrow> fs_at f i = L0 \<Longrightarrow> \<not> bit (bval (bits_trunc outw w vf)) i" for i
      using at[of i] le by (simp_all add: bit_trunc[OF v])
  qed (use le in \<open>simp add: bits_wf_trunc\<close>)
  show "\<exists>r. fs_sign_extend outw w f = Inr r \<and> fs_wf outw r \<and> completes outw r (bits_sext outw w vf)" if le: "w \<le> outw" "w mod 64 \<noteq> 0"
  proof (rule completes_yields[OF fs_resize_lanes(3)[OF f le]])
    show "bits_wf outw (bits_sext outw w vf)" using bits_wf_sext[OF pos le(1)] .
    have b: "i < outw \<Longrightarrow> bit (bval (bits_sext outw w vf)) i = bit (bval vf) (min i (w - 1))" for i
      using bit_sext[OF v le(1), of i] le(2) less[of i] by (auto simp: min_def)
    show "i < outw \<Longrightarrow> fs_at f (min i (w - 1)) = L1 \<Longrightarrow> bit (bval (bits_sext outw w vf)) i" for i using b at(1) pos by simp
    show "i < outw \<Longrightarrow> fs_at f (min i (w - 1)) = L0 \<Longrightarrow> \<not> bit (bval (bits_sext outw w vf)) i" for i using b at(2) pos by simp
  qed
  show "\<exists>r. fs_extract outw w f low = Inr r \<and> fs_wf outw r \<and> completes outw r (bits_extract outw w vf low)" if "0 < outw"
  proof (rule completes_yields[OF fs_resize_lanes(4)[OF f that]])
    fix i assume i: "i < outw"
    show "(if low + outw \<le> w then fs_at f (i + low) else LX) = L1 \<Longrightarrow> bit (bval (bits_extract outw w vf low)) i"
      "(if low + outw \<le> w then fs_at f (i + low) else LX) = L0 \<Longrightarrow> \<not> bit (bval (bits_extract outw w vf low)) i"
      using at[of "i + low"] i that by (simp_all add: bit_extract[OF v] split: if_splits)
  qed (use that in \<open>simp add: bits_wf_extract\<close>)
qed

lemma fs_concat_complete:
  assumes f: "fs_wf w f" "completes w f vf" and g: "fs_wf v g" "completes v g vg"
  shows "\<exists>r. fs_concat w v f g = Inr r \<and> fs_wf (w + v) r \<and> completes (w + v) r (bits_concat2 w v vf vg)"
proof -
  have wf: "bits_wf w vf" "bits_wf v vg" using f g by (auto simp: completes_iff)
  show ?thesis
  proof (rule completes_yields[OF fs_concat_lanes[OF f(1) g(1)]])
    fix i assume i: "i < w + v"
    show "(if i < v then fs_at g i else fs_at f (i - v)) = L1 \<Longrightarrow> bit (bval (bits_concat2 w v vf vg)) i"
      "(if i < v then fs_at g i else fs_at f (i - v)) = L0 \<Longrightarrow> \<not> bit (bval (bits_concat2 w v vf vg)) i"
      using f(2) g(2) i by (auto simp: bit_concat2[OF wf] completes_iff split: if_splits)
  qed (use fs_wfD(4)[OF f(1)] in \<open>simp add: bits_wf_concat2\<close>)
qed

lemma fs_shift_complete:
  assumes f: "fs_wf w f" "completes w f vf" and g: "fs_wf v g" "completes v g vg" and w: "w \<le> 2 ^ 64"
  shows "\<exists>r. fs_shl w v f g = Inr r \<and> fs_wf w r \<and> completes w r (bits_shl w vf (bval vg))"
    and "\<exists>r. fs_lshr w v f g = Inr r \<and> fs_wf w r \<and> completes w r (bits_lshr w vf (bval vg))"
    and "\<exists>r. fs_ashr w v f g = Inr r \<and> fs_wf w r \<and> completes w r (bits_ashr w vf (bval vg))"
proof -
  have wf: "bits_wf w vf" and at: "\<And>i. i < w \<Longrightarrow> fs_at f i = L1 \<Longrightarrow> bit (bval vf) i" "\<And>i. i < w \<Longrightarrow> fs_at f i = L0 \<Longrightarrow> \<not> bit (bval vf) i"
    using f(2) by (auto simp: completes_iff)
  note pos = fs_wfD(4)[OF f(1)] and less = bits_wf_bit_less[OF wf]
  have known: "fs_isFullyKnown v g \<Longrightarrow> vg = fs_value g" using completes_fullyKnown[OF g(1) _ g(2)] .
  note L = fs_shift_lanes[OF f(1) g(1) w]
  show "\<exists>r. fs_shl w v f g = Inr r \<and> fs_wf w r \<and> completes w r (bits_shl w vf (bval vg))"
  proof (rule completes_yields[OF L(1)])
    fix i assume i: "i < w"
    show "(if fs_isFullyKnown v g then (if i < bval (fs_value g) then L0 else fs_at f (i - bval (fs_value g))) else LX) = L1 \<Longrightarrow> bit (bval (bits_shl w vf (bval vg))) i"
      "(if fs_isFullyKnown v g then (if i < bval (fs_value g) then L0 else fs_at f (i - bval (fs_value g))) else LX) = L0 \<Longrightarrow> \<not> bit (bval (bits_shl w vf (bval vg))) i"
      using at[of "i - bval vg"] i by (cases "fs_isFullyKnown v g"; cases "i < bval vg"; simp add: bit_shl[OF wf] known[symmetric])+
  qed (simp add: bits_wf_shl[OF wf])
  show "\<exists>r. fs_lshr w v f g = Inr r \<and> fs_wf w r \<and> completes w r (bits_lshr w vf (bval vg))"
  proof (cases "fs_isFullyKnown v g")
    case True
    then have vg: "bval (fs_value g) = bval vg" using known by simp
    show ?thesis
    proof (rule completes_yields[OF L(2)[unfolded vg if_P[OF True]]])
      show "(if i + bval vg < w then fs_at f (i + bval vg) else L0) = L1 \<Longrightarrow> bit (bval (bits_lshr w vf (bval vg))) i" for i
        using at(1) by (simp add: bit_lshr[OF wf] split: if_splits)
      show "(if i + bval vg < w then fs_at f (i + bval vg) else L0) = L0 \<Longrightarrow> \<not> bit (bval (bits_lshr w vf (bval vg))) i" for i
        unfolding bit_lshr[OF wf] using at(2) less by (metis (full_types))
    qed (simp add: bits_wf_lshr[OF wf])
  next
    case False
    show ?thesis by (rule completes_yields[OF L(2)[unfolded if_not_P[OF False]]]) (simp_all add: bits_wf_lshr[OF wf])
  qed
  show "\<exists>r. fs_ashr w v f g = Inr r \<and> fs_wf w r \<and> completes w r (bits_ashr w vf (bval vg))"
  proof (cases "fs_isFullyKnown v g")
    case True
    then have vg: "bval (fs_value g) = bval vg" using known by simp
    have b: "i < w \<Longrightarrow> bit (bval (bits_ashr w vf (bval vg))) i = bit (bval vf) (min (i + bval vg) (w - 1))" for i
      by (auto simp: bit_ashr[OF wf] min_def)
    show ?thesis
    proof (rule completes_yields[OF L(3)[unfolded vg if_P[OF True]]])
      show "i < w \<Longrightarrow> fs_at f (min (i + bval vg) (w - 1)) = L1 \<Longrightarrow> bit (bval (bits_ashr w vf (bval vg))) i" for i
        using b[of i] at(1)[of "min (i + bval vg) (w - 1)"] pos by simp
      show "i < w \<Longrightarrow> fs_at f (min (i + bval vg) (w - 1)) = L0 \<Longrightarrow> \<not> bit (bval (bits_ashr w vf (bval vg))) i" for i
        using b[of i] at(2)[of "min (i + bval vg) (w - 1)"] pos by simp
    qed (simp add: bits_wf_ashr[OF wf])
  next
    case False
    show ?thesis by (rule completes_yields[OF L(3)[unfolded if_not_P[OF False]]]) (simp_all add: bits_wf_ashr[OF wf])
  qed
qed

subsection \<open>Properties\<close>

text \<open>C27.  Each result bit of the bitwise operators is the Verilog truth table applied to the operand bits.  Each
  result bit of \<open>select\<close> is the bit of the chosen branch when the condition is known; otherwise it keeps a known bit
  or a Z that both branches share, and is X elsewhere.  The constructor never throws, and the result satisfies the class invariant.\<close>

theorem four_state_tables:
  assumes a: "fs_wf w a" and b: "fs_wf w b"
  shows "fs_yields w (fs_bit_not w a) (\<lambda>i. not4 (fs_at a i)) \<and>
    fs_yields w (fs_bit_and w a b) (\<lambda>i. and4 (fs_at a i) (fs_at b i)) \<and>
    fs_yields w (fs_bit_or w a b) (\<lambda>i. or4 (fs_at a i) (fs_at b i)) \<and>
    fs_yields w (fs_bit_xor w a b) (\<lambda>i. xor4 (fs_at a i) (fs_at b i)) \<and>
    fs_yields w (fs_select w c a b)
      (\<lambda>i. if fs_isFullyKnown 1 c then fs_at (if toBool (fs_value c) then a else b) i
           else merge4 (fs_at a i) (fs_at b i))"
  using fs_bitwise_tables[OF a b] fs_select_lanes[OF a b] by blast

theorem four_state_tables_witness:
  "fs_yields 4 (fs_bit_and 4 \<lparr>fs_value = [5], fs_knownMask = [7], fs_zMask = [8]\<rparr>
     \<lparr>fs_value = [3], fs_knownMask = [3], fs_zMask = [0]\<rparr>)
     (\<lambda>i. and4 (fs_at \<lparr>fs_value = [5], fs_knownMask = [7], fs_zMask = [8]\<rparr> i)
        (fs_at \<lparr>fs_value = [3], fs_knownMask = [3], fs_zMask = [0]\<rparr> i))"
proof -
  have "fs_wf 4 \<lparr>fs_value = [5], fs_knownMask = [7], fs_zMask = [8]\<rparr>"
    "fs_wf 4 \<lparr>fs_value = [3], fs_knownMask = [3], fs_zMask = [0]\<rparr>" by code_simp+
  from four_state_tables[OF this] show ?thesis by blast
qed

text \<open>C12.  Unknown bits are handled soundly: whatever binary values the operands stand for, the binary
  result of the operation is among the values the four-state result stands for.  This holds of the
  bitwise operators, of addition, subtraction, multiplication, division and remainder, of \<open>select\<close>, of
  the comparisons other than case equality, of concatenation, slices, zero extension, truncation, the three
  shifts, and of sign extension from a width that is not a multiple of 64.  Case equality is left out because it compares
  X and Z themselves, and sign extension from the other widths because it is not sound.\<close>

theorem four_state_sound:
  assumes a: "fs_wf w a" "completes w a va" and b: "fs_wf w b" "completes w b vb"
    and c: "fs_wf 1 c" "completes 1 c vc" and p: "p \<noteq> CASE_EQ"
    and g: "fs_wf v g" "completes v g vg" and out: "0 < outw" and w: "w \<le> 2 ^ 64"
  shows "(\<exists>r. fs_bit_not w a = Inr r \<and> completes w r (bits_not w va)) \<and>
    (\<exists>r. fs_bit_and w a b = Inr r \<and> completes w r (bits_and w va vb)) \<and>
    (\<exists>r. fs_bit_or w a b = Inr r \<and> completes w r (bits_or w va vb)) \<and>
    (\<exists>r. fs_bit_xor w a b = Inr r \<and> completes w r (bits_xor w va vb)) \<and>
    (\<exists>r. fs_select w c a b = Inr r \<and> completes w r (bits_mux vc va vb)) \<and>
    completes w (fs_add w a b) (bits_add w va vb) \<and> completes w (fs_sub w a b) (bits_sub w va vb) \<and>
    completes w (fs_mul w a b) (bits_mul w va vb) \<and> completes w (fs_udiv w a b) (bits_udiv w va vb) \<and>
    completes w (fs_urem w a b) (bits_urem w va vb) \<and>
    completes 1 (fs_compare p w a b) (bits_of_word 1 (if compare_rel p w va vb then 1 else 0)) \<and>
    (\<exists>r. fs_concat w v a g = Inr r \<and> completes (w + v) r (bits_concat2 w v va vg)) \<and>
    (\<exists>r. fs_extract outw w a low = Inr r \<and> completes outw r (bits_extract outw w va low)) \<and>
    (\<exists>r. fs_zero_extend (w + n) w a = Inr r \<and> completes (w + n) r (bits_zext (w + n) w va)) \<and>
    (outw \<le> w \<longrightarrow> (\<exists>r. fs_truncate outw w a = Inr r \<and> completes outw r (bits_trunc outw w va))) \<and>
    (w mod 64 \<noteq> 0 \<longrightarrow> (\<exists>r. fs_sign_extend (w + n) w a = Inr r \<and> completes (w + n) r (bits_sext (w + n) w va))) \<and>
    (\<exists>r. fs_shl w v a g = Inr r \<and> completes w r (bits_shl w va (bval vg))) \<and>
    (\<exists>r. fs_lshr w v a g = Inr r \<and> completes w r (bits_lshr w va (bval vg))) \<and>
    (\<exists>r. fs_ashr w v a g = Inr r \<and> completes w r (bits_ashr w va (bval vg)))"
  using fs_bitwise_complete[OF a(1) b(1) a(2) b(2)] fs_select_complete[OF a(1) b(1) c(1) a(2) b(2) c(2)]
    fs_arith_complete[OF a(1) b(1) a(2) b(2)] fs_compare_complete[OF a(1) b(1) a(2) b(2) p] fs_concat_complete[OF a g]
    fs_resize_complete(1)[OF a le_add1] fs_resize_complete(2)[OF a out] fs_resize_complete(3)[OF a le_add1] fs_resize_complete(4)[OF a out]
    fs_shift_complete[OF a g w] by blast

theorem four_state_sound_witness:
  "completes 4 \<lparr>fs_value = [5], fs_knownMask = [7], fs_zMask = [8]\<rparr> [5] \<and>
   completes 1 (fs_compare EQ 4 \<lparr>fs_value = [5], fs_knownMask = [7], fs_zMask = [8]\<rparr> (fs_known 4 [3]))
     (bits_of_word 1 (if compare_rel EQ 4 [5] [3] then 1 else 0)) \<and>
   (\<exists>r. fs_shl 4 4 \<lparr>fs_value = [5], fs_knownMask = [7], fs_zMask = [8]\<rparr> (fs_known 4 [3]) = Inr r \<and> completes 4 r (bits_shl 4 [5] (bval [3])))"
proof -
  have a: "fs_wf 4 \<lparr>fs_value = [5], fs_knownMask = [7], fs_zMask = [8]\<rparr>" by code_simp
  have va: "completes 4 \<lparr>fs_value = [5], fs_knownMask = [7], fs_zMask = [8]\<rparr> [5]"
    using completes_value[OF a] by simp
  have "bits_wf 4 [3]" "bits_wf 1 [1]" by code_simp+
  note k = fs_wf_known[OF this(1)] completes_known[OF this(1)] and c = fs_wf_known[OF this(2)] completes_known[OF this(2)]
  have e: "EQ \<noteq> CASE_EQ" "0 < (1 :: nat)" "4 \<le> (2 :: nat) ^ 64" by simp_all
  show ?thesis using va four_state_sound[OF a va k c e(1) k e(2,3)] by blast
qed

text \<open>C28.  Width changes, slices, concatenation and shifts move every logic value, X and Z included, to
  its place: vacated positions are zero (or the sign bit), an unknown amount makes the whole result
  unknown, and an amount of any width is bounded by the shifted width.\<close>

theorem four_state_structure:
  assumes f: "fs_wf w f" and g: "fs_wf v g" and out: "0 < outw" and w: "w \<le> 2 ^ 64"
  shows "fs_yields (w + v) (fs_concat w v f g) (\<lambda>i. if i < v then fs_at g i else fs_at f (i - v)) \<and>
    fs_yields outw (fs_extract outw w f low) (\<lambda>i. if low + outw \<le> w then fs_at f (i + low) else LX) \<and>
    fs_yields (w + n) (fs_zero_extend (w + n) w f) (\<lambda>i. if i < w then fs_at f i else L0) \<and>
    (outw \<le> w \<longrightarrow> fs_yields outw (fs_truncate outw w f) (fs_at f)) \<and>
    fs_yields w (fs_shl w v f g)
      (\<lambda>i. if fs_isFullyKnown v g
           then (if i < bval (fs_value g) then L0 else fs_at f (i - bval (fs_value g))) else LX) \<and>
    fs_yields w (fs_lshr w v f g)
      (\<lambda>i. if fs_isFullyKnown v g
           then (if i + bval (fs_value g) < w then fs_at f (i + bval (fs_value g)) else L0) else LX) \<and>
    fs_yields w (fs_ashr w v f g)
      (\<lambda>i. if fs_isFullyKnown v g then fs_at f (min (i + bval (fs_value g)) (w - 1)) else LX)"
  using fs_concat_lanes[OF f g] fs_resize_lanes(1)[OF f le_add1] fs_resize_lanes(2)[OF f out] fs_resize_lanes(4)[OF f out] fs_shift_lanes[OF f g w]
  by blast

theorem four_state_structure_witness:
  "fs_yields 4 (fs_shl 4 2 \<lparr>fs_value = [5], fs_knownMask = [7], fs_zMask = [8]\<rparr> (fs_known 2 [1]))
     (\<lambda>i. if i < 1 then L0 else fs_at \<lparr>fs_value = [5], fs_knownMask = [7], fs_zMask = [8]\<rparr> (i - 1)) \<and>
   fs_yields 2 (fs_truncate 2 4 \<lparr>fs_value = [5], fs_knownMask = [7], fs_zMask = [8]\<rparr>) (fs_at \<lparr>fs_value = [5], fs_knownMask = [7], fs_zMask = [8]\<rparr>)"
proof -
  have f: "fs_wf 4 \<lparr>fs_value = [5], fs_knownMask = [7], fs_zMask = [8]\<rparr>" by code_simp
  have g: "fs_wf 2 (fs_known 2 [1])" "fs_isFullyKnown 2 (fs_known 2 [1])" "fs_value (fs_known 2 [1]) = [1]"
    by code_simp+
  have v: "bval [1] = 1" by (simp add: bval.simps)
  show ?thesis using four_state_structure[OF f g(1), of 2 1 1] g(2) unfolding g(3) v by simp
qed

text \<open>C32.  \<open>assignSlice\<close> replaces exactly the addressed field, across word boundaries on either side,
  keeps every other bit and the class invariant, and leaves the value alone when the field does not fit.\<close>

theorem assign_slice:
  assumes "fs_wf w f" "fs_wf n s" "n \<le> w"
  shows "fs_wf w (fs_assignSlice w n f low s) \<and>
    (if low + n \<le> w
     then (\<forall>i. fs_at (fs_assignSlice w n f low s) i = (if low \<le> i \<and> i < low + n then fs_at s (i - low) else fs_at f i))
     else fs_assignSlice w n f low s = f)"
  using fs_assignSlice_lanes[OF assms] by (simp add: not_le)

theorem assign_slice_witness:
  "fs_at (fs_assignSlice 70 8 (fs_unknown 70) 60 (fs_known 8 [255])) 67 = L1"
proof -
  have "fs_wf 70 (fs_unknown 70)" "fs_wf 8 (fs_known 8 [255])" by code_simp+
  moreover have "fs_at (fs_known 8 [255]) 7 = L1"
    by (subst fs_at_known) (simp_all add: bits_eval bval.simps bit_iff_odd)
  ultimately show ?thesis using assign_slice[of 70 "fs_unknown 70" 8 "fs_known 8 [255]" 60] by simp
qed

text \<open>Case equality is always a known bit, and it is one exactly when the operands agree in every
  position, X and Z included.\<close>

theorem case_equality:
  assumes "fs_wf w a" "fs_wf w b"
  shows "fs_isFullyKnown 1 (fs_compare CASE_EQ w a b) \<and>
    fs_compare CASE_EQ w a b = fs_bool (\<forall>i<w. fs_at a i = fs_at b i)"
  using fs_parityEquivalent_iff[OF assms] fs_bool(3) by (simp add: fs_compare_def)

theorem case_equality_witness:
  "fs_wf 4 (fs_unknown 4) \<and> fs_compare CASE_EQ 4 (fs_unknown 4) (fs_unknown 4) = fs_bool True"
proof -
  have "fs_wf 4 (fs_unknown 4)" by code_simp
  then show ?thesis using case_equality[of 4 "fs_unknown 4" "fs_unknown 4"] by simp
qed

text \<open>C34.  Sign extension copies the sign position, known or not, when the input width is not a multiple of
  64.\<close>

theorem four_state_sign_extend:
  assumes "fs_wf inw f" "inw \<le> outw" "inw mod 64 \<noteq> 0"
  shows "fs_yields outw (fs_sign_extend outw inw f) (\<lambda>i. fs_at f (min i (inw - 1)))"
  using fs_resize_lanes(3)[OF assms] .

theorem four_state_sign_extend_witness:
  "fs_yields 6 (fs_sign_extend 6 4 \<lparr>fs_value = [5], fs_knownMask = [7], fs_zMask = [8]\<rparr>)
     (\<lambda>i. fs_at \<lparr>fs_value = [5], fs_knownMask = [7], fs_zMask = [8]\<rparr> (min i 3))"
proof -
  have "fs_wf 4 \<lparr>fs_value = [5], fs_knownMask = [7], fs_zMask = [8]\<rparr>" by code_simp
  then show ?thesis using four_state_sign_extend[of 4 _ 6] by simp
qed

text \<open>C40.  Sign extension from a width that is a multiple of 64 goes wrong whenever the sign bit is known: the known
  mask of the whole top word becomes ones.  If that word has a high-impedance bit, the constructor throws, out of a function
  declared \<^verbatim>\<open>noexcept\<close>; otherwise every unknown bit of that word silently becomes known.\<close>

theorem sign_extend_terminates:
  assumes "fs_wf w f" "w mod 64 = 0" "w \<le> outw" "fs_at f (w - 1) = L0 \<or> fs_at f (w - 1) = L1"
  shows "if \<exists>j. w - 64 \<le> j \<and> j < w \<and> fs_at f j = LZ
    then fs_sign_extend outw w f = Inl (InvalidArgument ''four-state masks require (known & z) == 0'')
    else \<exists>r. fs_sign_extend outw w f = Inr r \<and> (\<forall>j. w - 64 \<le> j \<and> j < w \<longrightarrow> fs_at r j = L0 \<or> fs_at r j = L1)"
proof -
  note f = assms(1) and le = assms(3)
  note wf = fs_wfD(1-4)[OF f] and ex = fs_wfD(5)[OF f]
  have neg: "bit (bval (fs_knownMask f)) (w - 1)" using assms(4) by (auto simp: fs_at_def split: if_splits)
  then have nz: "\<not> bit (bval (fs_zMask f)) (w - 1)" using ex by blast
  note k = bit_sext_aligned[OF wf(2) assms(2) le neg]
  have z: "bit (bval (bits_sext outw w (fs_zMask f))) i \<longleftrightarrow> bit (bval (fs_zMask f)) i" for i
    using bit_sext[OF wf(3) le, of i] nz bits_wf_bit_less[OF wf(3), of i] le by auto
  note s = bits_wf_sext[OF wf(4) le]
  show ?thesis
  proof (cases "\<exists>j. w - 64 \<le> j \<and> j < w \<and> fs_at f j = LZ")
    case True
    then obtain j where j: "w - 64 \<le> j" "j < w" "fs_at f j = LZ" by blast
    then have "bit (bval (fs_zMask f)) j" by (auto simp: fs_at_def split: if_splits)
    then have "fs_sign_extend outw w f = Inl (InvalidArgument ''four-state masks require (known & z) == 0'')"
      unfolding fs_sign_extend_def fs_fromMasks_def using j le by (intro fs_ctor_Inl[OF s s, of _ j]) (simp_all add: k z)
    then show ?thesis using True by simp
  next
    case False
    have "\<not> (bit (bval (bits_sext outw w (fs_knownMask f))) i \<and> bit (bval (bits_sext outw w (fs_zMask f))) i)" for i
    proof
      assume "bit (bval (bits_sext outw w (fs_knownMask f))) i \<and> bit (bval (bits_sext outw w (fs_zMask f))) i"
      then have "w - 64 \<le> i" "bit (bval (fs_zMask f)) i" using ex[of i] by (auto simp: k z)
      then show False using False ex[of i] bits_wf_bit_less[OF wf(3), of i] by (auto simp: fs_at_def)
    qed
    note c = fs_ctor_Inr[OF s s s this, of "fs_value f"]
    have "fs_at \<lparr>fs_value = bits_sext outw w (fs_value f), fs_knownMask = bits_sext outw w (fs_knownMask f), fs_zMask = bits_sext outw w (fs_zMask f)\<rparr> j = L0 \<or>
        fs_at \<lparr>fs_value = bits_sext outw w (fs_value f), fs_knownMask = bits_sext outw w (fs_knownMask f), fs_zMask = bits_sext outw w (fs_zMask f)\<rparr> j = L1"
      if "w - 64 \<le> j \<and> j < w" for j using that le by (simp add: fs_at_def k)
    then show ?thesis using False c(1) by (simp add: fs_sign_extend_def fs_fromMasks_def)
  qed
qed

theorem sign_extend_terminates_witness:
  "fs_sign_extend 128 64 \<lparr>fs_value = [0], fs_knownMask = [0x8000000000000000], fs_zMask = [1]\<rparr>
     = Inl (InvalidArgument ''four-state masks require (known & z) == 0'')"
proof -
  let ?f = "\<lparr>fs_value = [0], fs_knownMask = [0x8000000000000000], fs_zMask = [1]\<rparr> :: four_state"
  have wf: "fs_wf 64 ?f" by code_simp
  have "fs_at ?f 63 = L0" "fs_at ?f 0 = LZ" by (simp_all add: fs_at_def bval.simps bit_iff_odd)
  then show ?thesis using sign_extend_terminates[OF wf, of 128] by (simp; metis zero_less_numeral)
qed

end
