(* ===== verification/Gfsim_Wire.thy ===== *)
theory Gfsim_Wire
  imports Gfsim_FourState
begin

text \<open>
  Hardware payload layouts and the wires of \<^verbatim>\<open>include/gfsim/wire.h\<close>.  A payload type is a
  \<open>hw\<close> (a \<^verbatim>\<open>Bits\<close>, a \<^verbatim>\<open>table\<close> with its extents, or a struct with its ordered members), a payload is
  an \<open>hval\<close>, and \<open>hval_ok\<close> says that it is one of that type.  \<open>hw_ok\<close> is the conjunction of the
  static assertions a type has to pass.  The template recursion of \<^verbatim>\<open>hardware_traits\<close> is the
  recursion of \<open>hw_pack\<close> and \<open>hw_unpack\<close>.

  A scalar \<^verbatim>\<open>wire<T>\<close> is its packed four-state value; the \<^verbatim>\<open>wire<table<...>>\<close> specialisation is the
  list of its element wires.  The lemmas show that packing stacks the fields without overlap, first
  field on top, and that unpacking, or splitting a packed table, gives the payload back.
\<close>

subsection \<open>Payload types\<close>

datatype hw = HBits nat | HTable hw "nat list" | HStruct "hw list"

datatype hval = VBits bits | VTable "hval list" | VStruct "hval list"

fun tp_leaf_type :: "hw \<Rightarrow> hw" where
  "tp_leaf_type (HTable t es) = tp_leaf_type t"
| "tp_leaf_type t = t"

fun tp_rank :: "hw \<Rightarrow> nat" where
  "tp_rank (HTable t es) = length es + tp_rank t"
| "tp_rank t = 0"

fun tp_shape :: "hw \<Rightarrow> nat list" where
  "tp_shape (HTable t es) = es @ tp_shape t"
| "tp_shape t = []"

fun tp_count :: "nat \<Rightarrow> nat list \<Rightarrow> nat" where
  "tp_count count [] = count"
| "tp_count count (extent # es) =
     (if extent = 0 \<or> count > (2 ^ 63 - 1) div extent then 0 else tp_count (count * extent) es)"

fun tp_size :: "hw \<Rightarrow> nat" where
  "tp_size (HTable t es) = tp_count (tp_size t) es"
| "tp_size t = 1"

lemma size_tp_leaf_type: "size (tp_leaf_type t) \<le> size t"
  by (induction t rule: tp_leaf_type.induct) auto

function hw_width :: "hw \<Rightarrow> nat" where
  "hw_width (HBits w) = w"
| "hw_width (HTable t es) = tp_size (HTable t es) * hw_width (tp_leaf_type t)"
| "hw_width (HStruct fs) = sum_list (map hw_width fs)"
  by pat_completeness auto
termination
  by (relation "measure size")
    (auto simp: size_tp_leaf_type less_Suc_eq_le size_list_estimation' intro: trans_le_add1 le_trans[OF size_tp_leaf_type])

lemma hw_size_less [termination_simp]:
  "size (tp_leaf_type t) < size (HTable t es)" "t \<in> set fs \<Longrightarrow> size t < size (HStruct fs)"
  using size_tp_leaf_type[of t] by (auto simp: less_Suc_eq_le size_list_estimation')

function hw_ok :: "hw \<Rightarrow> bool" where
  "hw_ok (HBits w) \<longleftrightarrow> 0 < w"
| "hw_ok (HTable t es) \<longleftrightarrow> es \<noteq> [] \<and> list_all (\<lambda>e. 0 < e) es \<and> 0 < tp_size (HTable t es) \<and> hw_ok (tp_leaf_type t) \<and>
     tp_size (HTable t es) \<le> (2 ^ 32 - 1) div hw_width (tp_leaf_type t)"
| "hw_ok (HStruct fs) \<longleftrightarrow> list_all hw_ok fs \<and> 0 < hw_width (HStruct fs) \<and> hw_width (HStruct fs) \<le> 2 ^ 32 - 1"
  by pat_completeness auto
termination by (relation "measure size") (auto simp: hw_size_less simp del: hw.size)

function hval_ok :: "hw \<Rightarrow> hval \<Rightarrow> bool" where
  "hval_ok (HBits w) v \<longleftrightarrow> (case v of VBits b \<Rightarrow> bits_wf w b | _ \<Rightarrow> False)"
| "hval_ok (HTable t es) v \<longleftrightarrow>
     (case v of VTable xs \<Rightarrow> length xs = tp_size (HTable t es) \<and> list_all (\<lambda>x. hval_ok (tp_leaf_type t) x) xs | _ \<Rightarrow> False)"
| "hval_ok (HStruct fs) v \<longleftrightarrow>
     (case v of VStruct xs \<Rightarrow> length xs = length fs \<and> list_all (\<lambda>(t, x). hval_ok t x) (zip fs xs) | _ \<Rightarrow> False)"
  by pat_completeness auto
termination by (relation "measure (\<lambda>(t, v). size t)") (auto simp: hw_size_less simp del: hw.size dest!: set_zip_leftD)

subsection \<open>Packing and unpacking\<close>

definition lane_put :: "nat \<Rightarrow> nat \<Rightarrow> bits \<Rightarrow> nat \<Rightarrow> bits \<Rightarrow> bits" where
  "lane_put w fw b offset result = bits_or w result (bits_shl w (bits_zext w fw b) offset)"

definition pack_elements :: "nat \<Rightarrow> nat \<Rightarrow> nat \<Rightarrow> (nat \<Rightarrow> bits) \<Rightarrow> bits" where
  "pack_elements w n ew element =
     fold (\<lambda>ordinal result. let offset = (n - 1 - ordinal) * ew in lane_put w ew (element ordinal) offset result)
       [0..<n] (bits_default w)"

fun pack_fields :: "nat \<Rightarrow> nat \<Rightarrow> (nat \<times> bits) list \<Rightarrow> bits \<Rightarrow> bits" where
  "pack_fields w offset [] result = result"
| "pack_fields w offset ((fw, b) # fs) result =
     (let offset = offset - fw in pack_fields w offset fs (lane_put w fw b offset result))"

fun field_offsets :: "nat \<Rightarrow> nat list \<Rightarrow> nat list" where
  "field_offsets offset [] = []"
| "field_offsets offset (fw # ws) = (let offset = offset - fw in offset # field_offsets offset ws)"

function hw_pack :: "hw \<Rightarrow> hval \<Rightarrow> bits" where
  "hw_pack (HBits w) v = (case v of VBits b \<Rightarrow> b | _ \<Rightarrow> [])"
| "hw_pack (HTable t es) v =
     (case v of VTable xs \<Rightarrow>
        let e = tp_leaf_type t
        in pack_elements (hw_width (HTable t es)) (tp_size (HTable t es)) (hw_width e) (\<lambda>ordinal. hw_pack e (xs ! ordinal))
      | _ \<Rightarrow> [])"
| "hw_pack (HStruct fs) v =
     (case v of VStruct xs \<Rightarrow>
        let w = hw_width (HStruct fs)
        in pack_fields w w (map (\<lambda>(t, x). (hw_width t, hw_pack t x)) (zip fs xs)) (bits_default w)
      | _ \<Rightarrow> [])"
  by pat_completeness auto
termination by (relation "measure (\<lambda>(t, v). size t)") (auto simp: hw_size_less simp del: hw.size dest!: set_zip_leftD)

function hw_unpack :: "hw \<Rightarrow> bits \<Rightarrow> hval" where
  "hw_unpack (HBits w) b = VBits b"
| "hw_unpack (HTable t es) b =
     (let w = hw_width (HTable t es); n = tp_size (HTable t es); e = tp_leaf_type t; ew = hw_width e
      in VTable (map (\<lambda>ordinal. hw_unpack e (bits_extract ew w b ((n - 1 - ordinal) * ew))) [0..<n]))"
| "hw_unpack (HStruct fs) b =
     (let w = hw_width (HStruct fs)
      in VStruct (map (\<lambda>(t, offset). hw_unpack t (bits_extract (hw_width t) w b offset))
           (zip fs (field_offsets w (map hw_width fs)))))"
  by pat_completeness auto
termination by (relation "measure (\<lambda>(t, v). size t)") (auto simp: hw_size_less simp del: hw.size dest!: set_zip_leftD)

subsection \<open>Wires\<close>

definition wire_unknown :: "hw \<Rightarrow> four_state" where
  "wire_unknown t = fs_unknown (hw_width t)"

definition wire_known :: "hw \<Rightarrow> hval \<Rightarrow> four_state" where
  "wire_known t v = fs_known (hw_width t) (hw_pack t v)"

definition wire_isFullyKnown :: "hw \<Rightarrow> four_state \<Rightarrow> bool" where
  "wire_isFullyKnown t f = fs_isFullyKnown (hw_width t) f"

definition wire_value :: "hw \<Rightarrow> four_state \<Rightarrow> hval" where
  "wire_value t f = hw_unpack t (fs_value f)"

definition wire_assignSlice :: "hw \<Rightarrow> nat \<Rightarrow> four_state \<Rightarrow> nat \<Rightarrow> four_state \<Rightarrow> four_state" where
  "wire_assignSlice t n f low v = fs_assignSlice (hw_width t) n f low v"

fun collect :: "(exn + 'a) list \<Rightarrow> exn + 'a list" where
  "collect [] = Inr []"
| "collect (x # xs) = (case x of Inl e \<Rightarrow> Inl e | Inr y \<Rightarrow> (case collect xs of Inl e \<Rightarrow> Inl e | Inr ys \<Rightarrow> Inr (y # ys)))"

definition table_unknown :: "hw \<Rightarrow> four_state list" where
  "table_unknown t = replicate (tp_size t) (wire_unknown (tp_leaf_type t))"

definition table_known :: "hw \<Rightarrow> hval list \<Rightarrow> four_state list" where
  "table_known t xs = map (\<lambda>i. wire_known (tp_leaf_type t) (xs ! i)) [0..<tp_size t]"

definition table_fromPacked :: "hw \<Rightarrow> four_state \<Rightarrow> exn + four_state list" where
  "table_fromPacked t f =
     (let ew = hw_width (tp_leaf_type t); n = tp_size t
      in collect (map (\<lambda>i. fs_extract ew (hw_width t) f ((n - 1 - i) * ew)) [0..<n]))"

definition table_isFullyKnown :: "hw \<Rightarrow> four_state list \<Rightarrow> bool" where
  "table_isFullyKnown t es = list_all (wire_isFullyKnown (tp_leaf_type t)) es"

definition table_value :: "hw \<Rightarrow> four_state list \<Rightarrow> hval list" where
  "table_value t es = map (\<lambda>i. wire_value (tp_leaf_type t) (es ! i)) [0..<tp_size t]"

definition table_packed :: "hw \<Rightarrow> four_state list \<Rightarrow> exn + four_state" where
  "table_packed t es =
     (let w = hw_width t; ew = hw_width (tp_leaf_type t); n = tp_size t
      in fs_fromMasks w (pack_elements w n ew (\<lambda>i. fs_value (es ! i)))
           (pack_elements w n ew (\<lambda>i. fs_knownMask (es ! i))) (pack_elements w n ew (\<lambda>i. fs_zMask (es ! i))))"

subsection \<open>Stacked lanes\<close>

text \<open>A packing loop writes lanes (offset, width, bits).  They are \<open>stacked\<close> below \<open>tp\<close> when each lane starts
  where the next one ends.\<close>

fun stacked :: "(nat \<times> nat \<times> bits) list \<Rightarrow> nat \<Rightarrow> bool" where
  "stacked [] tp \<longleftrightarrow> tp = 0"
| "stacked ((off, fw, b) # ls) tp \<longleftrightarrow> off + fw = tp \<and> bits_wf fw b \<and> stacked ls off"

definition put_lanes :: "nat \<Rightarrow> (nat \<times> nat \<times> bits) list \<Rightarrow> bits \<Rightarrow> bits" where
  "put_lanes w ls r = fold (\<lambda>(off, fw, b). lane_put w fw b off) ls r"

lemma pack_elements_lanes:
  "pack_elements w n ew f = put_lanes w (map (\<lambda>k. ((n - 1 - k) * ew, ew, f k)) [0..<n]) (bits_default w)"
  by (simp add: pack_elements_def put_lanes_def fold_map o_def Let_def)

lemma pack_fields_lanes:
  "pack_fields w off fs r =
     put_lanes w (map (\<lambda>(o', (fw, b)). (o', fw, b)) (zip (field_offsets off (map fst fs)) fs)) r"
  by (induction w off fs r rule: pack_fields.induct) (simp_all add: put_lanes_def Let_def)

lemma bits_wf_lane_put: "0 < w \<Longrightarrow> bits_wf w (lane_put w fw b off r)"
  by (simp add: lane_put_def bits_wf_bitwise)

lemma bit_lane_put:
  assumes r: "bits_wf w r" and b: "bits_wf fw b" and fit: "off + fw \<le> w"
  shows "bit (bval (lane_put w fw b off r)) i \<longleftrightarrow> bit (bval r) i \<or> off \<le> i \<and> bit (bval b) (i - off)"
proof -
  note pos = bits_wf_pos[OF r]
  have z: "bits_wf w (bits_zext w fw b)" using pos by (rule bits_wf_zext)
  have "i < w" if "off \<le> i" "bit (bval b) (i - off)" using bits_wf_bit_less[OF b that(2)] that(1) fit by linarith
  then show ?thesis unfolding lane_put_def bit_bitwise(2)[OF r bits_wf_shl[OF z]] bit_shl[OF z]
    using bit_zext[OF b, of w] fit by auto
qed

lemma bits_wf_put_lanes: "bits_wf w r \<Longrightarrow> bits_wf w (put_lanes w ls r)"
  unfolding put_lanes_def by (induction ls arbitrary: r) (auto intro!: bits_wf_lane_put dest: bits_wf_pos)

lemma stacked_le: "stacked ls tp \<Longrightarrow> (off, fw, b) \<in> set ls \<Longrightarrow> off + fw \<le> tp \<and> bits_wf fw b"
  by (induction ls tp rule: stacked.induct) force+

lemma bit_put_lanes:
  assumes "stacked ls tp" "tp \<le> w" "bits_wf w r"
  shows "bit (bval (put_lanes w ls r)) i \<longleftrightarrow>
    bit (bval r) i \<or> (\<exists>(off, fw, b)\<in>set ls. off \<le> i \<and> bit (bval b) (i - off))"
  using assms
proof (induction ls tp arbitrary: r rule: stacked.induct)
  case (2 off fw b ls tp)
  then have "off + fw \<le> w" "bits_wf fw b" by auto
  note p = bit_lane_put[OF "2.prems"(3) this(2,1)]
  have "bits_wf w (lane_put w fw b off r)" using bits_wf_pos[OF "2.prems"(3)] by (rule bits_wf_lane_put)
  from "2.IH"[OF _ _ this] "2.prems" show ?case by (auto simp: put_lanes_def p)
qed (simp add: put_lanes_def)

lemma stacked_bit:
  assumes "stacked ls tp" "(off, fw, b) \<in> set ls" "j < fw"
  shows "(\<exists>(o', fw', b')\<in>set ls. o' \<le> off + j \<and> bit (bval b') (off + j - o')) \<longleftrightarrow> bit (bval b) j"
  using assms
proof (induction ls tp rule: stacked.induct)
  case (2 o1 w1 b1 ls tp)
  from "2.prems" have st: "stacked ls o1" and wf1: "bits_wf w1 b1" by auto
  have low: "\<not> bit (bval b') (i - o')" if "(o', fw', b') \<in> set ls" "o1 \<le> i" for o' fw' b' i
    using stacked_le[OF st that(1)] that(2) bits_wf_bit_less[of fw' b' "i - o'"] by fastforce
  show ?case
  proof (cases "(off, fw, b) \<in> set ls")
    case True
    then have "off + j < o1" using stacked_le[OF st True] "2.prems"(3) by linarith
    then show ?thesis using "2.IH"[OF st True "2.prems"(3)] by auto
  next
    case False
    then have "off = o1" "fw = w1" "b = b1" using "2.prems"(2) by auto
    then show ?thesis using low[of _ _ _ "o1 + j"] by auto
  qed
qed simp

lemma extract_lane:
  assumes st: "stacked ls w" and mem: "(off, fw, b) \<in> set ls" and w: "0 < w"
  shows "bits_extract fw w (put_lanes w ls (bits_default w)) off = b"
proof -
  have b: "off + fw \<le> w" "bits_wf fw b" using stacked_le[OF st mem] by auto
  note pos = bits_wf_pos[OF b(2)] and d = bits_wf_default[OF w]
  note wf = bits_wf_put_lanes[OF d, of ls]
  show ?thesis
  proof (rule bits_eqI[OF bits_wf_extract[OF pos] b(2)], rule bit_eqI)
    fix j
    show "bit (bval (bits_extract fw w (put_lanes w ls (bits_default w)) off)) j = bit (bval b) j"
      unfolding bit_extract[OF wf pos] bit_put_lanes[OF st le_refl d]
      using stacked_bit[OF st mem, of j] bits_wf_bit_less[OF b(2), of j] by (auto simp: bval_default add.commute)
  qed
qed

text \<open>The packed number, first lane most significant.\<close>

fun lanes_val :: "(nat \<times> nat \<times> bits) list \<Rightarrow> nat" where
  "lanes_val [] = 0"
| "lanes_val ((off, fw, b) # ls) = bval b * 2 ^ off + lanes_val ls"

lemma lanes_val_concat: "stacked ls tp \<Longrightarrow> lanes_val ls = concat_val (map snd ls) \<and> tp = SumWidth (map (fst \<circ> snd) ls)"
  by (induction ls tp rule: stacked.induct) (auto simp: o_def)

lemma bval_lane_put:
  assumes r: "bits_wf w r" and b: "bits_wf fw b" and fit: "off + fw \<le> w" and d: "2 ^ (off + fw) dvd bval r"
  shows "bval (lane_put w fw b off r) = bval r + bval b * 2 ^ off"
proof -
  have high: "\<not> bit (bval r) i" if "i < off + fw" for i
    using d that by (metis bit_take_bit_iff dvd_imp_mod_0 take_bit_eq_mod bit_0_eq bot_apply bot_bool_def)
  have disj: "bval r AND push_bit off (bval b) = 0"
  proof (rule bit_eqI)
    fix i show "bit (bval r AND push_bit off (bval b)) i = bit 0 i"
      using high[of i] bits_wf_bit_less[OF b, of "i - off"]
      by (auto simp: bit_and_iff bit_push_bit_iff less_diff_conv2 add.commute)
  qed
  have "bval (lane_put w fw b off r) = bval r OR push_bit off (bval b)"
    by (rule bit_eqI) (simp add: bit_lane_put[OF r b fit] bit_or_iff bit_push_bit_iff)
  then show ?thesis using disjunctive_add_eq_or[OF disj] by (simp add: push_bit_eq_mult)
qed

lemma bval_put_lanes:
  assumes "stacked ls tp" "tp \<le> w" "bits_wf w r" "2 ^ tp dvd bval r"
  shows "bval (put_lanes w ls r) = bval r + lanes_val ls"
  using assms
proof (induction ls tp arbitrary: r rule: stacked.induct)
  case (2 off fw b ls tp)
  then have l: "bits_wf fw b" "off + fw \<le> w" "2 ^ (off + fw) dvd bval r" by auto
  note v = bval_lane_put[OF "2.prems"(3) l]
  have "2 ^ off dvd bval (lane_put w fw b off r)"
    using l(3) unfolding v by (intro dvd_add) (auto simp: power_add dest: dvd_mult_left)
  moreover have "bits_wf w (lane_put w fw b off r)" using bits_wf_pos[OF "2.prems"(3)] by (rule bits_wf_lane_put)
  ultimately show ?case using "2.IH"[of "lane_put w fw b off r"] "2.prems" by (simp add: put_lanes_def v)
qed (simp add: put_lanes_def)

lemma stacked_elements:
  assumes "\<And>k. k < n \<Longrightarrow> bits_wf ew (f k)"
  shows "m \<le> n \<Longrightarrow> stacked (map (\<lambda>k. ((n - 1 - k) * ew, ew, f k)) [m..<n]) ((n - m) * ew)"
proof (induction "n - m" arbitrary: m)
  case (Suc d)
  then have m: "m < n" and eq: "[m..<n] = m # [Suc m..<n]" by (auto simp: upt_conv_Cons)
  have "n - m = Suc (n - 1 - m)" using m by simp
  moreover have "stacked (map (\<lambda>k. ((n - 1 - k) * ew, ew, f k)) [Suc m..<n]) ((n - Suc m) * ew)"
    using Suc by (intro Suc.hyps(1)) auto
  ultimately show ?case using assms[OF m] unfolding eq by simp
qed simp

lemma length_field_offsets [simp]: "length (field_offsets off ws) = length ws"
  by (induction off ws rule: field_offsets.induct) (simp_all add: Let_def)

lemma stacked_fields:
  "list_all (\<lambda>(fw, b). bits_wf fw b) fs \<Longrightarrow> off = sum_list (map fst fs) \<Longrightarrow>
   stacked (map (\<lambda>(o', (fw, b)). (o', fw, b)) (zip (field_offsets off (map fst fs)) fs)) off"
  by (induction fs arbitrary: off) (auto simp: Let_def)

subsection \<open>Round trip of the layouts\<close>

lemma tp_size_leaf [simp]: "tp_size (tp_leaf_type t) = 1" "tp_leaf_type (tp_leaf_type t) = tp_leaf_type t"
  by (induction t rule: tp_leaf_type.induct) auto

lemma hw_ok_width_pos: "hw_ok t \<Longrightarrow> 0 < hw_width t"
  by (induction t rule: hw_ok.induct) auto

declare hw_width.simps(3) [simp del]

lemma zip_eq_map: "length xs = length ys \<Longrightarrow> (\<And>i. i < length xs \<Longrightarrow> f (xs ! i) (ys ! i) = zs ! i) \<Longrightarrow> length zs = length xs \<Longrightarrow>
    map (\<lambda>(x, y). f x y) (zip xs ys) = zs"
  by (rule nth_equalityI) auto

lemma hw_pack_correct:
  "hw_ok t \<Longrightarrow> hval_ok t v \<Longrightarrow> bits_wf (hw_width t) (hw_pack t v) \<and> hw_unpack t (hw_pack t v) = v"
proof (induction t arbitrary: v rule: hw_ok.induct)
  case (1 w)
  then show ?case by (cases v) auto
next
  case (2 t es)
  define n e ew where "n = tp_size (HTable t es)" and "e = tp_leaf_type t" and "ew = hw_width e"
  have W: "hw_width (HTable t es) = n * ew" by (simp add: n_def ew_def e_def)
  have ok: "hw_ok e" "0 < n" using "2.prems"(1) by (auto simp: e_def n_def)
  then have w: "0 < n * ew" using hw_ok_width_pos[OF ok(1)] by (simp add: ew_def)
  obtain xs where v: "v = VTable xs" and xs: "length xs = n" "\<And>k. k < n \<Longrightarrow> hval_ok e (xs ! k)"
    using "2.prems"(2) by (cases v) (auto simp: n_def e_def list_all_length)
  have IH: "bits_wf ew (hw_pack e (xs ! k))" "hw_unpack e (hw_pack e (xs ! k)) = xs ! k" if "k < n" for k
    using "2.IH"[of "xs ! k"] ok xs(2)[OF that] by (auto simp: e_def ew_def)
  define L where "L = map (\<lambda>k. ((n - 1 - k) * ew, ew, hw_pack e (xs ! k))) [0..<n]"
  have st: "stacked L (n * ew)" using stacked_elements[of n ew "\<lambda>k. hw_pack e (xs ! k)" 0] IH(1) by (simp add: L_def)
  have P: "hw_pack (HTable t es) v = put_lanes (n * ew) L (bits_default (n * ew))"
    unfolding v hw_pack.simps hval.case Let_def W pack_elements_lanes L_def n_def e_def ew_def ..
  have "bits_extract ew (n * ew) (hw_pack (HTable t es) v) ((n - 1 - k) * ew) = hw_pack e (xs ! k)" if "k < n" for k
    unfolding P by (rule extract_lane[OF st _ w]) (use that in \<open>auto simp: L_def\<close>)
  then have "hw_unpack (HTable t es) (hw_pack (HTable t es) v) = VTable (map (\<lambda>k. xs ! k) [0..<n])"
    using IH(2) by (simp add: Let_def W n_def[symmetric] e_def[symmetric] ew_def[symmetric] del: hw_width.simps tp_size.simps hw_pack.simps)
  also have "map (\<lambda>k. xs ! k) [0..<n] = xs" using xs(1) map_nth by blast
  finally show ?case unfolding W P using bits_wf_put_lanes[OF bits_wf_default[OF w]] P v by simp
next
  case (3 fs)
  define w where "w = hw_width (HStruct fs)"
  have w: "0 < w" "w = sum_list (map hw_width fs)" using "3.prems"(1) by (auto simp: w_def hw_width.simps(3))
  obtain xs where v: "v = VStruct xs" and len: "length xs = length fs" and xs: "\<And>k. k < length fs \<Longrightarrow> hval_ok (fs ! k) (xs ! k)"
    using "3.prems"(2) by (cases v) (auto simp: list_all_length)
  have IH: "bits_wf (hw_width (fs ! k)) (hw_pack (fs ! k) (xs ! k))" "hw_unpack (fs ! k) (hw_pack (fs ! k) (xs ! k)) = xs ! k"
    if "k < length fs" for k
    using "3.IH"[OF nth_mem[OF that], of "xs ! k"] "3.prems"(1) xs[OF that] that by (auto simp: list_all_length)
  define F where "F = map (\<lambda>(t, x). (hw_width t, hw_pack t x)) (zip fs xs)"
  have fst: "map fst F = map hw_width fs" using len by (auto simp: F_def o_def case_prod_beta map_zip_map[symmetric] intro!: nth_equalityI)
  define L where "L = map (\<lambda>(o', (fw, b)). (o', fw, b)) (zip (field_offsets w (map fst F)) F)"
  have st: "stacked L w" unfolding L_def
    by (rule stacked_fields) (use IH(1) len w(2) fst in \<open>auto simp: F_def list_all_length\<close>)
  have P: "hw_pack (HStruct fs) v = put_lanes w L (bits_default w)"
    unfolding v hw_pack.simps hval.case Let_def w_def[symmetric] F_def[symmetric] pack_fields_lanes L_def ..
  have ext: "bits_extract (hw_width (fs ! k)) w (hw_pack (HStruct fs) v) (field_offsets w (map hw_width fs) ! k) = hw_pack (fs ! k) (xs ! k)"
    if "k < length fs" for k
    unfolding P
  proof (rule extract_lane[OF st _ w(1)])
    have "L ! k = (field_offsets w (map hw_width fs) ! k, hw_width (fs ! k), hw_pack (fs ! k) (xs ! k))"
      unfolding L_def fst using that len by (simp add: F_def)
    moreover have "k < length L" using that len by (simp add: L_def F_def)
    ultimately show "(field_offsets w (map hw_width fs) ! k, hw_width (fs ! k), hw_pack (fs ! k) (xs ! k)) \<in> set L" by (metis nth_mem)
  qed
  have "hw_unpack (HStruct fs) (hw_pack (HStruct fs) v) = VStruct xs"
    unfolding hw_unpack.simps Let_def w_def[symmetric]
    by (intro arg_cong[of _ _ VStruct] zip_eq_map) (use ext IH(2) len in auto)
  then show ?case unfolding w_def[symmetric] P using bits_wf_put_lanes[OF bits_wf_default[OF w(1)]] P v by simp
qed

subsection \<open>Table wires\<close>

lemma stacked_pack_elements:
  assumes "\<And>k. k < n \<Longrightarrow> bits_wf ew (f k)"
  shows "stacked (map (\<lambda>k. ((n - 1 - k) * ew, ew, f k)) [0..<n]) (n * ew)"
  using stacked_elements[of n ew f 0] assms by simp

lemma bits_wf_pack_elements: "0 < w \<Longrightarrow> bits_wf w (pack_elements w n ew f)"
  unfolding pack_elements_lanes by (intro bits_wf_put_lanes bits_wf_default)

lemma bit_pack_elements:
  assumes f: "\<And>k. k < n \<Longrightarrow> bits_wf ew (f k)" and i: "i < n * ew"
  shows "bit (bval (pack_elements (n * ew) n ew f)) i \<longleftrightarrow> bit (bval (f (n - 1 - i div ew))) (i mod ew)"
proof -
  have ew: "0 < ew" using i by (cases ew) auto
  have w: "0 < n * ew" using i by linarith
  have q: "i div ew < n" using i by (simp add: less_mult_imp_div_less)
  let ?L = "map (\<lambda>k. ((n - 1 - k) * ew, ew, f k)) [0..<n]"
  have "n - 1 - (n - 1 - i div ew) = i div ew" using q by simp
  then have mem: "(i div ew * ew, ew, f (n - 1 - i div ew)) \<in> set ?L"
    using q unfolding set_map by (intro image_eqI[of _ _ "n - 1 - i div ew"]) auto
  have "bit (bval (put_lanes (n * ew) ?L (bits_default (n * ew)))) (i div ew * ew + i mod ew) \<longleftrightarrow>
      bit (bval (f (n - 1 - i div ew))) (i mod ew)"
    using bit_put_lanes[OF stacked_pack_elements[OF f] le_refl bits_wf_default[OF w]]
      stacked_bit[OF stacked_pack_elements[OF f] mem, of "i mod ew"] ew by (simp add: bval_default)
  then show ?thesis unfolding pack_elements_lanes by simp
qed

lemma extract_pack_elements:
  assumes "\<And>k. k < n \<Longrightarrow> bits_wf ew (f k)" "k < n" "0 < n * ew"
  shows "bits_extract ew (n * ew) (pack_elements (n * ew) n ew f) ((n - 1 - k) * ew) = f k"
  unfolding pack_elements_lanes
  by (rule extract_lane[OF stacked_pack_elements[OF assms(1)]]) (use assms(2,3) in auto)

lemma pack_elements_extract:
  assumes f: "bits_wf (n * ew) b" and ew: "0 < ew"
  shows "pack_elements (n * ew) n ew (\<lambda>k. bits_extract ew (n * ew) b ((n - 1 - k) * ew)) = b"
proof (rule bits_eqI[of "n * ew"])
  note w = bits_wf_pos[OF f]
  show wf: "bits_wf (n * ew) (pack_elements (n * ew) n ew (\<lambda>k. bits_extract ew (n * ew) b ((n - 1 - k) * ew)))"
    using w by (rule bits_wf_pack_elements)
  show "bits_wf (n * ew) b" by fact
  show "bval (pack_elements (n * ew) n ew (\<lambda>k. bits_extract ew (n * ew) b ((n - 1 - k) * ew))) = bval b"
    unfolding nat_bit_eq_iff
  proof
    fix i
    show "bit (bval (pack_elements (n * ew) n ew (\<lambda>k. bits_extract ew (n * ew) b ((n - 1 - k) * ew)))) i = bit (bval b) i"
    proof (cases "i < n * ew")
      case True
      then have "i div ew < n" by (simp add: less_mult_imp_div_less)
      then have "i mod ew + (n - 1 - (n - 1 - i div ew)) * ew = i" using ew by simp
      moreover have "i mod ew < ew" using ew by simp
      ultimately show ?thesis
        using True by (subst bit_pack_elements[OF bits_wf_extract[OF ew] True]) (simp only: bit_extract[OF f ew], simp)
    next
      case False
      then show ?thesis using bits_wf_bit_less[OF wf, of i] bits_wf_bit_less[OF f, of i] by blast
    qed
  qed
qed

lemma collect_map: "(\<And>x. x \<in> set xs \<Longrightarrow> f x = Inr (g x)) \<Longrightarrow> collect (map f xs) = Inr (map g xs)"
  by (induction xs) auto

definition table_ok :: "hw \<Rightarrow> four_state list \<Rightarrow> bool" where
  "table_ok t es \<longleftrightarrow> length es = tp_size t \<and> list_all (fs_wf (hw_width (tp_leaf_type t))) es"

lemma table_widths:
  assumes "hw_ok (HTable u es)"
  shows "hw_width (HTable u es) = tp_size (HTable u es) * hw_width (tp_leaf_type (HTable u es))"
    "0 < hw_width (tp_leaf_type (HTable u es))" "0 < hw_width (HTable u es)"
  using assms hw_ok_width_pos[OF assms] hw_ok_width_pos[of "tp_leaf_type u"] by auto

lemma table_packed_fromPacked:
  assumes t: "hw_ok (HTable u xs)" and es: "table_ok (HTable u xs) es"
  defines "n \<equiv> tp_size (HTable u xs)" and "ew \<equiv> hw_width (tp_leaf_type u)"
  shows "\<exists>f. table_packed (HTable u xs) es = Inr f \<and> fs_wf (n * ew) f \<and>
    (\<forall>i < n * ew. fs_at f i = fs_at (es ! (n - 1 - i div ew)) (i mod ew)) \<and>
    table_fromPacked (HTable u xs) f = Inr es"
proof -
  have W: "hw_width (HTable u xs) = n * ew" "0 < ew" "0 < n * ew" and leaf: "tp_leaf_type (HTable u xs) = tp_leaf_type u"
    using table_widths[OF t] by (simp_all add: n_def ew_def)
  have len: "length es = n" and wf: "fs_wf ew (es ! k)" if "k < n" for k
    using es that by (auto simp: table_ok_def n_def ew_def list_all_length)
  note m = fs_wfD(1-3)[OF wf]
  define f where "f = \<lparr>fs_value = pack_elements (n * ew) n ew (\<lambda>i. fs_value (es ! i)),
    fs_knownMask = pack_elements (n * ew) n ew (\<lambda>i. fs_knownMask (es ! i)),
    fs_zMask = pack_elements (n * ew) n ew (\<lambda>i. fs_zMask (es ! i))\<rparr>"
  note pw = bits_wf_pack_elements[OF W(3)]
  have bits: "bit (bval (fs_value f)) i = bit (bval (fs_value (es ! (n - 1 - i div ew)))) (i mod ew)"
    "bit (bval (fs_knownMask f)) i = bit (bval (fs_knownMask (es ! (n - 1 - i div ew)))) (i mod ew)"
    "bit (bval (fs_zMask f)) i = bit (bval (fs_zMask (es ! (n - 1 - i div ew)))) (i mod ew)" if "i < n * ew" for i
    unfolding f_def using that m by (simp_all add: bit_pack_elements)
  have idx: "n - 1 - i div ew < n" if "i < n * ew" for i using that by (cases n) auto
  have "\<not> (bit (bval (fs_knownMask f)) i \<and> bit (bval (fs_zMask f)) i)" for i
    using bits[of i] fs_wfD(5)[OF wf[OF idx]] bits_wf_bit_less[OF pw[of n ew "\<lambda>i. fs_zMask (es ! i)"], of i]
    by (auto simp: f_def)
  then have c: "table_packed (HTable u xs) es = Inr f" "fs_wf (n * ew) f"
    unfolding table_packed_def Let_def fs_fromMasks_def W(1) leaf n_def[symmetric] ew_def[symmetric]
    using fs_ctor_Inr[OF pw pw pw] by (auto simp: f_def)
  have ex: "fs_extract ew (n * ew) f ((n - 1 - k) * ew) = Inr (es ! k)" if k: "k < n" for k
  proof -
    have "(n - 1 - k) * ew + ew \<le> n * ew" using mult_le_mono1[of "n - 1 - k + 1" n ew] k by (simp add: algebra_simps)
    then have fit: "\<not> (ew > n * ew \<or> (n - 1 - k) * ew > n * ew - ew)" by linarith
    have e: "bits_extract ew (n * ew) (fs_value f) ((n - 1 - k) * ew) = fs_value (es ! k)"
      "bits_extract ew (n * ew) (fs_knownMask f) ((n - 1 - k) * ew) = fs_knownMask (es ! k)"
      "bits_extract ew (n * ew) (fs_zMask f) ((n - 1 - k) * ew) = fs_zMask (es ! k)"
      unfolding f_def using extract_pack_elements[OF _ k W(3)] m by simp_all
    show ?thesis unfolding fs_extract_def if_not_P[OF fit] fs_fromMasks_def e
      using fs_ctor_Inr(1)[OF m[OF k]] fs_wfD(5)[OF wf[OF k]] by simp
  qed
  have "table_fromPacked (HTable u xs) f = Inr (map (\<lambda>k. es ! k) [0..<n])"
    unfolding table_fromPacked_def Let_def W(1) leaf n_def[symmetric] ew_def[symmetric]
    by (rule collect_map, rule ex) simp
  moreover have "map (\<lambda>k. es ! k) [0..<n] = es" using es map_nth[of es] by (simp add: table_ok_def n_def)
  ultimately show ?thesis using c bits by (auto simp: fs_at_def)
qed

lemma fs_extract_Inr:
  assumes f: "fs_wf w f" and fit: "off + ew \<le> w" and ew: "0 < ew"
  defines "g \<equiv> \<lparr>fs_value = bits_extract ew w (fs_value f) off, fs_knownMask = bits_extract ew w (fs_knownMask f) off,
    fs_zMask = bits_extract ew w (fs_zMask f) off\<rparr>"
  shows "fs_extract ew w f off = Inr g" "fs_wf ew g"
proof -
  have c: "\<not> (ew > w \<or> off > w - ew)" using fit by linarith
  have "\<not> (bit (bval (bits_extract ew w (fs_knownMask f) off)) i \<and> bit (bval (bits_extract ew w (fs_zMask f) off)) i)" for i
    using fs_wfD(5)[OF f] by (simp add: bit_extract[OF fs_wfD(2)[OF f] ew] bit_extract[OF fs_wfD(3)[OF f] ew])
  note r = fs_ctor_Inr[OF bits_wf_extract[OF ew] bits_wf_extract[OF ew] bits_wf_extract[OF ew] this]
  show "fs_extract ew w f off = Inr g" unfolding fs_extract_def if_not_P[OF c] fs_fromMasks_def g_def by (rule r(1))
  show "fs_wf ew g" unfolding g_def by (rule r(2))
qed

lemma table_fromPacked_packed:
  assumes t: "hw_ok (HTable u xs)" and f: "fs_wf (hw_width (HTable u xs)) f"
  shows "\<exists>es. table_fromPacked (HTable u xs) f = Inr es \<and> table_ok (HTable u xs) es \<and>
    table_packed (HTable u xs) es = Inr f"
proof -
  define n ew where "n = tp_size (HTable u xs)" and "ew = hw_width (tp_leaf_type u)"
  have W: "hw_width (HTable u xs) = n * ew" "0 < ew" "0 < n * ew" and leaf: "tp_leaf_type (HTable u xs) = tp_leaf_type u"
    using table_widths[OF t] by (simp_all add: n_def ew_def)
  note f' = f[unfolded W(1)]
  define g where "g k = \<lparr>fs_value = bits_extract ew (n * ew) (fs_value f) ((n - 1 - k) * ew),
    fs_knownMask = bits_extract ew (n * ew) (fs_knownMask f) ((n - 1 - k) * ew),
    fs_zMask = bits_extract ew (n * ew) (fs_zMask f) ((n - 1 - k) * ew)\<rparr>" for k
  have ex: "fs_extract ew (n * ew) f ((n - 1 - k) * ew) = Inr (g k)" "fs_wf ew (g k)" if k: "k < n" for k
  proof -
    have "(n - 1 - k) * ew + ew \<le> n * ew" using mult_le_mono1[of "n - 1 - k + 1" n ew] k by (simp add: algebra_simps)
    from fs_extract_Inr[OF f' this W(2)] show "fs_extract ew (n * ew) f ((n - 1 - k) * ew) = Inr (g k)" "fs_wf ew (g k)"
      by (simp_all add: g_def)
  qed
  have fp: "table_fromPacked (HTable u xs) f = Inr (map g [0..<n])"
    unfolding table_fromPacked_def Let_def W(1) leaf n_def[symmetric] ew_def[symmetric]
    by (rule collect_map, rule ex(1)) simp
  have cong: "pack_elements (n * ew) n ew (\<lambda>i. sel (map g [0..<n] ! i)) = pack_elements (n * ew) n ew (\<lambda>i. sel (g i))" for sel
    unfolding pack_elements_def by (rule fold_cong) simp_all
  have "table_packed (HTable u xs) (map g [0..<n]) = fs_ctor (n * ew) (fs_value f) (fs_knownMask f) (fs_zMask f)"
    unfolding table_packed_def Let_def W(1) leaf n_def[symmetric] ew_def[symmetric] fs_fromMasks_def cong
    using pack_elements_extract[OF fs_wfD(1)[OF f'] W(2)] pack_elements_extract[OF fs_wfD(2)[OF f'] W(2)]
      pack_elements_extract[OF fs_wfD(3)[OF f'] W(2)] by (simp add: g_def)
  then have "table_packed (HTable u xs) (map g [0..<n]) = Inr f"
    using fs_ctor_Inr(1)[OF fs_wfD(1-3)[OF f']] fs_wfD(5)[OF f'] by simp
  moreover have "table_ok (HTable u xs) (map g [0..<n])"
    using ex(2) by (simp add: table_ok_def list_all_length leaf ew_def n_def)
  ultimately show ?thesis using fp by blast
qed

lemma hw_pack_struct_value:
  assumes "hw_ok (HStruct fs)" "hval_ok (HStruct fs) (VStruct xs)"
  shows "bval (hw_pack (HStruct fs) (VStruct xs)) = concat_val (map (\<lambda>(t, x). (hw_width t, hw_pack t x)) (zip fs xs))"
proof -
  define w F where "w = hw_width (HStruct fs)" and "F = map (\<lambda>(t, x). (hw_width t, hw_pack t x)) (zip fs xs)"
  have w: "0 < w" "w = sum_list (map hw_width fs)" using assms(1) by (auto simp: w_def hw_width.simps(3))
  have len: "length xs = length fs" and ok: "hval_ok (fs ! k) (xs ! k)" "hw_ok (fs ! k)" if "k < length fs" for k
    using assms that by (auto simp: list_all_length)
  have len: "length xs = length fs" using assms(2) by simp
  have fst: "map fst F = map hw_width fs" using len by (auto simp: F_def intro!: nth_equalityI)
  have st: "stacked (map (\<lambda>(o', (fw, b)). (o', fw, b)) (zip (field_offsets w (map fst F)) F)) w"
    by (rule stacked_fields)
      (use hw_pack_correct[OF ok(2,1)] len w(2) fst in \<open>auto simp: F_def list_all_length\<close>)
  have "hw_pack (HStruct fs) (VStruct xs) = put_lanes w (map (\<lambda>(o', (fw, b)). (o', fw, b)) (zip (field_offsets w (map fst F)) F)) (bits_default w)"
    unfolding hw_pack.simps hval.case Let_def w_def[symmetric] F_def[symmetric] pack_fields_lanes ..
  then have "bval (hw_pack (HStruct fs) (VStruct xs)) = concat_val (map snd (map (\<lambda>(o', (fw, b)). (o', fw, b)) (zip (field_offsets w (map fst F)) F)))"
    using bval_put_lanes[OF st le_refl bits_wf_default[OF w(1)]] lanes_val_concat[OF st] by (simp add: bval_default)
  also have "map snd (map (\<lambda>(o', (fw, b)). (o', fw, b)) (zip (field_offsets w (map fst F)) F)) = F"
    by (rule nth_equalityI) (auto simp: case_prod_beta)
  finally show ?thesis unfolding F_def .
qed

subsection \<open>Properties\<close>

text \<open>C25.  Packing a payload of any well-formed layout (bit vectors, tables of any rank, structs, nested in
  any way) gives exactly the declared number of bits, a struct's first member is its most significant
  field, and unpacking gives the payload back, through the wire as well.\<close>

theorem payload_roundtrip:
  assumes t: "hw_ok t" and v: "hval_ok t v"
  shows "bits_wf (hw_width t) (hw_pack t v) \<and> hw_unpack t (hw_pack t v) = v \<and>
    wire_isFullyKnown t (wire_known t v) \<and> wire_value t (wire_known t v) = v \<and>
    (case t of HStruct fs \<Rightarrow> (case v of VStruct xs \<Rightarrow>
        bval (hw_pack t v) = concat_val (map (\<lambda>(t, x). (hw_width t, hw_pack t x)) (zip fs xs)) | _ \<Rightarrow> False)
     | _ \<Rightarrow> True)"
  using hw_pack_correct[OF t v] t v
  by (auto simp: wire_isFullyKnown_def wire_known_def wire_value_def hw_pack_struct_value
      simp del: hw_ok.simps hval_ok.simps hw_pack.simps hw_unpack.simps split: hw.splits hval.splits)
    (auto split: hval.splits)

theorem payload_roundtrip_witness:
  "hw_unpack (HStruct [HBits 4, HTable (HBits 3) [2]])
     (hw_pack (HStruct [HBits 4, HTable (HBits 3) [2]]) (VStruct [VBits [9], VTable [VBits [5], VBits [2]]]))
   = VStruct [VBits [9], VTable [VBits [5], VBits [2]]]"
proof -
  have "hw_ok (HStruct [HBits 4, HTable (HBits 3) [2]])" by (simp add: hw_width.simps(3))
  moreover have "hval_ok (HStruct [HBits 4, HTable (HBits 3) [2]]) (VStruct [VBits [9], VTable [VBits [5], VBits [2]]])"
    by (simp add: bits_eval)
  ultimately show ?thesis using payload_roundtrip by blast
qed

text \<open>C26.  The dense table wire and its packed form carry the same logic values: packing never throws and
  puts element \<open>k\<close> at its row-major place, first element on top; splitting the packed form gives the
  elements back; and packing the elements of a split value gives that value back.\<close>

theorem table_wire_roundtrip:
  assumes t: "hw_ok (HTable u xs)" and es: "table_ok (HTable u xs) es" and f: "fs_wf (hw_width (HTable u xs)) f"
  shows "(\<exists>g. table_packed (HTable u xs) es = Inr g \<and> fs_wf (hw_width (HTable u xs)) g \<and>
      (\<forall>i < hw_width (HTable u xs).
         fs_at g i = fs_at (es ! (tp_size (HTable u xs) - 1 - i div hw_width (tp_leaf_type u)))
                       (i mod hw_width (tp_leaf_type u))) \<and>
      table_fromPacked (HTable u xs) g = Inr es) \<and>
    (\<exists>es'. table_fromPacked (HTable u xs) f = Inr es' \<and> table_ok (HTable u xs) es' \<and>
      table_packed (HTable u xs) es' = Inr f)"
  using table_packed_fromPacked[OF t es] table_fromPacked_packed[OF t f] by (simp del: hw_ok.simps)

theorem table_wire_roundtrip_witness:
  "\<exists>es'. table_fromPacked (HTable (HBits 3) [2]) (fs_known 6 [42]) = Inr es' \<and>
     table_packed (HTable (HBits 3) [2]) es' = Inr (fs_known 6 [42])"
proof -
  have "hw_ok (HTable (HBits 3) [2])" "table_ok (HTable (HBits 3) [2]) [fs_unknown 3, fs_unknown 3]"
    "fs_wf (hw_width (HTable (HBits 3) [2])) (fs_known 6 [42])"
    by (simp_all add: table_ok_def bits_eval)
  from table_wire_roundtrip[OF this] show ?thesis by blast
qed

end
