(* ===== verification/Gfsim_Kernel.thy ===== *)
theory Gfsim_Kernel
  imports Gfsim_Wire
begin

text \<open>
  What the storage leaves share: clock sampling (\<^verbatim>\<open>include/gfsim/sampled_clock.h\<close>), the
  interface of a leaf kernel (the static functions \<^verbatim>\<open>work\<close>, \<^verbatim>\<open>xfer\<close>, \<^verbatim>\<open>discard\<close> and
  \<^verbatim>\<open>reset\<close> over \<^verbatim>\<open>Current\<close>, \<^verbatim>\<open>Pending\<close>, \<^verbatim>\<open>Inputs\<close> and \<^verbatim>\<open>Outputs\<close>), and the bulk owner
  \<^verbatim>\<open>collection_storage<Kernel>\<close> (\<^verbatim>\<open>include/gfsim/collection.h\<close>).

  A kernel is a record of its four functions.  \<open>work\<close> returns the pending state and the outputs it
  leaves behind and the exception it throws, if it throws one.  The locale \<open>leaf_kernel\<close> states the
  contract of a kernel, and the collection's lemmas are proved once from it; the storage theories
  interpret it on their kernels.
\<close>

subsection \<open>Sampled clock\<close>

datatype ResetSemantics = Strict | IfOne

definition interpretReset :: "four_state \<Rightarrow> ResetSemantics \<Rightarrow> four_state" where
  "interpretReset raw semantics =
     (if semantics = Strict then raw
      else fs_known 1 (bits_of_word 1 (if fs_isFullyKnown 1 raw \<and> toBool (fs_value raw) then 1 else 0)))"

datatype SampledClockFault = NoFault | UnknownClock | UnknownReset

record SampledClockEvaluation =
  nextClock :: bool
  rising :: bool
  resetActive :: bool
  fault :: SampledClockFault

definition evaluateSampledClock ::
  "bool \<Rightarrow> four_state \<Rightarrow> four_state \<Rightarrow> ResetSemantics \<Rightarrow> SampledClockEvaluation" where
  "evaluateSampledClock previous clock rawReset semantics =
     (if \<not> fs_isFullyKnown 1 clock
      then \<lparr>nextClock = previous, rising = False, resetActive = False, fault = UnknownClock\<rparr>
      else let next = toBool (fs_value clock)
           in if previous \<or> \<not> next
              then \<lparr>nextClock = next, rising = False, resetActive = False, fault = NoFault\<rparr>
              else let reset = interpretReset rawReset semantics
                   in if \<not> fs_isFullyKnown 1 reset
                      then \<lparr>nextClock = previous, rising = True, resetActive = False, fault = UnknownReset\<rparr>
                      else \<lparr>nextClock = next, rising = True, resetActive = toBool (fs_value reset), fault = NoFault\<rparr>)"

subsection \<open>Kernels and collections\<close>

record ('c, 'p, 'i, 'o) kernel =
  k_work :: "'c \<Rightarrow> 'i \<Rightarrow> 'p \<Rightarrow> 'o \<Rightarrow> 'p \<times> 'o \<times> exn option"
  k_xfer :: "'c \<Rightarrow> 'p \<Rightarrow> 'o \<Rightarrow> 'c \<times> 'p \<times> 'o"
  k_discard :: "'c \<Rightarrow> 'p \<Rightarrow> 'p"
  k_reset :: "'c \<Rightarrow> 'i \<Rightarrow> 'p \<Rightarrow> 'p"

record ('c, 'p) collection =
  col_current :: "'c list"
  col_pending :: "'p list"
  col_completed :: "bool list"
  col_completedCount :: nat

definition col_size :: "('c, 'p) collection \<Rightarrow> nat" where
  "col_size s = length (col_current s)"

definition col_discard :: "('c, 'p, 'i, 'o) kernel \<Rightarrow> ('c, 'p) collection \<Rightarrow> ('c, 'p) collection" where
  "col_discard K s = s\<lparr>
     col_pending := map (\<lambda>lane. k_discard K (col_current s ! lane) (col_pending s ! lane)) [0..<col_size s],
     col_completed := map (\<lambda>lane. False) [0..<col_size s],
     col_completedCount := 0\<rparr>"

definition col_init :: "('c, 'p, 'i, 'o) kernel \<Rightarrow> 'c \<Rightarrow> 'p \<Rightarrow> nat \<Rightarrow> exn + ('c, 'p) collection" where
  "col_init K c0 p0 count =
     (if count = 0 then Inl (InvalidArgument ''collection size must be positive'')
      else Inr (col_discard K \<lparr>col_current = replicate count c0, col_pending = replicate count p0,
             col_completed = replicate count False, col_completedCount = 0\<rparr>))"

definition col_at :: "('c, 'p) collection \<Rightarrow> nat \<Rightarrow> exn + 'c" where
  "col_at s lane = (if lane < col_size s then Inr (col_current s ! lane) else Inl (OutOfRange ''vector::at''))"

definition col_work ::
  "('c, 'p, 'i, 'o) kernel \<Rightarrow> ('c, 'p) collection \<Rightarrow> nat \<Rightarrow> 'i \<Rightarrow> 'o \<Rightarrow> ('c, 'p) collection \<times> 'o \<times> exn option" where
  "col_work K s lane inputs outputs =
     (if lane \<ge> col_size s
      then (col_discard K s, outputs, Some (OutOfRange ''collection lane out of range''))
      else case k_work K (col_current s ! lane) inputs (col_pending s ! lane) outputs of (p, out, thrown) \<Rightarrow>
        let s1 = s\<lparr>col_pending := (col_pending s)[lane := p]\<rparr>
        in case thrown of
             Some e \<Rightarrow> (col_discard K s1, out, Some e)
           | None \<Rightarrow>
               (if \<not> col_completed s1 ! lane
                then s1\<lparr>col_completed := (col_completed s1)[lane := True],
                        col_completedCount := col_completedCount s1 + 1\<rparr>
                else s1, out, None))"

definition col_xfer ::
  "('c, 'p, 'i, 'o) kernel \<Rightarrow> ('c, 'p) collection \<Rightarrow> 'o list \<Rightarrow> ('c, 'p) collection \<times> 'o list" where
  "col_xfer K s outs =
     (if col_completedCount s \<noteq> col_size s then (col_discard K s, outs)
      else let lanes = map (\<lambda>lane. k_xfer K (col_current s ! lane) (col_pending s ! lane) (outs ! lane)) [0..<col_size s]
           in (col_discard K (s\<lparr>col_current := map fst lanes, col_pending := map (fst \<circ> snd) lanes\<rparr>),
               map (snd \<circ> snd) lanes))"

definition col_reset :: "('c, 'p, 'i, 'o) kernel \<Rightarrow> ('c, 'p) collection \<Rightarrow> (nat \<Rightarrow> 'i) \<Rightarrow> ('c, 'p) collection" where
  "col_reset K s inputs =
     (let d = col_discard K s
      in d\<lparr>col_pending := map (\<lambda>lane. k_reset K (col_current d ! lane) (inputs lane) (col_pending d ! lane)) [0..<col_size d],
           col_completed := map (\<lambda>lane. True) [0..<col_size d],
           col_completedCount := col_size d\<rparr>)"

text \<open>A caller stages its lanes one after the other and stops at the first exception.\<close>

fun col_works ::
  "('c, 'p, 'i, 'o) kernel \<Rightarrow> ('c, 'p) collection \<Rightarrow> (nat \<times> 'i \<times> 'o) list \<Rightarrow> ('c, 'p) collection \<times> exn option" where
  "col_works K s [] = (s, None)"
| "col_works K s ((lane, i, out) # rest) =
     (case col_work K s lane i out of
        (s', _, Some e) \<Rightarrow> (s', Some e)
      | (s', _, None) \<Rightarrow> col_works K s' rest)"

text \<open>One clock step of a single lane: stage, then commit.\<close>

definition kernel_step :: "('c, 'p, 'i, 'o) kernel \<Rightarrow> 'c \<Rightarrow> 'p \<Rightarrow> 'i \<Rightarrow> 'o \<Rightarrow> 'o \<Rightarrow> exn + 'c" where
  "kernel_step K c p i out out' =
     (case k_work K c i p out of
        (p', _, None) \<Rightarrow> Inr (fst (k_xfer K c p' out'))
      | (_, _, Some e) \<Rightarrow> Inl e)"

subsection \<open>Clock sampling\<close>

lemma evaluateSampledClock_cases:
  "fault (evaluateSampledClock prev clk rst sem) = UnknownClock \<longleftrightarrow> \<not> fs_isFullyKnown 1 clk"
  "fault (evaluateSampledClock prev clk rst sem) = UnknownReset \<longleftrightarrow>
     fs_isFullyKnown 1 clk \<and> \<not> prev \<and> toBool (fs_value clk) \<and> \<not> fs_isFullyKnown 1 (interpretReset rst sem)"
  by (auto simp: evaluateSampledClock_def Let_def)

lemma interpretReset_IfOne:
  "interpretReset raw IfOne = fs_bool (fs_isFullyKnown 1 raw \<and> toBool (fs_value raw))"
  by (simp add: interpretReset_def fs_bool_def)

subsection \<open>The contract of a kernel\<close>

definition col_inv :: "('p \<Rightarrow> bool) \<Rightarrow> ('c, 'p) collection \<Rightarrow> bool" where
  "col_inv valid s \<longleftrightarrow> 0 < col_size s \<and> length (col_pending s) = col_size s \<and> length (col_completed s) = col_size s \<and>
     col_completedCount s = length (filter id (col_completed s)) \<and>
     (\<forall>lane < col_size s. col_completed s ! lane \<longleftrightarrow> valid (col_pending s ! lane))"

locale leaf_kernel =
  fixes K :: "('c, 'p, 'i, 'o) kernel" and valid :: "'p \<Rightarrow> bool"
  assumes discard_invalid: "\<not> valid (k_discard K c p)"
    and xfer_invalid: "\<not> valid p \<Longrightarrow> k_xfer K c p out = (c, p, out)"
    and xfer_clears: "valid p \<Longrightarrow> \<not> valid (fst (snd (k_xfer K c p out)))"
    and work_valid: "k_work K c i p out = (p', out', e) \<Longrightarrow> valid p' \<longleftrightarrow> e = None"
    and work_fresh: "snd (k_work K c i p out) = snd (k_work K c i q out)"
    and step_fresh: "snd (snd (k_work K c i p out)) = None \<Longrightarrow>
      fst (k_xfer K c (fst (k_work K c i p out)) out') = fst (k_xfer K c (fst (k_work K c i q out)) out') \<and>
      snd (snd (k_xfer K c (fst (k_work K c i p out)) out')) = snd (snd (k_xfer K c (fst (k_work K c i q out)) out'))"
    and reset_valid: "valid (k_reset K c i p)"
begin

lemma discard_facts:
  assumes "0 < col_size s"
  shows "col_inv valid (col_discard K s)" "col_current (col_discard K s) = col_current s"
    "col_completedCount (col_discard K s) = 0" "lane < col_size s \<Longrightarrow> \<not> valid (col_pending (col_discard K s) ! lane)"
  using assms by (auto simp: col_discard_def col_inv_def col_size_def discard_invalid filter_empty_conv)

lemma init_inv: "col_init K c0 p0 n = Inr s \<Longrightarrow> col_inv valid s \<and> col_current s = replicate n c0"
  using discard_facts(1,2)[of "\<lparr>col_current = replicate n c0, col_pending = replicate n p0,
             col_completed = replicate n False, col_completedCount = 0\<rparr>"]
  by (auto simp: col_init_def col_size_def split: if_splits)

lemma count_upd:
  "lane < length bs \<Longrightarrow> \<not> bs ! lane \<Longrightarrow> length (filter id (bs[lane := True])) = Suc (length (filter id bs))"
proof (induction bs arbitrary: lane)
  case (Cons b bs)
  then show ?case by (cases lane) auto
qed simp

lemma work_inv:
  assumes inv: "col_inv valid s" and w: "col_work K s lane i out = (s', out', e)"
  shows "col_inv valid s' \<and> col_current s' = col_current s"
proof (cases "lane < col_size s")
  case False
  then show ?thesis using w discard_facts(1,2)[of s] inv by (auto simp: col_work_def col_inv_def)
next
  case lane: True
  obtain p o1 t where k: "k_work K (col_current s ! lane) i (col_pending s ! lane) out = (p, o1, t)" by (metis prod_cases3)
  define s1 where "s1 = s\<lparr>col_pending := (col_pending s)[lane := p]\<rparr>"
  have size: "col_size s1 = col_size s" "col_current s1 = col_current s" by (simp_all add: s1_def col_size_def)
  show ?thesis
  proof (cases t)
    case (Some x)
    then have "s' = col_discard K s1" using w lane k by (simp add: col_work_def s1_def)
    then show ?thesis using discard_facts(1,2)[of s1] inv size by (simp add: col_inv_def)
  next
    case None
    then have v: "valid p" using work_valid[OF k] by simp
    have s': "s' = (if \<not> col_completed s ! lane
        then s1\<lparr>col_completed := (col_completed s)[lane := True], col_completedCount := col_completedCount s + 1\<rparr> else s1)"
      using w lane k None by (auto simp: col_work_def s1_def Let_def)
    show ?thesis using inv v lane count_upd[of lane "col_completed s"] unfolding s'
      by (auto simp: s1_def col_inv_def col_size_def nth_list_update)
  qed
qed

lemma xfer_inv:
  assumes inv: "col_inv valid s"
  shows "col_inv valid (fst (col_xfer K s outs)) \<and> col_size (fst (col_xfer K s outs)) = col_size s"
proof (cases "col_completedCount s = col_size s")
  case True
  define L where "L = map (\<lambda>lane. k_xfer K (col_current s ! lane) (col_pending s ! lane) (outs ! lane)) [0..<col_size s]"
  define s1 where "s1 = s\<lparr>col_current := map fst L, col_pending := map (fst \<circ> snd) L\<rparr>"
  have "fst (col_xfer K s outs) = col_discard K s1" using True by (simp add: col_xfer_def Let_def L_def s1_def)
  moreover have "col_size s1 = col_size s" by (simp add: s1_def col_size_def L_def)
  ultimately show ?thesis using discard_facts(1,2)[of s1] inv by (simp add: col_inv_def col_size_def)
next
  case False
  then show ?thesis using discard_facts(1,2)[of s] inv by (simp add: col_xfer_def col_inv_def col_size_def)
qed

lemma xfer_incomplete:
  assumes "col_inv valid s" "col_completedCount s \<noteq> col_size s"
  shows "col_current (fst (col_xfer K s outs)) = col_current s \<and> snd (col_xfer K s outs) = outs"
  using assms discard_facts(2)[of s] by (simp add: col_xfer_def col_inv_def)

lemma xfer_complete:
  assumes "col_inv valid s" "col_completedCount s = col_size s" "lane < col_size s"
  shows "col_current (fst (col_xfer K s outs)) ! lane = fst (k_xfer K (col_current s ! lane) (col_pending s ! lane) (outs ! lane))"
    and "snd (col_xfer K s outs) ! lane = snd (snd (k_xfer K (col_current s ! lane) (col_pending s ! lane) (outs ! lane)))"
  using assms by (simp_all add: col_xfer_def Let_def col_discard_def)

lemma reset_inv: "col_inv valid s \<Longrightarrow> col_inv valid (col_reset K s inputs) \<and> col_current (col_reset K s inputs) = col_current s"
  by (auto simp: col_reset_def Let_def col_inv_def col_size_def reset_valid col_discard_def filter_True)

lemma works_inv:
  "col_inv valid s \<Longrightarrow> col_works K s reqs = (s', e) \<Longrightarrow> col_inv valid s' \<and> col_current s' = col_current s"
proof (induction reqs arbitrary: s)
  case (Cons r reqs)
  obtain lane i out where r: "r = (lane, i, out)" by (metis prod_cases3)
  obtain s1 o1 t where w: "col_work K s lane i out = (s1, o1, t)" by (metis prod_cases3)
  from work_inv[OF Cons.prems(1) w] Cons.IH[of s1] Cons.prems(2) w show ?case by (cases t) (auto simp: r)
qed simp

lemma work_fails: "col_inv valid s \<Longrightarrow> col_work K s lane i out = (s', out', Some e) \<Longrightarrow> col_completedCount s' = 0"
  by (auto simp: col_work_def col_discard_def Let_def split: if_splits prod.splits option.splits)

lemma works_fails: "col_inv valid s \<Longrightarrow> col_works K s reqs = (s', Some e) \<Longrightarrow> col_completedCount s' = 0"
proof (induction reqs arbitrary: s)
  case (Cons r reqs)
  obtain lane i out where r: "r = (lane, i, out)" by (metis prod_cases3)
  obtain s1 o1 t where w: "col_work K s lane i out = (s1, o1, t)" by (metis prod_cases3)
  from work_inv[OF Cons.prems(1) w] work_fails[of s lane i out s1 o1] Cons.IH[of s1] Cons.prems w show ?case
    by (cases t) (auto simp: r)
qed simp

lemma work_succeeds:
  assumes inv: "col_inv valid s" and w: "col_work K s lane i out = (s', out', None)"
  shows "lane < col_size s" "snd (snd (k_work K (col_current s ! lane) i (col_pending s ! lane) out)) = None"
    "col_pending s' = (col_pending s)[lane := fst (k_work K (col_current s ! lane) i (col_pending s ! lane) out)]"
    "col_completed s' = (col_completed s)[lane := True]"
proof -
  have same: "col_completed s ! lane \<Longrightarrow> (col_completed s)[lane := True] = col_completed s"
    by (metis (full_types) list_update_id)
  show "lane < col_size s" "snd (snd (k_work K (col_current s ! lane) i (col_pending s ! lane) out)) = None"
    "col_pending s' = (col_pending s)[lane := fst (k_work K (col_current s ! lane) i (col_pending s ! lane) out)]"
    "col_completed s' = (col_completed s)[lane := True]"
  using assms same
  by (auto simp: col_work_def Let_def col_inv_def split: if_splits prod.splits option.splits)
qed

lemma works_succeeds:
  "col_inv valid s \<Longrightarrow> col_works K s reqs = (s', None) \<Longrightarrow> distinct (map fst reqs) \<Longrightarrow>
   (\<forall>(lane, i, out)\<in>set reqs. lane < col_size s \<and>
      snd (snd (k_work K (col_current s ! lane) i (col_pending s ! lane) out)) = None \<and>
      col_pending s' ! lane = fst (k_work K (col_current s ! lane) i (col_pending s ! lane) out) \<and>
      col_completed s' ! lane) \<and>
   (\<forall>lane. lane < col_size s \<and> lane \<notin> fst ` set reqs \<longrightarrow>
      col_pending s' ! lane = col_pending s ! lane \<and> col_completed s' ! lane = col_completed s ! lane)"
proof (induction reqs arbitrary: s)
  case (Cons r reqs)
  obtain lane i out where r: "r = (lane, i, out)" by (metis prod_cases3)
  obtain s1 o1 t where w: "col_work K s lane i out = (s1, o1, t)" by (metis prod_cases3)
  have t: "t = None" and rest: "col_works K s1 reqs = (s', None)" using Cons.prems(2) w by (auto simp: r split: option.splits)
  note ws = work_succeeds[OF Cons.prems(1) w[unfolded t]]
  have inv1: "col_inv valid s1" and cur: "col_current s1 = col_current s" using work_inv[OF Cons.prems(1) w] by auto
  have len: "length (col_pending s) = col_size s" "length (col_completed s) = col_size s" "col_size s1 = col_size s"
    using Cons.prems(1) cur by (auto simp: col_inv_def col_size_def)
  have d: "lane \<notin> fst ` set reqs" "distinct (map fst reqs)" using Cons.prems(3) r by auto
  have ne: "l \<noteq> lane" if "(l, j, u) \<in> set reqs" for l j u using that d(1) by force
  from Cons.IH[OF inv1 rest d(2)] show ?case
    using ws d(1) len ne unfolding r cur len(3) by (auto simp: nth_list_update) (fastforce simp: nth_list_update)+
qed simp

lemma count_full: "col_inv valid s \<Longrightarrow> col_completedCount s = col_size s \<longleftrightarrow> (\<forall>lane < col_size s. col_completed s ! lane)"
proof -
  assume inv: "col_inv valid s"
  have "length (filter id bs) = length bs \<longleftrightarrow> (\<forall>k < length bs. bs ! k)" for bs
    by (induction bs) (auto simp: less_Suc_eq_0_disj le_imp_less_Suc Suc_le_eq
        dest: le_neq_implies_less[OF length_filter_le] split: if_splits)
  from this[of "col_completed s"] show ?thesis using inv unfolding col_inv_def by metis
qed

lemma count_zero: "col_inv valid s \<Longrightarrow> col_completedCount s = 0 \<Longrightarrow> lane < col_size s \<Longrightarrow> \<not> col_completed s ! lane"
  by (auto simp: col_inv_def filter_empty_conv in_set_conv_nth)

lemma step_eq:
  assumes "snd (snd (k_work K c i p out)) = None"
  shows "kernel_step K c q i out out' = Inr (fst (k_xfer K c (fst (k_work K c i p out)) out'))"
proof -
  have "snd (snd (k_work K c i q out)) = None" using assms work_fresh[of c i p out q] by simp
  then show ?thesis using step_fresh[OF assms, of out' q] by (auto simp: kernel_step_def split: prod.splits)
qed

lemma collection_commit:
  assumes inv: "col_inv valid s" and clean: "col_completedCount s = 0"
    and w: "col_works K s reqs = (s', e)" and d: "distinct (map fst reqs)"
  shows "col_inv valid (fst (col_xfer K s' outs))"
    and "e \<noteq> None \<or> fst ` set reqs \<noteq> {0..<col_size s} \<Longrightarrow>
      col_current (fst (col_xfer K s' outs)) = col_current s \<and> snd (col_xfer K s' outs) = outs"
    and "e = None \<Longrightarrow> fst ` set reqs = {0..<col_size s} \<Longrightarrow> (lane, i, out) \<in> set reqs \<Longrightarrow>
      kernel_step K (col_current s ! lane) p i out (outs ! lane) = Inr (col_current (fst (col_xfer K s' outs)) ! lane)"
proof -
  have inv': "col_inv valid s'" and cur: "col_current s' = col_current s" and size: "col_size s' = col_size s"
    using works_inv[OF inv w] by (auto simp: col_size_def)
  show "col_inv valid (fst (col_xfer K s' outs))" using xfer_inv[OF inv'] by simp
  {
    assume "e \<noteq> None \<or> fst ` set reqs \<noteq> {0..<col_size s}"
    then have "col_completedCount s' \<noteq> col_size s'"
    proof (cases e)
      case (Some x)
      then show ?thesis using works_fails[OF inv w[unfolded Some]] inv' by (simp add: col_inv_def)
    next
      case None
      note ws = works_succeeds[OF inv w[unfolded None] d]
      from ws have sub: "fst ` set reqs \<subseteq> {0..<col_size s}" by force
      have "fst ` set reqs \<noteq> {0..<col_size s}" using None \<open>e \<noteq> None \<or> _\<close> by blast
      with sub have "\<exists>l\<in>{0..<col_size s}. l \<notin> fst ` set reqs" by blast
      then obtain l where l: "l < col_size s" "l \<notin> fst ` set reqs" by (metis atLeastLessThan_iff)
      then have "\<not> col_completed s' ! l" using ws count_zero[OF inv clean] by simp
      then show ?thesis using count_full[OF inv'] l(1) size by auto
    qed
    from xfer_incomplete[OF inv' this] show "col_current (fst (col_xfer K s' outs)) = col_current s \<and> snd (col_xfer K s' outs) = outs"
      using cur by simp
  }
  assume e: "e = None" and all: "fst ` set reqs = {0..<col_size s}" and mem: "(lane, i, out) \<in> set reqs"
  note ws = works_succeeds[OF inv w[unfolded e] d]
  have "\<forall>l < col_size s'. col_completed s' ! l"
  proof (intro allI impI)
    fix l assume "l < col_size s'"
    then obtain j u where "(l, j, u) \<in> set reqs" using all size by force
    then show "col_completed s' ! l" using ws by fastforce
  qed
  then have full: "col_completedCount s' = col_size s'" using count_full[OF inv'] by simp
  from ws mem have lane: "lane < col_size s"
    and ok: "snd (snd (k_work K (col_current s ! lane) i (col_pending s ! lane) out)) = None"
    and pend: "col_pending s' ! lane = fst (k_work K (col_current s ! lane) i (col_pending s ! lane) out)" by auto
  show "kernel_step K (col_current s ! lane) p i out (outs ! lane) = Inr (col_current (fst (col_xfer K s' outs)) ! lane)"
    using xfer_complete(1)[OF inv' full, of lane outs] lane size step_eq[OF ok] pend cur by simp
qed

end

end
