(* ===== verification/Gfsim_Dff.thy ===== *)
theory Gfsim_Dff
  imports Gfsim_Kernel
begin

text \<open>
  The registers of \<^verbatim>\<open>include/gfsim/dff.h\<close>: the kernels \<^verbatim>\<open>dffe_kernel\<close> and \<^verbatim>\<open>dff_kernel\<close>
  and the modules \<^verbatim>\<open>dffe\<close> and \<^verbatim>\<open>dff\<close> that own one.  The kernel only copies its payload
  wires, so their type is a parameter \<open>'w\<close>.  Both kernels satisfy the kernel contract, and the lemmas give
  the committed state after one step on every branch.
\<close>

subsection \<open>Kernels\<close>

record 'w dffe_current =
  dc_q :: 'w
  dc_clock :: bool

record 'w dffe_pending =
  dp_q :: 'w
  dp_clock :: bool
  dp_valid :: bool

record 'w dffe_inputs =
  di_clk :: four_state
  di_rst :: four_state
  di_en :: four_state
  di_d :: 'w
  di_init :: 'w

record 'w dff_inputs =
  fi_clk :: four_state
  fi_rst :: four_state
  fi_d :: 'w
  fi_init :: 'w

definition dffe_discard :: "'w dffe_current \<Rightarrow> 'w dffe_pending \<Rightarrow> 'w dffe_pending" where
  "dffe_discard current pending = pending\<lparr>dp_q := dc_q current, dp_clock := dc_clock current, dp_valid := False\<rparr>"

definition dffe_work ::
  "'w dffe_current \<Rightarrow> 'w dffe_inputs \<Rightarrow> 'w dffe_pending \<Rightarrow> 'w \<Rightarrow> 'w dffe_pending \<times> 'w \<times> exn option" where
  "dffe_work current inputs pending out =
     (let p = dffe_discard current pending;
          clock = evaluateSampledClock (dc_clock current) (di_clk inputs) (di_rst inputs) Strict
      in if fault clock = UnknownClock
         then (dffe_discard current p, out, Some (FourStateViolation ''dffe clock must be known''))
         else if fault clock = UnknownReset
         then (dffe_discard current p, out, Some (FourStateViolation ''dffe reset must be known at posedge''))
         else let p = p\<lparr>dp_clock := nextClock clock, dp_valid := True\<rparr>
              in if \<not> rising clock then (p, out, None)
                 else if resetActive clock then (p\<lparr>dp_q := di_init inputs\<rparr>, out, None)
                 else if \<not> fs_isFullyKnown 1 (di_en inputs)
                 then (dffe_discard current p, out, Some (FourStateViolation ''dffe enable must be known at posedge''))
                 else if toBool (fs_value (di_en inputs)) then (p\<lparr>dp_q := di_d inputs\<rparr>, out, None)
                 else (p, out, None))"

definition dffe_xfer :: "'w dffe_current \<Rightarrow> 'w dffe_pending \<Rightarrow> 'w \<Rightarrow> 'w dffe_current \<times> 'w dffe_pending \<times> 'w" where
  "dffe_xfer current pending out =
     (if \<not> dp_valid pending then (current, pending, out)
      else let current = current\<lparr>dc_q := dp_q pending, dc_clock := dp_clock pending\<rparr>
           in (current, dffe_discard current pending, dc_q current))"

definition dffe_reset :: "'w dffe_current \<Rightarrow> 'w dffe_inputs \<Rightarrow> 'w dffe_pending \<Rightarrow> 'w dffe_pending" where
  "dffe_reset current inputs pending = pending\<lparr>dp_q := di_init inputs, dp_clock := False, dp_valid := True\<rparr>"

definition dffe_kernel :: "('w dffe_current, 'w dffe_pending, 'w dffe_inputs, 'w) kernel" where
  "dffe_kernel = \<lparr>k_work = dffe_work, k_xfer = dffe_xfer, k_discard = dffe_discard, k_reset = dffe_reset\<rparr>"

definition dff_enable :: "'w dff_inputs \<Rightarrow> 'w dffe_inputs" where
  "dff_enable inputs = \<lparr>di_clk = fi_clk inputs, di_rst = fi_rst inputs, di_en = fs_known 1 (bits_of_word 1 1),
     di_d = fi_d inputs, di_init = fi_init inputs\<rparr>"

definition dff_kernel :: "('w dffe_current, 'w dffe_pending, 'w dff_inputs, 'w) kernel" where
  "dff_kernel = \<lparr>k_work = (\<lambda>current inputs. dffe_work current (dff_enable inputs)), k_xfer = dffe_xfer,
     k_discard = dffe_discard, k_reset = (\<lambda>current inputs. dffe_reset current (dff_enable inputs))\<rparr>"

subsection \<open>Modules\<close>

record 'w dffe =
  dffe_clk :: four_state
  dffe_rst :: four_state
  dffe_en :: four_state
  dffe_d :: 'w
  dffe_init :: 'w
  dffe_q :: 'w
  dffe_cur :: "'w dffe_current"
  dffe_pend :: "'w dffe_pending"

definition dffe_pins :: "'w dffe \<Rightarrow> 'w dffe_inputs" where
  "dffe_pins m = \<lparr>di_clk = dffe_clk m, di_rst = dffe_rst m, di_en = dffe_en m, di_d = dffe_d m, di_init = dffe_init m\<rparr>"

definition dffe_Work :: "'w dffe \<Rightarrow> 'w dffe \<times> exn option" where
  "dffe_Work m = (case k_work dffe_kernel (dffe_cur m) (dffe_pins m) (dffe_pend m) (dffe_q m) of
     (p, q, e) \<Rightarrow> (m\<lparr>dffe_pend := p, dffe_q := q\<rparr>, e))"

definition dffe_Xfer :: "'w dffe \<Rightarrow> 'w dffe" where
  "dffe_Xfer m = (case k_xfer dffe_kernel (dffe_cur m) (dffe_pend m) (dffe_q m) of
     (c, p, q) \<Rightarrow> m\<lparr>dffe_cur := c, dffe_pend := p, dffe_q := q\<rparr>)"

definition dffe_DiscardNext :: "'w dffe \<Rightarrow> 'w dffe" where
  "dffe_DiscardNext m = m\<lparr>dffe_pend := k_discard dffe_kernel (dffe_cur m) (dffe_pend m)\<rparr>"

definition dffe_Reset :: "'w dffe \<Rightarrow> 'w dffe" where
  "dffe_Reset m = m\<lparr>dffe_pend := k_reset dffe_kernel (dffe_cur m) (dffe_pins m) (dffe_pend m)\<rparr>"

record 'w dff =
  dff_clk :: four_state
  dff_rst :: four_state
  dff_d :: 'w
  dff_init :: 'w
  dff_q :: 'w
  dff_cur :: "'w dffe_current"
  dff_pend :: "'w dffe_pending"

definition dff_pins :: "'w dff \<Rightarrow> 'w dff_inputs" where
  "dff_pins m = \<lparr>fi_clk = dff_clk m, fi_rst = dff_rst m, fi_d = dff_d m, fi_init = dff_init m\<rparr>"

definition dff_Work :: "'w dff \<Rightarrow> 'w dff \<times> exn option" where
  "dff_Work m = (case k_work dff_kernel (dff_cur m) (dff_pins m) (dff_pend m) (dff_q m) of
     (p, q, e) \<Rightarrow> (m\<lparr>dff_pend := p, dff_q := q\<rparr>, e))"

definition dff_Xfer :: "'w dff \<Rightarrow> 'w dff" where
  "dff_Xfer m = (case k_xfer dff_kernel (dff_cur m) (dff_pend m) (dff_q m) of
     (c, p, q) \<Rightarrow> m\<lparr>dff_cur := c, dff_pend := p, dff_q := q\<rparr>)"

definition dff_DiscardNext :: "'w dff \<Rightarrow> 'w dff" where
  "dff_DiscardNext m = m\<lparr>dff_pend := k_discard dff_kernel (dff_cur m) (dff_pend m)\<rparr>"

definition dff_Reset :: "'w dff \<Rightarrow> 'w dff" where
  "dff_Reset m = m\<lparr>dff_pend := k_reset dff_kernel (dff_cur m) (dff_pins m) (dff_pend m)\<rparr>"

subsection \<open>The kernel contract\<close>

lemmas dffe_defs = dffe_work_def dffe_xfer_def dffe_discard_def dffe_reset_def Let_def

interpretation dffe_lk: leaf_kernel dffe_kernel dp_valid
  by unfold_locales (auto simp: dffe_kernel_def dffe_defs split: if_splits)

interpretation dff_lk: leaf_kernel dff_kernel dp_valid
  by unfold_locales (auto simp: dff_kernel_def dffe_defs split: if_splits)

text \<open>The transition of a register with enable, branch by branch.\<close>

definition dffe_next :: "'w dffe_current \<Rightarrow> 'w dffe_inputs \<Rightarrow> exn + 'w dffe_current" where
  "dffe_next c i =
     (if \<not> fs_isFullyKnown 1 (di_clk i) then Inl (FourStateViolation ''dffe clock must be known'')
      else if dc_clock c \<or> \<not> toBool (fs_value (di_clk i)) then Inr (c\<lparr>dc_clock := toBool (fs_value (di_clk i))\<rparr>)
      else if \<not> fs_isFullyKnown 1 (di_rst i) then Inl (FourStateViolation ''dffe reset must be known at posedge'')
      else if toBool (fs_value (di_rst i)) then Inr (c\<lparr>dc_q := di_init i, dc_clock := True\<rparr>)
      else if \<not> fs_isFullyKnown 1 (di_en i) then Inl (FourStateViolation ''dffe enable must be known at posedge'')
      else if toBool (fs_value (di_en i)) then Inr (c\<lparr>dc_q := di_d i, dc_clock := True\<rparr>)
      else Inr (c\<lparr>dc_clock := True\<rparr>))"

lemma dffe_step: "kernel_step dffe_kernel c p i out out' = dffe_next c i"
  by (auto simp: kernel_step_def dffe_kernel_def dffe_next_def dffe_defs evaluateSampledClock_def interpretReset_def)

lemma dff_step: "kernel_step dff_kernel c p i out out' = dffe_next c (dff_enable i)"
  by (auto simp: kernel_step_def dff_kernel_def dffe_next_def dffe_defs evaluateSampledClock_def interpretReset_def)

lemma dffe_Work_Xfer:
  assumes "dffe_Work m = (m', e)"
  shows "dffe_cur m' = dffe_cur m" "dffe_q m' = dffe_q m"
    "e = Some x \<Longrightarrow> dffe_next (dffe_cur m) (dffe_pins m) = Inl x \<and> dffe_Xfer m' = m'"
    "e = None \<Longrightarrow> dffe_next (dffe_cur m) (dffe_pins m) = Inr (dffe_cur (dffe_Xfer m')) \<and>
       dffe_q (dffe_Xfer m') = dc_q (dffe_cur (dffe_Xfer m'))"
proof -
  obtain p q t where k: "k_work dffe_kernel (dffe_cur m) (dffe_pins m) (dffe_pend m) (dffe_q m) = (p, q, t)"
    by (metis prod_cases3)
  have q: "q = dffe_q m" using k by (auto simp: dffe_kernel_def dffe_work_def Let_def split: if_splits)
  have m': "m' = m\<lparr>dffe_pend := p, dffe_q := dffe_q m\<rparr>" "e = t" using assms k q by (auto simp: dffe_Work_def)
  show "dffe_cur m' = dffe_cur m" "dffe_q m' = dffe_q m" by (simp_all add: m')
  note step = dffe_step[of "dffe_cur m" "dffe_pend m" "dffe_pins m" "dffe_q m" "dffe_q m"]
  show "e = Some x \<Longrightarrow> dffe_next (dffe_cur m) (dffe_pins m) = Inl x \<and> dffe_Xfer m' = m'"
    using dffe_lk.work_valid[OF k] dffe_lk.xfer_invalid[of p] step k by (simp add: m' kernel_step_def dffe_Xfer_def)
  have "dp_valid p \<Longrightarrow> k_xfer dffe_kernel c p out = (c', p', q') \<Longrightarrow> q' = dc_q c'" for c out c' p' q'
    by (auto simp: dffe_kernel_def dffe_xfer_def Let_def)
  then show "e = None \<Longrightarrow> dffe_next (dffe_cur m) (dffe_pins m) = Inr (dffe_cur (dffe_Xfer m')) \<and>
       dffe_q (dffe_Xfer m') = dc_q (dffe_cur (dffe_Xfer m'))"
    using dffe_lk.work_valid[OF k] step k by (auto simp: m' kernel_step_def dffe_Xfer_def split: prod.splits)
qed

subsection \<open>Properties\<close>

text \<open>One step of a register with enable, and of a plain register, commits exactly the hardware
  transition: an unknown clock, an unknown reset on a rising edge or an unknown enable outside reset is an
  error; without a rising edge only the clock history moves; reset loads \<open>init\<close> and enable loads \<open>d\<close>.  The
  outcome does not depend on what an earlier step left pending.\<close>

theorem register_step:
  "kernel_step dffe_kernel c p i out out' = dffe_next c i \<and>
   kernel_step dff_kernel c p j out out' = dffe_next c (dff_enable j)"
  by (simp add: dffe_step dff_step)

text \<open>C38.  A register module that fails its \<open>Work\<close> has nothing to transfer: its committed state and its
  output stay as they were.  A successful \<open>Work\<close> followed by \<open>Xfer\<close> publishes the committed value on \<open>q\<close>,
  and \<open>Reset\<close> followed by \<open>Xfer\<close> publishes \<open>init\<close>.\<close>

theorem register_module:
  "(case dffe_Work m of
      (m', Some x) \<Rightarrow> dffe_next (dffe_cur m) (dffe_pins m) = Inl x \<and>
        dffe_cur (dffe_Xfer m') = dffe_cur m \<and> dffe_q (dffe_Xfer m') = dffe_q m
    | (m', None) \<Rightarrow> dffe_next (dffe_cur m) (dffe_pins m) = Inr (dffe_cur (dffe_Xfer m')) \<and>
        dffe_q (dffe_Xfer m') = dc_q (dffe_cur (dffe_Xfer m'))) \<and>
   dffe_q (dffe_Xfer (dffe_Reset m)) = dffe_init m \<and>
   dffe_cur (dffe_Xfer (dffe_Reset m)) = (dffe_cur m)\<lparr>dc_q := dffe_init m, dc_clock := False\<rparr>"
proof -
  have "dffe_q (dffe_Xfer (dffe_Reset m)) = dffe_init m"
    "dffe_cur (dffe_Xfer (dffe_Reset m)) = (dffe_cur m)\<lparr>dc_q := dffe_init m, dc_clock := False\<rparr>"
    by (simp_all add: dffe_Xfer_def dffe_Reset_def dffe_kernel_def dffe_defs dffe_pins_def)
  moreover obtain m' e where w: "dffe_Work m = (m', e)" by (metis surj_pair)
  ultimately show ?thesis using dffe_Work_Xfer[OF w] by (cases e) auto
qed

text \<open>C21.  A collection of registers commits all of its lanes or none.  When a lane's \<open>work\<close> throws, or when
  some lane was not staged, the transfer leaves every committed lane and every output alone; when all
  lanes were staged, every lane takes the step of its own kernel.\<close>

theorem register_collection_atomic:
  assumes "col_inv dp_valid s" "col_completedCount s = 0"
    and "col_works dffe_kernel s reqs = (s', e)" "distinct (map fst reqs)"
  shows "(if e \<noteq> None \<or> fst ` set reqs \<noteq> {0..<col_size s}
      then col_current (fst (col_xfer dffe_kernel s' outs)) = col_current s \<and> snd (col_xfer dffe_kernel s' outs) = outs
      else \<forall>(lane, i, out) \<in> set reqs.
        dffe_next (col_current s ! lane) i = Inr (col_current (fst (col_xfer dffe_kernel s' outs)) ! lane)) \<and>
    col_inv dp_valid (fst (col_xfer dffe_kernel s' outs))"
  using dffe_lk.collection_commit[OF assms] by (auto simp: dffe_step)

theorem register_collection_atomic_witness:
  "fst (col_xfer dffe_kernel (fst (col_works dffe_kernel
       (projr (col_init dffe_kernel \<lparr>dc_q = 0::nat, dc_clock = False\<rparr> \<lparr>dp_q = 0, dp_clock = False, dp_valid = False\<rparr> 1))
       [(0, \<lparr>di_clk = fs_bool True, di_rst = fs_bool False, di_en = fs_bool True, di_d = 7, di_init = 0\<rparr>, 0)])) [0])
   = \<lparr>col_current = [\<lparr>dc_q = 7, dc_clock = True\<rparr>],
      col_pending = [\<lparr>dp_q = 7, dp_clock = True, dp_valid = False\<rparr>], col_completed = [False], col_completedCount = 0\<rparr>"
  (is "fst (col_xfer _ (fst (col_works _ ?s ?reqs)) ?outs) = ?r")
proof -
  have eval: "fst (col_xfer dffe_kernel (fst (col_works dffe_kernel ?s ?reqs)) ?outs) = ?r" by code_simp
  have "col_inv dp_valid ?s" by code_simp
  moreover have "col_completedCount ?s = 0" by code_simp
  moreover have "col_works dffe_kernel ?s ?reqs = (fst (col_works dffe_kernel ?s ?reqs), None)" by code_simp
  ultimately have "col_inv dp_valid (fst (col_xfer dffe_kernel (fst (col_works dffe_kernel ?s ?reqs)) ?outs))"
    using register_collection_atomic[of ?s ?reqs _ None ?outs] by simp
  then show ?thesis using eval by simp
qed

end
