(* ===== verification/Gfsim_Fifo.thy ===== *)
theory Gfsim_Fifo
  imports Gfsim_Kernel
begin

text \<open>
  The queue lane \<^verbatim>\<open>fifo_kernel\<close> of \<^verbatim>\<open>include/gfsim/fifo.h\<close>: a ring buffer whose entries
  become readable \<open>L\<close> rising edges after they were pushed.  The template parameters are a record
  \<open>fifo_params\<close> (payload width, depth, ready policy and availability latency).  The timing fields are
  used for latencies above one only, as in the source.  Ring indices are natural numbers; \<open>size_inc\<close> and
  \<open>size_dec\<close> write out the 64-bit counters, and timestamps are 64-bit words wrapped to
  \<open>TimestampWidth\<close> bits.  The four-valued gates on the handshake wires are \<^verbatim>\<open>noexcept\<close>
  functions; their result is read off with \<open>projr\<close>, and \<open>fs_bitwise_tables\<close> shows that it exists.

  The abstract queue is a list of tokens, each with the number of rising edges until it can be read.
  \<open>fifo_abs\<close> reads it off a ring buffer, and the refinement lemma says that a kernel step is the step of the
  abstract queue, errors and unknown handshakes included.
\<close>

datatype QueueReadyPolicy = LocalOccupancy | DownstreamPop

record fifo_params =
  fifo_width :: nat
  fifo_Depth :: nat
  fifo_Policy :: QueueReadyPolicy
  fifo_Latency :: nat

record fifo_current =
  fc_storage :: "four_state list"
  fc_rd :: nat
  fc_wr :: nat
  fc_count :: nat
  fc_initialized :: bool
  fc_clock :: bool
  fc_deadline :: "u64 list"
  fc_tick :: u64
  fc_mature_ptr :: nat
  fc_eligible :: nat

record fifo_pending =
  fp_token :: four_state
  fp_valid :: bool
  fp_clock :: bool
  fp_reset :: bool
  fp_push :: bool
  fp_pop :: bool
  fp_advance_time :: bool
  fp_mature :: bool

record fifo_inputs =
  fin_clk :: four_state
  fin_rst :: four_state
  fin_in_valid :: four_state
  fin_in_data :: four_state
  fin_out_ready :: four_state

subsection \<open>Operations\<close>

fun bit_width :: "nat \<Rightarrow> nat" where
  "bit_width n = (if n = 0 then 0 else Suc (bit_width (n div 2)))"

declare bit_width.simps [simp del]

definition TimestampWidth :: "fifo_params \<Rightarrow> nat" where
  "TimestampWidth P = bit_width (fifo_Latency P - 1)"

definition wrapTick :: "fifo_params \<Rightarrow> u64 \<Rightarrow> u64" where
  "wrapTick P v = (if TimestampWidth P = 64 then v else v AND (push_bit (TimestampWidth P) 1 - 1))"

definition size_inc :: "nat \<Rightarrow> nat" where
  "size_inc n = (n + 1) mod 2 ^ 64"

definition size_dec :: "nat \<Rightarrow> nat" where
  "size_dec n = (if n = 0 then 2 ^ 64 - 1 else n - 1)"

definition ring_next :: "fifo_params \<Rightarrow> nat \<Rightarrow> nat" where
  "ring_next P k = (if k = fifo_Depth P - 1 then 0 else size_inc k)"

definition eligibleCount :: "fifo_params \<Rightarrow> fifo_current \<Rightarrow> nat" where
  "eligibleCount P c = (if fifo_Latency P = 1 then fc_count c else fc_eligible c)"

definition fifo_readValid :: "fifo_params \<Rightarrow> fifo_current \<Rightarrow> four_state" where
  "fifo_readValid P c =
     (if \<not> fc_initialized c then fs_unknown 1
      else fs_known 1 (bits_of_word 1 (if eligibleCount P c \<noteq> 0 then 1 else 0)))"

definition fifo_readData :: "fifo_params \<Rightarrow> fifo_current \<Rightarrow> four_state" where
  "fifo_readData P c =
     (if \<not> fc_initialized c then fs_unknown (fifo_width P)
      else if eligibleCount P c \<noteq> 0 then fc_storage c ! fc_rd c
      else fs_known (fifo_width P) (bits_default (fifo_width P)))"

definition fifo_readReady :: "fifo_params \<Rightarrow> fifo_current \<Rightarrow> four_state \<Rightarrow> four_state" where
  "fifo_readReady P c outReady =
     (if \<not> fc_initialized c then fs_unknown 1
      else let capacity = fs_known 1 (bits_of_word 1 (if fc_count c < fifo_Depth P then 1 else 0))
           in if fifo_Policy P = LocalOccupancy then capacity
              else projr (fs_bit_or 1 capacity (projr (fs_bit_and 1 (fifo_readValid P c) outReady))))"

definition fifo_discard :: "fifo_current \<Rightarrow> fifo_pending \<Rightarrow> fifo_pending" where
  "fifo_discard c p = p\<lparr>fp_valid := False, fp_reset := False, fp_push := False, fp_pop := False,
     fp_advance_time := False, fp_mature := False, fp_clock := fc_clock c\<rparr>"

definition fifo_work ::
  "fifo_params \<Rightarrow> fifo_current \<Rightarrow> fifo_inputs \<Rightarrow> fifo_pending \<Rightarrow> 'o \<Rightarrow> fifo_pending \<times> 'o \<times> exn option" where
  "fifo_work P c i pending out =
     (let p = fifo_discard c pending
      in if \<not> fs_isFullyKnown 1 (fin_clk i)
         then (fifo_discard c p, out, Some (FourStateViolation ''fifo clock must be known''))
         else let p = p\<lparr>fp_clock := toBool (fs_value (fin_clk i)), fp_valid := True\<rparr>
              in if fc_clock c \<or> \<not> fp_clock p then (p, out, None)
                 else if \<not> fs_isFullyKnown 1 (fin_rst i)
                 then (fifo_discard c p, out, Some (FourStateViolation ''fifo reset must be known at posedge''))
                 else if toBool (fs_value (fin_rst i)) then (p\<lparr>fp_reset := True\<rparr>, out, None)
                 else let pop = projr (fs_bit_and 1 (fifo_readValid P c) (fin_out_ready i));
                          push = projr (fs_bit_and 1 (fin_in_valid i) (fifo_readReady P c (fin_out_ready i)))
                      in if \<not> fs_isFullyKnown 1 push \<or> \<not> fs_isFullyKnown 1 pop
                         then (fifo_discard c p, out, Some (FourStateViolation ''fifo effective transfers must be known''))
                         else let p = p\<lparr>fp_push := toBool (fs_value push), fp_pop := toBool (fs_value pop)\<rparr>;
                                  p = (if fp_push p then p\<lparr>fp_token := fin_in_data i\<rparr> else p);
                                  p = (if fifo_Latency P > 1 \<and> fc_initialized c
                                       then p\<lparr>fp_advance_time := True,
                                              fp_mature := (fc_count c > fc_eligible c \<and>
                                                fc_deadline c ! fc_mature_ptr c = wrapTick P (fc_tick c + 1))\<rparr>
                                       else p)
                              in (p, out, None))"

definition fifo_time :: "fifo_params \<Rightarrow> fifo_pending \<Rightarrow> fifo_current \<Rightarrow> fifo_current" where
  "fifo_time P p c =
     (let c = (if fp_advance_time p then c\<lparr>fc_tick := wrapTick P (fc_tick c + 1)\<rparr> else c);
          c = (if fp_mature p then c\<lparr>fc_mature_ptr := ring_next P (fc_mature_ptr c)\<rparr> else c);
          c = (if fp_mature p \<noteq> fp_pop p
               then (if fp_mature p then c\<lparr>fc_eligible := size_inc (fc_eligible c)\<rparr>
                     else c\<lparr>fc_eligible := size_dec (fc_eligible c)\<rparr>)
               else c)
      in if fp_push p
         then c\<lparr>fc_deadline := (fc_deadline c)[fc_wr c := wrapTick P (fc_tick c + of_nat (fifo_Latency P - 1))]\<rparr>
         else c)"

definition fifo_move :: "fifo_params \<Rightarrow> fifo_pending \<Rightarrow> fifo_current \<Rightarrow> fifo_current" where
  "fifo_move P p c =
     (let c = (if fp_push p
               then c\<lparr>fc_storage := (fc_storage c)[fc_wr c := fp_token p], fc_wr := ring_next P (fc_wr c)\<rparr> else c);
          c = (if fp_pop p then c\<lparr>fc_rd := ring_next P (fc_rd c)\<rparr> else c)
      in if fp_push p \<noteq> fp_pop p
         then (if fp_push p then c\<lparr>fc_count := size_inc (fc_count c)\<rparr> else c\<lparr>fc_count := size_dec (fc_count c)\<rparr>)
         else c)"

definition fifo_xfer :: "fifo_params \<Rightarrow> fifo_current \<Rightarrow> fifo_pending \<Rightarrow> 'o \<Rightarrow> fifo_current \<times> fifo_pending \<times> 'o" where
  "fifo_xfer P c p out =
     (if \<not> fp_valid p then (c, p, out)
      else let c = c\<lparr>fc_clock := fp_clock p\<rparr>;
               c = (if fp_reset p
                    then let c = c\<lparr>fc_initialized := True, fc_rd := 0, fc_wr := 0, fc_count := 0\<rparr>
                         in if fifo_Latency P > 1 then c\<lparr>fc_tick := 0, fc_mature_ptr := 0, fc_eligible := 0\<rparr> else c
                    else if fc_initialized c
                    then fifo_move P p (if fifo_Latency P > 1 then fifo_time P p c else c)
                    else c)
           in (c, fifo_discard c p, out))"

definition fifo_reset :: "fifo_current \<Rightarrow> fifo_inputs \<Rightarrow> fifo_pending \<Rightarrow> fifo_pending" where
  "fifo_reset c i p = (fifo_discard c p)\<lparr>fp_valid := True, fp_reset := True, fp_clock := False\<rparr>"

definition fifo_kernel :: "fifo_params \<Rightarrow> (fifo_current, fifo_pending, fifo_inputs, 'o) kernel" where
  "fifo_kernel P = \<lparr>k_work = fifo_work P, k_xfer = fifo_xfer P, k_discard = fifo_discard, k_reset = fifo_reset\<rparr>"

subsection \<open>The kernel contract\<close>

lemmas fifo_defs = fifo_work_def fifo_xfer_def fifo_discard_def fifo_reset_def fifo_time_def fifo_move_def Let_def

text \<open>What an edge decides: an error, or the pending flags, with the token of a push.\<close>

definition fifo_decide :: "fifo_params \<Rightarrow> fifo_current \<Rightarrow> fifo_inputs \<Rightarrow> exn + fifo_pending" where
  "fifo_decide P c i =
     (let flags = \<lparr>fp_token = fin_in_data i, fp_valid = True, fp_clock = toBool (fs_value (fin_clk i)), fp_reset = False,
                   fp_push = False, fp_pop = False, fp_advance_time = False, fp_mature = False\<rparr>;
          pop = projr (fs_bit_and 1 (fifo_readValid P c) (fin_out_ready i));
          push = projr (fs_bit_and 1 (fin_in_valid i) (fifo_readReady P c (fin_out_ready i)))
      in if \<not> fs_isFullyKnown 1 (fin_clk i) then Inl (FourStateViolation ''fifo clock must be known'')
         else if fc_clock c \<or> \<not> toBool (fs_value (fin_clk i)) then Inr flags
         else if \<not> fs_isFullyKnown 1 (fin_rst i) then Inl (FourStateViolation ''fifo reset must be known at posedge'')
         else if toBool (fs_value (fin_rst i)) then Inr (flags\<lparr>fp_reset := True\<rparr>)
         else if \<not> fs_isFullyKnown 1 push \<or> \<not> fs_isFullyKnown 1 pop
         then Inl (FourStateViolation ''fifo effective transfers must be known'')
         else Inr (flags\<lparr>fp_push := toBool (fs_value push), fp_pop := toBool (fs_value pop),
                fp_advance_time := (fifo_Latency P > 1 \<and> fc_initialized c),
                fp_mature := (fifo_Latency P > 1 \<and> fc_initialized c \<and> fc_count c > fc_eligible c \<and>
                  fc_deadline c ! fc_mature_ptr c = wrapTick P (fc_tick c + 1))\<rparr>))"

lemma fifo_work_decide:
  "fifo_work P c i p out =
     (case fifo_decide P c i of
        Inl e \<Rightarrow> (fifo_discard c p, out, Some e)
      | Inr f \<Rightarrow> (f\<lparr>fp_token := (if fp_push f then fp_token f else fp_token p)\<rparr>, out, None))"
proof -
  define pop where "pop = projr (fs_bit_and 1 (fifo_readValid P c) (fin_out_ready i))"
  define push where "push = projr (fs_bit_and 1 (fin_in_valid i) (fifo_readReady P c (fin_out_ready i)))"
  define t where "t = wrapTick P (fc_tick c + 1)"
  show ?thesis unfolding fifo_work_def fifo_decide_def Let_def pop_def[symmetric] push_def[symmetric] t_def[symmetric]
    by (cases p) (simp add: fifo_discard_def, auto)
qed

lemma fifo_xfer_token:
  assumes "\<not> fp_push f"
  shows "fst (fifo_xfer P c (f\<lparr>fp_token := t\<rparr>) out) = fst (fifo_xfer P c f out)"
  using assms by (simp add: fifo_xfer_def fifo_time_def fifo_move_def Let_def)

lemma fifo_decide_valid: "fifo_decide P c i = Inr f \<Longrightarrow> fp_valid f"
  by (auto simp: fifo_decide_def Let_def split: if_splits)

lemma fifo_step:
  "kernel_step (fifo_kernel P) c p i out out' =
     (case fifo_decide P c i of Inl e \<Rightarrow> Inl e | Inr f \<Rightarrow> Inr (fst (fifo_xfer P c f out')))"
  by (auto simp: kernel_step_def fifo_kernel_def fifo_work_decide fifo_xfer_token split: sum.splits)

interpretation fifo_lk: leaf_kernel "fifo_kernel P :: (fifo_current, fifo_pending, fifo_inputs, 'o) kernel" fp_valid for P
proof unfold_locales
  let ?K = "fifo_kernel P :: (fifo_current, fifo_pending, fifo_inputs, 'o) kernel"
  fix c p q i and out out' out2 :: 'o and p' e
  show "\<not> fp_valid (k_discard ?K c p)" by (simp add: fifo_kernel_def fifo_discard_def)
  show "\<not> fp_valid p \<Longrightarrow> k_xfer ?K c p out = (c, p, out)" by (simp add: fifo_kernel_def fifo_xfer_def)
  show "fp_valid p \<Longrightarrow> \<not> fp_valid (fst (snd (k_xfer ?K c p out)))"
    by (simp add: fifo_kernel_def fifo_xfer_def Let_def fifo_discard_def)
  show "k_work ?K c i p out = (p', out', e) \<Longrightarrow> fp_valid p' = (e = None)"
    by (auto simp: fifo_kernel_def fifo_work_decide fifo_discard_def fifo_decide_valid split: sum.splits)
  show "snd (k_work ?K c i p out) = snd (k_work ?K c i q out)"
    by (auto simp: fifo_kernel_def fifo_work_decide split: sum.splits)
  show "fp_valid (k_reset ?K c i p)" by (simp add: fifo_kernel_def fifo_reset_def)
  have sx: "snd (snd (fifo_xfer P c f u)) = u" for f and u :: 'o by (simp add: fifo_xfer_def Let_def)
  show "snd (snd (k_work ?K c i p out)) = None \<Longrightarrow>
      fst (k_xfer ?K c (fst (k_work ?K c i p out)) out') = fst (k_xfer ?K c (fst (k_work ?K c i q out)) out') \<and>
      snd (snd (k_xfer ?K c (fst (k_work ?K c i p out)) out')) = snd (snd (k_xfer ?K c (fst (k_work ?K c i q out)) out'))"
    by (auto simp: fifo_kernel_def fifo_work_decide sx fifo_xfer_token split: sum.splits)
qed

subsection \<open>Wrapped timestamps\<close>

lemma bit_width_bound: "n < 2 ^ bit_width n"
proof (induction n rule: bit_width.induct)
  case (1 n)
  then show ?case by (cases "n = 0") (auto simp: bit_width.simps[of n])
qed

lemma bit_width_le: "n < 2 ^ k \<Longrightarrow> bit_width n \<le> k"
proof (induction k arbitrary: n)
  case (Suc k)
  then show ?case using Suc.IH[of "n div 2"] by (auto simp: bit_width.simps[of n])
qed (simp add: bit_width.simps)

definition fifo_ok :: "fifo_params \<Rightarrow> bool" where
  "fifo_ok P \<longleftrightarrow> 0 < fifo_width P \<and> 0 < fifo_Depth P \<and> fifo_Depth P < 2 ^ 64 \<and> 0 < fifo_Latency P \<and> fifo_Latency P < 2 ^ 64"

lemma TimestampWidth_bounds:
  assumes "fifo_ok P"
  shows "TimestampWidth P \<le> 64" "fifo_Latency P - 1 < 2 ^ TimestampWidth P"
  using assms bit_width_bound[of "fifo_Latency P - 1"] bit_width_le[of "fifo_Latency P - 1" 64]
  by (auto simp: TimestampWidth_def fifo_ok_def)

lemma wrapTick_take_bit: "fifo_ok P \<Longrightarrow> wrapTick P v = take_bit (TimestampWidth P) v"
proof -
  assume "fifo_ok P"
  then have le: "TimestampWidth P \<le> 64" by (rule TimestampWidth_bounds)
  show ?thesis
  proof (cases "TimestampWidth P = 64")
    case True
    then show ?thesis by (simp add: wrapTick_def take_bit_word_eq_self)
  next
    case False
    have "push_bit (TimestampWidth P) 1 - 1 = (mask (TimestampWidth P) :: u64)" by (simp add: mask_eq_exp_minus_1 push_bit_eq_mult)
    then show ?thesis using False by (simp add: wrapTick_def take_bit_eq_mask)
  qed
qed

lemma unat_wrapTick: "fifo_ok P \<Longrightarrow> unat (wrapTick P v) = unat v mod 2 ^ TimestampWidth P"
  unfolding wrapTick_take_bit unsigned_take_bit_eq by (rule take_bit_eq_mod)

definition tick_distance :: "fifo_params \<Rightarrow> u64 \<Rightarrow> u64 \<Rightarrow> nat" where
  "tick_distance P d t = unat (wrapTick P (d - t))"

lemma tick_distance_int:
  assumes ok: "fifo_ok P"
  shows "int (tick_distance P d t) = (int (unat d) - int (unat t)) mod 2 ^ TimestampWidth P"
proof -
  have "int (unat (d - t)) = (int (unat d) - int (unat t)) mod 2 ^ 64"
    by (simp add: uint_word_ariths)
  moreover have "(2::int) ^ TimestampWidth P dvd 2 ^ 64" using TimestampWidth_bounds(1)[OF ok] by (rule le_imp_power_dvd)
  ultimately show ?thesis unfolding tick_distance_def unat_wrapTick[OF ok]
    by (simp only: zmod_int of_nat_power of_nat_numeral mod_mod_cancel)
qed

lemma unat_wrap_add:
  assumes ok: "fifo_ok P"
  shows "int (unat (wrapTick P (t + of_nat k))) = (int (unat t) + int k) mod 2 ^ TimestampWidth P"
proof -
  have "int (unat (t + of_nat k)) = (int (unat t) + int k) mod 2 ^ 64"
    by (simp add: uint_word_ariths unsigned_of_nat take_bit_eq_mod zmod_int mod_simps)
  moreover have "(2::int) ^ TimestampWidth P dvd 2 ^ 64" using TimestampWidth_bounds(1)[OF ok] by (rule le_imp_power_dvd)
  ultimately show ?thesis unfolding unat_wrapTick[OF ok]
    by (simp only: zmod_int of_nat_power of_nat_numeral mod_mod_cancel)
qed

lemma tick_distance_advance:
  assumes ok: "fifo_ok P" and "0 < tick_distance P d t"
  shows "tick_distance P d (wrapTick P (t + 1)) = tick_distance P d t - 1"
proof -
  let ?M = "2 ^ TimestampWidth P :: int"
  have "int (tick_distance P d (wrapTick P (t + 1))) = (int (unat d) - (int (unat t) + 1)) mod ?M"
    unfolding tick_distance_int[OF ok] using unat_wrap_add[OF ok, of t 1] by (simp add: mod_simps)
  also have "\<dots> = ((int (unat d) - int (unat t)) mod ?M - 1) mod ?M" by (simp add: mod_simps algebra_simps)
  also have "\<dots> = (int (tick_distance P d t) - 1) mod ?M" by (simp only: tick_distance_int[OF ok])
  also have "\<dots> = int (tick_distance P d t) - 1"
  proof (rule mod_pos_pos_trivial)
    have "int (tick_distance P d t) < ?M" unfolding tick_distance_int[OF ok] by (rule pos_mod_bound) simp
    then show "int (tick_distance P d t) - 1 < ?M" by linarith
  qed (use assms(2) in simp)
  finally show ?thesis using assms(2) by linarith
qed

lemma tick_distance_new:
  assumes ok: "fifo_ok P"
  shows "tick_distance P (wrapTick P (t + of_nat (fifo_Latency P - 1))) t = fifo_Latency P - 1"
proof -
  have "int (tick_distance P (wrapTick P (t + of_nat (fifo_Latency P - 1))) t) = int (fifo_Latency P - 1) mod 2 ^ TimestampWidth P"
    unfolding tick_distance_int[OF ok] unat_wrap_add[OF ok] by (simp add: mod_simps)
  also have "\<dots> = int ((fifo_Latency P - 1) mod 2 ^ TimestampWidth P)" by (simp add: zmod_int)
  also have "(fifo_Latency P - 1) mod 2 ^ TimestampWidth P = fifo_Latency P - 1" using TimestampWidth_bounds(2)[OF ok] by simp
  finally show ?thesis by simp
qed

lemma tick_distance_one:
  assumes ok: "fifo_ok P" and L: "1 < fifo_Latency P" and d: "wrapTick P d = d"
  shows "d = wrapTick P (t + 1) \<longleftrightarrow> tick_distance P d t = 1"
proof
  assume "tick_distance P d t = 1"
  then have e: "(int (unat d) - int (unat t)) mod 2 ^ TimestampWidth P = 1" using tick_distance_int[OF ok, of d t] by simp
  have "int (unat (wrapTick P (t + 1))) = (int (unat t) + (int (unat d) - int (unat t)) mod 2 ^ TimestampWidth P) mod 2 ^ TimestampWidth P"
    unfolding e using unat_wrap_add[OF ok, of t 1] by simp
  also have "\<dots> = int (unat d) mod 2 ^ TimestampWidth P" by (simp add: mod_simps)
  also have "\<dots> = int (unat (wrapTick P d))" by (simp add: unat_wrapTick[OF ok] zmod_int)
  finally show "d = wrapTick P (t + 1)" unfolding d u64_eq_iff of_nat_eq_iff by (rule sym)
next
  assume d: "d = wrapTick P (t + 1)"
  have pos: "0 < TimestampWidth P"
    using TimestampWidth_bounds(2)[OF ok] L by (cases "TimestampWidth P") auto
  then have "(1::int) < 2 ^ TimestampWidth P" by (intro one_less_power) simp_all
  then have "int (tick_distance P d t) = 1"
    unfolding tick_distance_int[OF ok] d using unat_wrap_add[OF ok, of t 1] pos by (simp add: mod_simps)
  then show "tick_distance P d t = 1" by simp
qed

lemma wrapTick_idem: "fifo_ok P \<Longrightarrow> wrapTick P (wrapTick P v) = wrapTick P v"
  by (simp add: wrapTick_take_bit)

subsection \<open>Ring buffer invariant\<close>

definition fifo_slot :: "fifo_params \<Rightarrow> fifo_current \<Rightarrow> nat \<Rightarrow> nat" where
  "fifo_slot P c k = (fc_rd c + k) mod fifo_Depth P"

definition fifo_remaining :: "fifo_params \<Rightarrow> fifo_current \<Rightarrow> nat \<Rightarrow> nat" where
  "fifo_remaining P c k =
     (if k < eligibleCount P c then 0 else tick_distance P (fc_deadline c ! fifo_slot P c k) (fc_tick c))"

definition fifo_inv :: "fifo_params \<Rightarrow> fifo_current \<Rightarrow> bool" where
  "fifo_inv P c \<longleftrightarrow>
     length (fc_storage c) = fifo_Depth P \<and> fc_rd c < fifo_Depth P \<and> fc_count c \<le> fifo_Depth P \<and>
     fc_wr c = fifo_slot P c (fc_count c) \<and> (\<not> fc_initialized c \<longrightarrow> fc_count c = 0) \<and>
     (fifo_Latency P > 1 \<longrightarrow>
        length (fc_deadline c) = fifo_Depth P \<and> fc_eligible c \<le> fc_count c \<and>
        fc_mature_ptr c = fifo_slot P c (fc_eligible c) \<and>
        (\<forall>k. fc_eligible c \<le> k \<and> k < fc_count c \<longrightarrow>
           wrapTick P (fc_deadline c ! fifo_slot P c k) = fc_deadline c ! fifo_slot P c k \<and>
           0 < fifo_remaining P c k \<and> fifo_remaining P c k < fifo_Latency P) \<and>
        (\<forall>k. fc_eligible c \<le> k \<and> Suc k < fc_count c \<longrightarrow> fifo_remaining P c k < fifo_remaining P c (Suc k)))"

definition fifo_queue :: "fifo_params \<Rightarrow> fifo_current \<Rightarrow> (four_state \<times> nat) list" where
  "fifo_queue P c = map (\<lambda>k. (fc_storage c ! fifo_slot P c k, fifo_remaining P c k)) [0..<fc_count c]"

definition queue_step :: "nat \<Rightarrow> bool \<Rightarrow> bool \<Rightarrow> four_state \<Rightarrow> (four_state \<times> nat) list \<Rightarrow> (four_state \<times> nat) list" where
  "queue_step L push pop token q =
     map (\<lambda>(t, r). (t, r - 1)) (if pop then tl q else q) @ (if push then [(token, L - 1)] else [])"

lemma ring_next_slot: "fifo_ok P \<Longrightarrow> k < fifo_Depth P \<Longrightarrow> ring_next P k = (k + 1) mod fifo_Depth P"
  by (auto simp: ring_next_def size_inc_def fifo_ok_def mod_if)

lemma slot_less: "fifo_ok P \<Longrightarrow> fifo_slot P c k < fifo_Depth P"
  by (simp add: fifo_slot_def fifo_ok_def)

lemma slot_inj:
  assumes "fifo_slot P c j = fifo_slot P c k" "j < k + fifo_Depth P" "k < j + fifo_Depth P"
  shows "j = k"
proof -
  have *: "x = y" if "(a + x) mod n = (a + y) mod n" "x \<le> y" "y < x + n" for a x y n :: nat
  proof -
    have "n dvd (a + y) - (a + x)" using that by (metis mod_eq_dvd_iff_nat add_le_mono1 add_le_cancel_left)
    then have "n dvd y - x" by simp
    moreover have "y - x < n" using that by linarith
    ultimately show ?thesis using that(2) by (metis dvd_imp_le le_antisym not_le zero_less_diff)
  qed
  show ?thesis using assms *[of "fc_rd c" j "fifo_Depth P" k] *[of "fc_rd c" k "fifo_Depth P" j]
    unfolding fifo_slot_def by (metis nat_le_linear)
qed

text \<open>The committed fields after an edge that decided \<open>push\<close> and \<open>pop\<close>.\<close>

lemma fifo_commit_fields:
  assumes ok: "fifo_ok P" and inv: "fifo_inv P c"
    and pop: "fp_pop f \<Longrightarrow> 0 < eligibleCount P c" and push: "fp_push f \<Longrightarrow> fc_count c < fifo_Depth P \<or> fp_pop f"
    and adv: "fp_advance_time f = (fifo_Latency P > 1)"
    and mat: "fp_mature f \<Longrightarrow> fifo_Latency P > 1 \<and> fc_eligible c < fc_count c"
  defines "c' \<equiv> fifo_move P f (if fifo_Latency P > 1 then fifo_time P f c else c)"
  shows "fc_storage c' = (if fp_push f then (fc_storage c)[fc_wr c := fp_token f] else fc_storage c)"
    "fc_rd c' = (fc_rd c + of_bool (fp_pop f)) mod fifo_Depth P"
    "fc_wr c' = (fc_wr c + of_bool (fp_push f)) mod fifo_Depth P"
    "fc_count c' = fc_count c + of_bool (fp_push f) - of_bool (fp_pop f)"
    "fc_initialized c' = fc_initialized c" "fc_clock c' = fc_clock c"
    "fifo_Latency P > 1 \<Longrightarrow> fc_eligible c' = fc_eligible c + of_bool (fp_mature f) - of_bool (fp_pop f)"
    "fifo_Latency P > 1 \<Longrightarrow> fc_mature_ptr c' = (fc_mature_ptr c + of_bool (fp_mature f)) mod fifo_Depth P"
    "fifo_Latency P > 1 \<Longrightarrow> fc_tick c' = wrapTick P (fc_tick c + 1)"
    "fifo_Latency P > 1 \<Longrightarrow> fc_deadline c' = (if fp_push f
       then (fc_deadline c)[fc_wr c := wrapTick P (wrapTick P (fc_tick c + 1) + of_nat (fifo_Latency P - 1))] else fc_deadline c)"
proof -
  have wr: "fc_wr c < fifo_Depth P" using inv slot_less[OF ok] by (simp add: fifo_inv_def)
  have rd: "fc_rd c < fifo_Depth P" and cnt: "fc_count c \<le> fifo_Depth P" using inv by (auto simp: fifo_inv_def)
  have D: "fifo_Depth P < 2 ^ 64" using ok by (simp add: fifo_ok_def)
  have inc: "n < fifo_Depth P \<Longrightarrow> size_inc n = n + 1" for n using D by (simp add: size_inc_def)
  have elc: "fc_eligible c \<le> fc_count c" "fc_mature_ptr c < fifo_Depth P" if "fifo_Latency P > 1"
    using inv that slot_less[OF ok] by (auto simp: fifo_inv_def)
  have popc: "fp_pop f \<Longrightarrow> 0 < fc_count c" using pop elc(1) ok by (auto simp: eligibleCount_def fifo_ok_def split: if_splits)
  have pope: "fp_pop f \<Longrightarrow> fifo_Latency P > 1 \<Longrightarrow> 0 < fc_eligible c" using pop by (simp add: eligibleCount_def)
  have ince: "fp_mature f \<Longrightarrow> size_inc (fc_eligible c) = fc_eligible c + 1" using mat cnt inc by auto
  show "fc_storage c' = (if fp_push f then (fc_storage c)[fc_wr c := fp_token f] else fc_storage c)"
    "fc_initialized c' = fc_initialized c" "fc_clock c' = fc_clock c"
    by (simp_all add: c'_def fifo_move_def fifo_time_def Let_def)
  show "fc_rd c' = (fc_rd c + of_bool (fp_pop f)) mod fifo_Depth P"
    "fc_wr c' = (fc_wr c + of_bool (fp_push f)) mod fifo_Depth P"
    using rd wr by (simp_all add: c'_def fifo_move_def fifo_time_def Let_def ring_next_slot[OF ok])
  show "fc_count c' = fc_count c + of_bool (fp_push f) - of_bool (fp_pop f)"
    using push popc inc by (auto simp: c'_def fifo_move_def fifo_time_def Let_def size_dec_def)
  assume L: "fifo_Latency P > 1"
  define x :: u64 where "x = of_nat (fifo_Latency P - 1)"
  show "fc_eligible c' = fc_eligible c + of_bool (fp_mature f) - of_bool (fp_pop f)"
    using L pope ince adv by (auto simp: c'_def fifo_move_def fifo_time_def Let_def size_dec_def)
  show "fc_mature_ptr c' = (fc_mature_ptr c + of_bool (fp_mature f)) mod fifo_Depth P"
    using L elc(2) by (simp add: c'_def fifo_move_def fifo_time_def Let_def ring_next_slot[OF ok])
  show "fc_tick c' = wrapTick P (fc_tick c + 1)"
    using L adv by (simp add: c'_def fifo_move_def fifo_time_def Let_def)
  show "fc_deadline c' = (if fp_push f
       then (fc_deadline c)[fc_wr c := wrapTick P (wrapTick P (fc_tick c + 1) + of_nat (fifo_Latency P - 1))] else fc_deadline c)"
    unfolding c'_def fifo_move_def fifo_time_def Let_def x_def[symmetric]
    using L adv by (cases "fp_push f"; cases "fp_mature f"; cases "fp_pop f") simp_all
qed

text \<open>One edge of an initialised lane, with the decisions \<open>fifo_decide\<close> takes.\<close>

definition fifo_edge_ok :: "fifo_params \<Rightarrow> fifo_current \<Rightarrow> fifo_pending \<Rightarrow> bool" where
  "fifo_edge_ok P c f \<longleftrightarrow>
     (fp_pop f \<longrightarrow> 0 < eligibleCount P c) \<and> (fp_push f \<longrightarrow> fc_count c < fifo_Depth P \<or> fp_pop f) \<and>
     fp_advance_time f = (fifo_Latency P > 1) \<and>
     (fp_mature f \<longleftrightarrow> fifo_Latency P > 1 \<and> fc_eligible c < fc_count c \<and>
        fc_deadline c ! fc_mature_ptr c = wrapTick P (fc_tick c + 1))"

definition fifo_commit :: "fifo_params \<Rightarrow> fifo_pending \<Rightarrow> fifo_current \<Rightarrow> fifo_current" where
  "fifo_commit P f c = fifo_move P f (if fifo_Latency P > 1 then fifo_time P f c else c)"

lemma fifo_commit_facts:
  assumes ok: "fifo_ok P" and inv: "fifo_inv P c" and e: "fifo_edge_ok P c f"
  defines "c' \<equiv> fifo_commit P f c"
  shows "fc_storage c' = (if fp_push f then (fc_storage c)[fc_wr c := fp_token f] else fc_storage c)"
    "fc_rd c' = (fc_rd c + of_bool (fp_pop f)) mod fifo_Depth P"
    "fc_wr c' = (fc_wr c + of_bool (fp_push f)) mod fifo_Depth P"
    "fc_count c' = fc_count c + of_bool (fp_push f) - of_bool (fp_pop f)"
    "fc_initialized c' = fc_initialized c" "fc_clock c' = fc_clock c"
    "fifo_Latency P > 1 \<Longrightarrow> fc_eligible c' = fc_eligible c + of_bool (fp_mature f) - of_bool (fp_pop f)"
    "fifo_Latency P > 1 \<Longrightarrow> fc_mature_ptr c' = (fc_mature_ptr c + of_bool (fp_mature f)) mod fifo_Depth P"
    "fifo_Latency P > 1 \<Longrightarrow> fc_tick c' = wrapTick P (fc_tick c + 1)"
    "fifo_Latency P > 1 \<Longrightarrow> fc_deadline c' = (if fp_push f
       then (fc_deadline c)[fc_wr c := wrapTick P (wrapTick P (fc_tick c + 1) + of_nat (fifo_Latency P - 1))] else fc_deadline c)"
  unfolding c'_def fifo_commit_def
  by (rule fifo_commit_fields[OF ok inv]; use e in \<open>simp add: fifo_edge_ok_def\<close>)+

lemma fifo_popped:
  assumes "fifo_ok P" "fifo_inv P c" "fifo_edge_ok P c f"
  shows "of_bool (fp_pop f) \<le> fc_count c" "fifo_Latency P > 1 \<Longrightarrow> of_bool (fp_pop f) \<le> fc_eligible c"
    "fc_count c + of_bool (fp_push f) \<le> fifo_Depth P + of_bool (fp_pop f)"
  using assms by (auto simp: fifo_inv_def fifo_edge_ok_def eligibleCount_def fifo_ok_def split: if_splits)

lemma fifo_slot_commit:
  assumes "fifo_ok P" "fifo_inv P c" "fifo_edge_ok P c f"
  shows "fifo_slot P (fifo_commit P f c) k = fifo_slot P c (k + of_bool (fp_pop f))"
  using fifo_commit_facts(2)[OF assms] by (simp add: fifo_slot_def mod_simps algebra_simps)

lemma fifo_kept_slot:
  assumes ok: "fifo_ok P" and inv: "fifo_inv P c" and e: "fifo_edge_ok P c f"
    and k: "of_bool (fp_pop f) \<le> j" "j < fc_count c" and push: "fp_push f"
  shows "fifo_slot P c j \<noteq> fc_wr c"
proof
  assume "fifo_slot P c j = fc_wr c"
  then have "fifo_slot P c j = fifo_slot P c (fc_count c)" using inv by (simp add: fifo_inv_def)
  moreover have "fc_count c < j + fifo_Depth P" using fifo_popped(3)[OF ok inv e] push k by auto
  ultimately have "j = fc_count c" using slot_inj[of P c j "fc_count c"] k by linarith
  then show False using k by simp
qed

lemma fifo_remaining_kept:
  assumes ok: "fifo_ok P" and inv: "fifo_inv P c" and e: "fifo_edge_ok P c f" and L: "fifo_Latency P > 1"
    and j: "of_bool (fp_pop f) \<le> j" "j < fc_count c"
  defines "c' \<equiv> fifo_commit P f c" and "k \<equiv> j - of_bool (fp_pop f)"
  shows "fifo_remaining P c' k = fifo_remaining P c j - 1"
    "fc_eligible c' \<le> k \<Longrightarrow> 0 < fifo_remaining P c' k \<and> fc_eligible c \<le> j \<and> fc_deadline c' ! fifo_slot P c' k = fc_deadline c ! fifo_slot P c j"
proof -
  note F = fifo_commit_facts[OF ok inv e, folded c'_def]
  have I: "fc_eligible c \<le> fc_count c" "fc_mature_ptr c = fifo_slot P c (fc_eligible c)"
    and R: "\<And>k. fc_eligible c \<le> k \<Longrightarrow> k < fc_count c \<Longrightarrow>
       wrapTick P (fc_deadline c ! fifo_slot P c k) = fc_deadline c ! fifo_slot P c k \<and> 0 < fifo_remaining P c k"
    and S: "\<And>k. fc_eligible c \<le> k \<Longrightarrow> Suc k < fc_count c \<Longrightarrow> fifo_remaining P c k < fifo_remaining P c (Suc k)"
    using inv L by (auto simp: fifo_inv_def)
  have el: "eligibleCount P c = fc_eligible c" "eligibleCount P c' = fc_eligible c + of_bool (fp_mature f) - of_bool (fp_pop f)"
    using L F(7) by (simp_all add: eligibleCount_def)
  have pe: "of_bool (fp_pop f) \<le> fc_eligible c" by (rule fifo_popped(2)[OF ok inv e L])
  have kj: "k < eligibleCount P c' \<longleftrightarrow> j < fc_eligible c + of_bool (fp_mature f)" unfolding el k_def using j(1) pe by linarith
  have rem: "fifo_remaining P c j = (if j < fc_eligible c then 0 else tick_distance P (fc_deadline c ! fifo_slot P c j) (fc_tick c))"
    by (simp add: fifo_remaining_def el)
  have slot: "fifo_slot P c' k = fifo_slot P c j" unfolding c'_def fifo_slot_commit[OF ok inv e] k_def using j(1) by simp
  have dl: "fc_deadline c' ! fifo_slot P c' k = fc_deadline c ! fifo_slot P c j"
    unfolding F(10)[OF L] slot using fifo_kept_slot[OF ok inv e j] by (auto simp: nth_list_update_neq)
  have mature: "fp_mature f \<longleftrightarrow> fc_eligible c < fc_count c \<and> fifo_remaining P c (fc_eligible c) = 1"
  proof (cases "fc_eligible c < fc_count c")
    case True
    then have "fc_deadline c ! fc_mature_ptr c = wrapTick P (fc_tick c + 1) \<longleftrightarrow>
        tick_distance P (fc_deadline c ! fifo_slot P c (fc_eligible c)) (fc_tick c) = 1"
      unfolding I(2) using R[OF le_refl] by (intro tick_distance_one[OF ok L]) blast
    then show ?thesis using e True L by (simp add: fifo_edge_ok_def fifo_remaining_def el)
  qed (use e in \<open>simp add: fifo_edge_ok_def\<close>)
  have big: "1 < fifo_remaining P c j" if "fc_eligible c + of_bool (fp_mature f) \<le> j"
  proof (cases "j = fc_eligible c")
    case True
    then show ?thesis using that mature R[of j] j(2) by (cases "fp_mature f") auto
  next
    case False
    then have "fc_eligible c < j" using that by linarith
    then obtain i where i: "j = Suc i" "fc_eligible c \<le> i" by (cases j) auto
    then show ?thesis using S[of i] R[of i] j(2) by fastforce
  qed
  have adv: "fifo_remaining P c' k = fifo_remaining P c j - 1 \<and> 0 < fifo_remaining P c' k" if "\<not> k < eligibleCount P c'"
  proof -
    have n: "fc_eligible c + of_bool (fp_mature f) \<le> j" using that kj by linarith
    have "tick_distance P (fc_deadline c ! fifo_slot P c j) (fc_tick c') = tick_distance P (fc_deadline c ! fifo_slot P c j) (fc_tick c) - 1"
      unfolding F(9)[OF L] by (rule tick_distance_advance[OF ok]) (use big[OF n] rem n in \<open>auto split: if_splits\<close>)
    then show ?thesis using that rem n big[OF n] by (auto simp: fifo_remaining_def[of P c'] dl)
  qed
  show "fifo_remaining P c' k = fifo_remaining P c j - 1"
  proof (cases "k < eligibleCount P c'")
    case True
    then have "fifo_remaining P c' k = 0" by (simp add: fifo_remaining_def)
    moreover have "fifo_remaining P c j \<le> 1"
    proof (cases "j < fc_eligible c")
      case False
      then have "fp_mature f" "j = fc_eligible c" using True unfolding kj by (cases "fp_mature f"; simp)+
      then show ?thesis using mature by simp
    qed (simp add: rem)
    ultimately show ?thesis by simp
  qed (use adv in blast)
  assume "fc_eligible c' \<le> k"
  then have "\<not> k < eligibleCount P c'" using L by (simp add: eligibleCount_def)
  then show "0 < fifo_remaining P c' k \<and> fc_eligible c \<le> j \<and> fc_deadline c' ! fifo_slot P c' k = fc_deadline c ! fifo_slot P c j"
    using adv dl kj by auto
qed

lemma fifo_pushed:
  assumes ok: "fifo_ok P" and inv: "fifo_inv P c" and e: "fifo_edge_ok P c f" and push: "fp_push f"
  defines "c' \<equiv> fifo_commit P f c" and "k \<equiv> fc_count c - of_bool (fp_pop f)"
  shows "fifo_slot P c' k = fc_wr c" "fc_wr c < fifo_Depth P" "fifo_remaining P c' k = fifo_Latency P - 1"
    "fifo_Latency P > 1 \<Longrightarrow> fc_deadline c' ! fc_wr c = wrapTick P (wrapTick P (fc_tick c + 1) + of_nat (fifo_Latency P - 1)) \<and> fc_eligible c' \<le> k"
proof -
  note F = fifo_commit_facts[OF ok inv e, folded c'_def]
  have wr: "fc_wr c = fifo_slot P c (fc_count c)" using inv by (simp add: fifo_inv_def)
  show slot: "fifo_slot P c' k = fc_wr c"
    unfolding c'_def fifo_slot_commit[OF ok inv e] k_def wr using fifo_popped(1)[OF ok inv e] by simp
  show wl: "fc_wr c < fifo_Depth P" unfolding wr by (rule slot_less[OF ok])
  show 4: "fc_deadline c' ! fc_wr c = wrapTick P (wrapTick P (fc_tick c + 1) + of_nat (fifo_Latency P - 1)) \<and> fc_eligible c' \<le> k"
    if L: "fifo_Latency P > 1"
  proof -
    have "length (fc_deadline c) = fifo_Depth P" "fc_eligible c \<le> fc_count c" using inv L by (auto simp: fifo_inv_def)
    moreover have "fc_eligible c + of_bool (fp_mature f) \<le> fc_count c" using calculation(2) e by (auto simp: fifo_edge_ok_def)
    ultimately show ?thesis unfolding F(10)[OF L] F(7)[OF L] k_def using push wl by auto
  qed
  show "fifo_remaining P c' k = fifo_Latency P - 1"
  proof (cases "fifo_Latency P > 1")
    case True
    then show ?thesis using 4[OF True] slot F(9)[OF True] tick_distance_new[OF ok]
      by (simp add: fifo_remaining_def eligibleCount_def)
  next
    case False
    then have "fifo_Latency P = 1" using ok by (simp add: fifo_ok_def)
    moreover have "k < fc_count c'" unfolding F(4) k_def using push fifo_popped(1)[OF ok inv e] by simp
    ultimately show ?thesis by (simp add: fifo_remaining_def eligibleCount_def)
  qed
qed

lemma fifo_remaining_one: "fifo_Latency P = 1 \<Longrightarrow> k < fc_count c \<Longrightarrow> fifo_remaining P c k = 0"
  by (simp add: fifo_remaining_def eligibleCount_def)

lemma fifo_commit_inv:
  assumes ok: "fifo_ok P" and inv: "fifo_inv P c" and e: "fifo_edge_ok P c f" and init: "fc_initialized c"
  shows "fifo_inv P (fifo_commit P f c)"
proof -
  define c' where "c' = fifo_commit P f c"
  note F = fifo_commit_facts[OF ok inv e, folded c'_def] and pops = fifo_popped[OF ok inv e]
  have n: "0 < fifo_Depth P" using ok by (simp add: fifo_ok_def)
  have wr: "fc_wr c = fifo_slot P c (fc_count c)" using inv by (simp add: fifo_inv_def)
  have slot: "fifo_slot P c' k = fifo_slot P c (k + of_bool (fp_pop f))" for k
    unfolding c'_def by (rule fifo_slot_commit[OF ok inv e])
  have wr': "fc_wr c' = fifo_slot P c' (fc_count c')"
    unfolding F(3) slot F(4) wr using pops(1) by (simp add: fifo_slot_def mod_simps algebra_simps)
  have main: "length (fc_deadline c') = fifo_Depth P \<and> fc_eligible c' \<le> fc_count c' \<and>
        fc_mature_ptr c' = fifo_slot P c' (fc_eligible c') \<and>
        (\<forall>k. fc_eligible c' \<le> k \<and> k < fc_count c' \<longrightarrow>
           wrapTick P (fc_deadline c' ! fifo_slot P c' k) = fc_deadline c' ! fifo_slot P c' k \<and>
           0 < fifo_remaining P c' k \<and> fifo_remaining P c' k < fifo_Latency P) \<and>
        (\<forall>k. fc_eligible c' \<le> k \<and> Suc k < fc_count c' \<longrightarrow> fifo_remaining P c' k < fifo_remaining P c' (Suc k))"
    if L: "fifo_Latency P > 1"
  proof (intro conjI allI impI)
    have I: "length (fc_deadline c) = fifo_Depth P" "fc_eligible c \<le> fc_count c" "fc_mature_ptr c = fifo_slot P c (fc_eligible c)"
      and R: "\<And>k. fc_eligible c \<le> k \<Longrightarrow> k < fc_count c \<Longrightarrow>
         wrapTick P (fc_deadline c ! fifo_slot P c k) = fc_deadline c ! fifo_slot P c k \<and> fifo_remaining P c k < fifo_Latency P"
      and S: "\<And>k. fc_eligible c \<le> k \<Longrightarrow> Suc k < fc_count c \<Longrightarrow> fifo_remaining P c k < fifo_remaining P c (Suc k)"
      using inv L by (auto simp: fifo_inv_def)
    show "length (fc_deadline c') = fifo_Depth P" using I(1) by (simp add: F(10)[OF L])
    have mle: "fc_eligible c + of_bool (fp_mature f) \<le> fc_count c" using I(2) e by (auto simp: fifo_edge_ok_def)
    show "fc_eligible c' \<le> fc_count c'" unfolding F(7)[OF L] F(4) using mle by auto
    show "fc_mature_ptr c' = fifo_slot P c' (fc_eligible c')"
      unfolding F(8)[OF L] slot F(7)[OF L] I(3) using pops(2)[OF L] by (simp add: fifo_slot_def mod_simps algebra_simps)
    have kept: "fifo_remaining P c' k = fifo_remaining P c (k + of_bool (fp_pop f)) - 1 \<and>
        (fc_eligible c' \<le> k \<longrightarrow> 0 < fifo_remaining P c' k \<and> fc_eligible c \<le> k + of_bool (fp_pop f) \<and>
          fc_deadline c' ! fifo_slot P c' k = fc_deadline c ! fifo_slot P c (k + of_bool (fp_pop f)))"
      if "k + of_bool (fp_pop f) < fc_count c" for k
      using fifo_remaining_kept[OF ok inv e L _ that] by (simp add: c'_def)
    have new: "fifo_remaining P c' k = fifo_Latency P - 1 \<and> fc_deadline c' ! fifo_slot P c' k = wrapTick P (wrapTick P (fc_tick c + 1) + of_nat (fifo_Latency P - 1))"
      if "fp_push f" "k = fc_count c - of_bool (fp_pop f)" for k
      using fifo_pushed[OF ok inv e that(1)] that(2) L by (simp add: c'_def)
    have split: "k + of_bool (fp_pop f) < fc_count c \<or> fp_push f \<and> k = fc_count c - of_bool (fp_pop f)" if "k < fc_count c'" for k
      using that pops(1) unfolding F(4) by (cases "fp_push f"; cases "fp_pop f") auto
    fix k
    {
      assume k: "fc_eligible c' \<le> k \<and> k < fc_count c'"
      from split[OF conjunct2[OF k]] have a: "wrapTick P (fc_deadline c' ! fifo_slot P c' k) = fc_deadline c' ! fifo_slot P c' k \<and>
          0 < fifo_remaining P c' k \<and> fifo_remaining P c' k < fifo_Latency P"
      proof
        assume j: "k + of_bool (fp_pop f) < fc_count c"
        then show ?thesis using kept[OF j] R[of "k + of_bool (fp_pop f)"] k by auto
      next
        assume "fp_push f \<and> k = fc_count c - of_bool (fp_pop f)"
        then show ?thesis using new[of k] L wrapTick_idem[OF ok] by auto
      qed
      from a show "wrapTick P (fc_deadline c' ! fifo_slot P c' k) = fc_deadline c' ! fifo_slot P c' k" by blast
      from a show "0 < fifo_remaining P c' k" by blast
      from a show "fifo_remaining P c' k < fifo_Latency P" by blast
    }
    assume k: "fc_eligible c' \<le> k \<and> Suc k < fc_count c'"
    then have j: "k + of_bool (fp_pop f) < fc_count c" using split[of "Suc k"] by auto
    note kk = kept[OF j]
    from split[OF conjunct2[OF k]] show "fifo_remaining P c' k < fifo_remaining P c' (Suc k)"
    proof
      assume j': "Suc k + of_bool (fp_pop f) < fc_count c"
      then show ?thesis using kk kept[OF j'] S[of "k + of_bool (fp_pop f)"] k by auto
    next
      assume "fp_push f \<and> Suc k = fc_count c - of_bool (fp_pop f)"
      then have "fifo_remaining P c' (Suc k) = fifo_Latency P - 1" using new[of "Suc k"] by blast
      moreover have "fifo_remaining P c (k + of_bool (fp_pop f)) < fifo_Latency P" using R[OF _ j] kk k by blast
      moreover have "fifo_remaining P c' k = fifo_remaining P c (k + of_bool (fp_pop f)) - 1" "0 < fifo_remaining P c' k"
        using kk k by blast+
      ultimately show ?thesis by linarith
    qed
  qed
  have "fc_count c' \<le> fifo_Depth P" using pops(1,3) unfolding F(4) by linarith
  moreover have "fc_rd c' < fifo_Depth P" unfolding F(2) using n by simp
  moreover have "length (fc_storage c') = fifo_Depth P" using inv by (simp add: F(1) fifo_inv_def)
  ultimately show ?thesis using wr' main init F(5) unfolding c'_def[symmetric] by (simp add: fifo_inv_def)
qed

lemma fifo_commit_queue:
  assumes ok: "fifo_ok P" and inv: "fifo_inv P c" and e: "fifo_edge_ok P c f"
  shows "fifo_queue P (fifo_commit P f c) = queue_step (fifo_Latency P) (fp_push f) (fp_pop f) (fp_token f) (fifo_queue P c)"
proof -
  define c' where "c' = fifo_commit P f c"
  note F = fifo_commit_facts[OF ok inv e, folded c'_def] and pops = fifo_popped[OF ok inv e]
  have slot: "fifo_slot P c' k = fifo_slot P c (k + of_bool (fp_pop f))" for k
    unfolding c'_def by (rule fifo_slot_commit[OF ok inv e])
  have len: "length (fc_storage c) = fifo_Depth P" using inv by (simp add: fifo_inv_def)
  have kept: "(fc_storage c' ! fifo_slot P c' k, fifo_remaining P c' k) =
      (fc_storage c ! fifo_slot P c (k + of_bool (fp_pop f)), fifo_remaining P c (k + of_bool (fp_pop f)) - 1)"
    if j: "k + of_bool (fp_pop f) < fc_count c" for k
  proof -
    have "fc_storage c' ! fifo_slot P c' k = fc_storage c ! fifo_slot P c (k + of_bool (fp_pop f))"
      unfolding F(1) slot using fifo_kept_slot[OF ok inv e _ j] by (auto simp: nth_list_update_neq)
    moreover have "fifo_remaining P c' k = fifo_remaining P c (k + of_bool (fp_pop f)) - 1"
    proof (cases "fifo_Latency P > 1")
      case True
      then show ?thesis using fifo_remaining_kept(1)[OF ok inv e True _ j] by (simp add: c'_def)
    next
      case False
      then have "fifo_Latency P = 1" using ok by (simp add: fifo_ok_def)
      moreover have "k < fc_count c'" unfolding F(4) using j by linarith
      ultimately show ?thesis using j by (simp add: fifo_remaining_one)
    qed
    ultimately show ?thesis by simp
  qed
  have new: "(fc_storage c' ! fifo_slot P c' k, fifo_remaining P c' k) = (fp_token f, fifo_Latency P - 1)"
    if "fp_push f" "k = fc_count c - of_bool (fp_pop f)" for k
    using fifo_pushed[OF ok inv e that(1)] that F(1) len by (simp add: c'_def)
  have "fifo_queue P c' = map (\<lambda>k. (fc_storage c' ! fifo_slot P c' k, fifo_remaining P c' k)) [0..<fc_count c - of_bool (fp_pop f)] @
      (if fp_push f then [(fp_token f, fifo_Latency P - 1)] else [])"
  proof (cases "fp_push f")
    case True
    then have "fc_count c' = Suc (fc_count c - of_bool (fp_pop f))" unfolding F(4) using pops(1) by simp
    then show ?thesis using True new[OF True refl] by (simp add: fifo_queue_def)
  qed (simp add: fifo_queue_def F(4))
  also have "map (\<lambda>k. (fc_storage c' ! fifo_slot P c' k, fifo_remaining P c' k)) [0..<fc_count c - of_bool (fp_pop f)] =
      map (\<lambda>(t, r). (t, r - 1)) (drop (of_bool (fp_pop f)) (fifo_queue P c))"
    by (rule nth_equalityI) (use kept in \<open>auto simp: fifo_queue_def add.commute\<close>)
  also have "drop (of_bool (fp_pop f)) (fifo_queue P c) = (if fp_pop f then tl (fifo_queue P c) else fifo_queue P c)"
    by (simp add: drop_Suc)
  finally show ?thesis unfolding c'_def queue_step_def .
qed

subsection \<open>Refinement of the abstract queue\<close>

definition bool4 :: "bool \<Rightarrow> logic4" where
  "bool4 b = (if b then L1 else L0)"

definition known4 :: "logic4 \<Rightarrow> bool" where
  "known4 x \<longleftrightarrow> x = L0 \<or> x = L1"

definition queue_valid :: "(four_state \<times> nat) list option \<Rightarrow> logic4" where
  "queue_valid s = (case s of None \<Rightarrow> LX | Some q \<Rightarrow> bool4 (q \<noteq> [] \<and> snd (hd q) = 0))"

definition queue_ready :: "fifo_params \<Rightarrow> (four_state \<times> nat) list option \<Rightarrow> logic4 \<Rightarrow> logic4" where
  "queue_ready P s out_ready =
     (case s of None \<Rightarrow> LX
      | Some q \<Rightarrow> (case fifo_Policy P of
            LocalOccupancy \<Rightarrow> bool4 (length q < fifo_Depth P)
          | DownstreamPop \<Rightarrow> or4 (bool4 (length q < fifo_Depth P)) (and4 (queue_valid s) out_ready)))"

text \<open>The abstract lane: the sampled clock and, once it has been reset, the queue.\<close>

definition fifo_spec ::
  "fifo_params \<Rightarrow> bool \<times> (four_state \<times> nat) list option \<Rightarrow> fifo_inputs \<Rightarrow> exn + bool \<times> (four_state \<times> nat) list option" where
  "fifo_spec P s i =
     (case s of (clock, q) \<Rightarrow>
        if \<not> fs_isFullyKnown 1 (fin_clk i) then Inl (FourStateViolation ''fifo clock must be known'')
        else if clock \<or> \<not> toBool (fs_value (fin_clk i)) then Inr (toBool (fs_value (fin_clk i)), q)
        else if \<not> fs_isFullyKnown 1 (fin_rst i) then Inl (FourStateViolation ''fifo reset must be known at posedge'')
        else if toBool (fs_value (fin_rst i)) then Inr (True, Some [])
        else let out_ready = fs_at (fin_out_ready i) 0;
                 pop = and4 (queue_valid q) out_ready;
                 push = and4 (fs_at (fin_in_valid i) 0) (queue_ready P q out_ready)
             in if \<not> known4 push \<or> \<not> known4 pop
                then Inl (FourStateViolation ''fifo effective transfers must be known'')
                else Inr (True, map_option (queue_step (fifo_Latency P) (push = L1) (pop = L1) (fin_in_data i)) q))"

definition fifo_abs :: "fifo_params \<Rightarrow> fifo_current \<Rightarrow> bool \<times> (four_state \<times> nat) list option" where
  "fifo_abs P c = (fc_clock c, if fc_initialized c then Some (fifo_queue P c) else None)"

definition fifo_inputs_ok :: "fifo_inputs \<Rightarrow> bool" where
  "fifo_inputs_ok i \<longleftrightarrow> fs_wf 1 (fin_in_valid i) \<and> fs_wf 1 (fin_out_ready i)"

lemma wire1_logic:
  assumes "fs_wf 1 f"
  shows "fs_isFullyKnown 1 f \<longleftrightarrow> known4 (fs_at f 0)" "known4 (fs_at f 0) \<Longrightarrow> toBool (fs_value f) \<longleftrightarrow> fs_at f 0 = L1"
  using assms fs_isFullyKnown_iff[OF assms] toBool_eq[OF fs_wfD(1)[OF assms]]
  by (auto simp: known4_def fs_at_def split: if_splits)

lemma wire1_gate:
  assumes "fs_wf 1 a" "fs_wf 1 b"
  shows "fs_wf 1 (projr (fs_bit_and 1 a b))" "fs_at (projr (fs_bit_and 1 a b)) 0 = and4 (fs_at a 0) (fs_at b 0)"
    "fs_wf 1 (projr (fs_bit_or 1 a b))" "fs_at (projr (fs_bit_or 1 a b)) 0 = or4 (fs_at a 0) (fs_at b 0)"
  using fs_bitwise_tables(2,3)[OF assms] by (auto simp: fs_yields_def)

lemma fs_at_bool: "fs_known 1 (bits_of_word 1 (if b then 1 else 0)) = fs_bool b" "fs_at (fs_bool b) 0 = bool4 b"
  by (simp_all only: fs_bool_def[symmetric] fs_bool(2) bool4_def)

lemma fifo_head:
  assumes ok: "fifo_ok P" and inv: "fifo_inv P c"
  shows "eligibleCount P c \<noteq> 0 \<longleftrightarrow> fifo_queue P c \<noteq> [] \<and> snd (hd (fifo_queue P c)) = 0"
    and "eligibleCount P c \<noteq> 0 \<Longrightarrow> fst (hd (fifo_queue P c)) = fc_storage c ! fc_rd c"
proof -
  have le: "eligibleCount P c \<le> fc_count c" using inv ok by (auto simp: eligibleCount_def fifo_inv_def fifo_ok_def)
  have hd: "hd (fifo_queue P c) = (fc_storage c ! fifo_slot P c 0, fifo_remaining P c 0)" if "0 < fc_count c"
    using that by (simp add: fifo_queue_def hd_map upt_conv_Cons)
  have "0 < fifo_remaining P c 0" if "eligibleCount P c = 0" "0 < fc_count c"
    using that inv ok by (auto simp: eligibleCount_def fifo_inv_def fifo_ok_def split: if_splits)
  moreover have "fifo_remaining P c 0 = 0" if "eligibleCount P c \<noteq> 0" using that by (simp add: fifo_remaining_def)
  moreover have "fifo_queue P c = [] \<longleftrightarrow> fc_count c = 0" by (simp add: fifo_queue_def)
  ultimately show "eligibleCount P c \<noteq> 0 \<longleftrightarrow> fifo_queue P c \<noteq> [] \<and> snd (hd (fifo_queue P c)) = 0"
    using le hd by (cases "fc_count c = 0"; cases "eligibleCount P c = 0") auto
  show "eligibleCount P c \<noteq> 0 \<Longrightarrow> fst (hd (fifo_queue P c)) = fc_storage c ! fc_rd c"
    using le hd inv by (simp add: fifo_slot_def fifo_inv_def)
qed

lemma fifo_readValid_logic:
  assumes ok: "fifo_ok P" and inv: "fifo_inv P c"
  shows "fs_wf 1 (fifo_readValid P c)" "fs_at (fifo_readValid P c) 0 = queue_valid (snd (fifo_abs P c))"
  unfolding fifo_readValid_def fs_at_bool(1) queue_valid_def fifo_abs_def fifo_head(1)[OF ok inv]
  by (simp_all add: fs_at_unknown bool4_def)

lemma fifo_readReady_logic:
  assumes ok: "fifo_ok P" and inv: "fifo_inv P c" and r: "fs_wf 1 r"
  shows "fs_wf 1 (fifo_readReady P c r)"
    "fs_at (fifo_readReady P c r) 0 = queue_ready P (snd (fifo_abs P c)) (fs_at r 0)"
proof -
  note v = fifo_readValid_logic[OF ok inv]
  note a = wire1_gate(1,2)[OF v(1) r]
  note o' = wire1_gate(3,4)[OF fs_bool(1) a(1)]
  have len: "length (fifo_queue P c) = fc_count c" by (simp add: fifo_queue_def)
  show "fs_wf 1 (fifo_readReady P c r)"
    unfolding fifo_readReady_def fs_at_bool(1) Let_def using o'(1) fs_bool(1) fs_wf_unknown[of 1] by simp
  show "fs_at (fifo_readReady P c r) 0 = queue_ready P (snd (fifo_abs P c)) (fs_at r 0)"
  proof (cases "fc_initialized c")
    case True
    then show ?thesis
      unfolding fifo_readReady_def fs_at_bool(1) Let_def queue_ready_def
      using o'(2) a(2) v(2) len by (cases "fifo_Policy P") (simp_all add: fifo_abs_def bool4_def)
  next
    case False
    then show ?thesis by (simp add: fifo_readReady_def queue_ready_def fifo_abs_def fs_at_unknown)
  qed
qed

lemma fifo_clock_irrelevant [simp]:
  "fifo_slot P (c\<lparr>fc_clock := b\<rparr>) = fifo_slot P c" "eligibleCount P (c\<lparr>fc_clock := b\<rparr>) = eligibleCount P c"
  "fifo_remaining P (c\<lparr>fc_clock := b\<rparr>) = fifo_remaining P c" "fifo_inv P (c\<lparr>fc_clock := b\<rparr>) = fifo_inv P c"
  "fifo_queue P (c\<lparr>fc_clock := b\<rparr>) = fifo_queue P c" "fifo_edge_ok P (c\<lparr>fc_clock := b\<rparr>) f = fifo_edge_ok P c f"
proof -
  show 1: "fifo_slot P (c\<lparr>fc_clock := b\<rparr>) = fifo_slot P c" by (rule ext) (simp add: fifo_slot_def)
  show 2: "eligibleCount P (c\<lparr>fc_clock := b\<rparr>) = eligibleCount P c" by (simp add: eligibleCount_def)
  show 3: "fifo_remaining P (c\<lparr>fc_clock := b\<rparr>) = fifo_remaining P c" by (rule ext) (simp add: fifo_remaining_def 1 2)
  show "fifo_inv P (c\<lparr>fc_clock := b\<rparr>) = fifo_inv P c" by (simp add: fifo_inv_def 1 3)
  show "fifo_queue P (c\<lparr>fc_clock := b\<rparr>) = fifo_queue P c" by (simp add: fifo_queue_def 1 3)
  show "fifo_edge_ok P (c\<lparr>fc_clock := b\<rparr>) f = fifo_edge_ok P c f" by (simp add: fifo_edge_ok_def 2)
qed

lemma and4_L1: "and4 a b = L1 \<longleftrightarrow> a = L1 \<and> b = L1" "or4 a b = L1 \<longleftrightarrow> a = L1 \<or> b = L1" "bool4 b' = L1 \<longleftrightarrow> b'"
  by (auto simp: logic4_tables bool4_def)

lemma fifo_inv_reset:
  "fifo_ok P \<Longrightarrow> fifo_inv P c \<Longrightarrow> fifo_inv P (if fifo_Latency P > 1
     then c\<lparr>fc_clock := b, fc_initialized := True, fc_rd := 0, fc_wr := 0, fc_count := 0, fc_tick := 0, fc_mature_ptr := 0, fc_eligible := 0\<rparr>
     else c\<lparr>fc_clock := b, fc_initialized := True, fc_rd := 0, fc_wr := 0, fc_count := 0\<rparr>)"
  by (auto simp: fifo_inv_def fifo_slot_def fifo_ok_def)

lemma fifo_decide_edge:
  assumes ok: "fifo_ok P" and inv: "fifo_inv P c" and init: "fc_initialized c" and i: "fifo_inputs_ok i"
    and push: "and4 (fs_at (fin_in_valid i) 0) (queue_ready P (snd (fifo_abs P c)) (fs_at (fin_out_ready i) 0)) = bool4 (fp_push f)"
    and pop: "and4 (queue_valid (snd (fifo_abs P c))) (fs_at (fin_out_ready i) 0) = bool4 (fp_pop f)"
    and flags: "fp_advance_time f = (fifo_Latency P > 1)"
      "fp_mature f \<longleftrightarrow> fifo_Latency P > 1 \<and> fc_eligible c < fc_count c \<and> fc_deadline c ! fc_mature_ptr c = wrapTick P (fc_tick c + 1)"
  shows "fifo_edge_ok P c f"
proof -
  have "fp_pop f \<Longrightarrow> eligibleCount P c \<noteq> 0"
    using pop init fifo_head(1)[OF ok inv] by (auto simp: bool4_def fifo_abs_def queue_valid_def logic4_tables split: if_splits)
  moreover have "fp_push f \<Longrightarrow> fc_count c < fifo_Depth P \<or> fp_pop f"
  proof -
    assume "fp_push f"
    then have "queue_ready P (snd (fifo_abs P c)) (fs_at (fin_out_ready i) 0) = L1" using push and4_L1(1) by (simp add: bool4_def)
    then show ?thesis using pop init by (cases "fifo_Policy P") (auto simp: queue_ready_def fifo_abs_def and4_L1 fifo_queue_def bool4_def split: if_splits)
  qed
  ultimately show ?thesis using flags by (simp add: fifo_edge_ok_def)
qed

lemma fifo_refine:
  assumes ok: "fifo_ok P" and inv: "fifo_inv P c" and i: "fifo_inputs_ok i"
  shows "case fifo_decide P c i of
      Inl e \<Rightarrow> fifo_spec P (fifo_abs P c) i = Inl e
    | Inr f \<Rightarrow> fifo_inv P (fst (fifo_xfer P c f out)) \<and> fifo_spec P (fifo_abs P c) i = Inr (fifo_abs P (fst (fifo_xfer P c f out)))"
proof -
  define pop where "pop = projr (fs_bit_and 1 (fifo_readValid P c) (fin_out_ready i))"
  define push where "push = projr (fs_bit_and 1 (fin_in_valid i) (fifo_readReady P c (fin_out_ready i)))"
  define q where "q = snd (fifo_abs P c)"
  have abs: "fifo_abs P c = (fc_clock c, q)" by (simp add: fifo_abs_def q_def)
  define pop4 where "pop4 = and4 (queue_valid q) (fs_at (fin_out_ready i) 0)"
  define push4 where "push4 = and4 (fs_at (fin_in_valid i) 0) (queue_ready P q (fs_at (fin_out_ready i) 0))"
  have iw: "fs_wf 1 (fin_in_valid i)" "fs_wf 1 (fin_out_ready i)" using i by (simp_all add: fifo_inputs_ok_def)
  note rv = fifo_readValid_logic[OF ok inv] and rr = fifo_readReady_logic[OF ok inv iw(2)]
  have p4: "fs_wf 1 pop" "fs_at pop 0 = pop4" "fs_wf 1 push" "fs_at push 0 = push4"
    using wire1_gate(1,2)[OF rv(1) iw(2)] wire1_gate(1,2)[OF iw(1) rr(1)]
    by (simp_all add: pop_def push_def pop4_def push4_def rv(2) rr(2) q_def)
  have kn: "fs_isFullyKnown 1 pop = known4 pop4" "fs_isFullyKnown 1 push = known4 push4"
    using wire1_logic(1)[OF p4(1)] wire1_logic(1)[OF p4(3)] p4(2,4) by simp_all
  have tb: "known4 pop4 \<Longrightarrow> toBool (fs_value pop) = (pop4 = L1)" "known4 push4 \<Longrightarrow> toBool (fs_value push) = (push4 = L1)"
    using wire1_logic(2)[OF p4(1)] wire1_logic(2)[OF p4(3)] p4(2,4) by simp_all
  consider (idle) "fs_isFullyKnown 1 (fin_clk i)" "fc_clock c \<or> \<not> toBool (fs_value (fin_clk i))"
    | (reset) "fs_isFullyKnown 1 (fin_clk i)" "\<not> (fc_clock c \<or> \<not> toBool (fs_value (fin_clk i)))"
        "fs_isFullyKnown 1 (fin_rst i)" "toBool (fs_value (fin_rst i))"
    | (edge) "fs_isFullyKnown 1 (fin_clk i)" "\<not> (fc_clock c \<or> \<not> toBool (fs_value (fin_clk i)))"
        "fs_isFullyKnown 1 (fin_rst i)" "\<not> toBool (fs_value (fin_rst i))" "known4 push4" "known4 pop4"
    | (err) "\<not> fs_isFullyKnown 1 (fin_clk i) \<or> \<not> (fc_clock c \<or> \<not> toBool (fs_value (fin_clk i))) \<and>
        (\<not> fs_isFullyKnown 1 (fin_rst i) \<or> \<not> toBool (fs_value (fin_rst i)) \<and> (\<not> known4 push4 \<or> \<not> known4 pop4))"
    by blast
  then show ?thesis
  proof cases
    case idle
    then show ?thesis using inv
      by (simp add: fifo_decide_def Let_def fifo_xfer_def fifo_move_def fifo_time_def fifo_spec_def fifo_abs_def)
  next
    case reset
    then show ?thesis using fifo_inv_reset[OF ok inv, of True]
      by (auto simp: fifo_decide_def Let_def fifo_xfer_def fifo_spec_def fifo_abs_def fifo_queue_def)
  next
    case err
    then show ?thesis
      unfolding fifo_decide_def fifo_spec_def Let_def pop_def[symmetric] push_def[symmetric] kn abs prod.case
        pop4_def[symmetric] push4_def[symmetric] by auto
  next
    case edge
    define f where "f = \<lparr>fp_token = fin_in_data i, fp_valid = True, fp_clock = True, fp_reset = False,
      fp_push = (push4 = L1), fp_pop = (pop4 = L1), fp_advance_time = (fifo_Latency P > 1 \<and> fc_initialized c),
      fp_mature = (fifo_Latency P > 1 \<and> fc_initialized c \<and> fc_count c > fc_eligible c \<and>
        fc_deadline c ! fc_mature_ptr c = wrapTick P (fc_tick c + 1))\<rparr>"
    have dec: "fifo_decide P c i = Inr f"
      unfolding fifo_decide_def Let_def pop_def[symmetric] push_def[symmetric] kn
      using edge tb by (simp add: f_def)
    have spec: "fifo_spec P (fifo_abs P c) i =
        Inr (True, map_option (queue_step (fifo_Latency P) (fp_push f) (fp_pop f) (fp_token f)) q)"
      unfolding fifo_spec_def Let_def abs prod.case pop4_def[symmetric] push4_def[symmetric] using edge by (simp add: f_def)
    show ?thesis
    proof (cases "fc_initialized c")
      case False
      then have "fst (fifo_xfer P c f out) = c\<lparr>fc_clock := True\<rparr>" by (simp add: fifo_xfer_def f_def Let_def)
      then show ?thesis unfolding dec spec sum.case using False inv by (simp add: fifo_abs_def q_def)
    next
      case True
      have b: "push4 = bool4 (push4 = L1)" "pop4 = bool4 (pop4 = L1)" using edge by (auto simp: known4_def bool4_def)
      have e: "fifo_edge_ok P c f"
        by (rule fifo_decide_edge[OF ok inv True i])
          (use True b in \<open>simp_all add: f_def push4_def[symmetric] pop4_def[symmetric] q_def[symmetric]\<close>)
      then have e1: "fifo_edge_ok P (c\<lparr>fc_clock := True\<rparr>) f" by simp
      have x: "fst (fifo_xfer P c f out) = fifo_commit P f (c\<lparr>fc_clock := True\<rparr>)"
        using True by (simp add: fifo_xfer_def f_def Let_def fifo_commit_def)
      have i1: "fifo_inv P (c\<lparr>fc_clock := True\<rparr>)" "fc_initialized (c\<lparr>fc_clock := True\<rparr>)" using inv True by simp_all
      show ?thesis unfolding dec sum.case spec x
        using fifo_commit_inv[OF ok i1(1) e1 i1(2)] fifo_commit_queue[OF ok i1(1) e1] fifo_commit_facts(5,6)[OF ok i1(1) e1] True
        by (simp add: fifo_abs_def q_def)
    qed
  qed
qed

subsection \<open>Runs\<close>

text \<open>A run of the kernel: \<open>work\<close> and then \<open>xfer\<close> for every sample of the pins, until \<open>work\<close> throws.\<close>

fun fifo_run :: "fifo_params \<Rightarrow> fifo_current \<times> fifo_pending \<Rightarrow> fifo_inputs list \<Rightarrow> exn + fifo_current \<times> fifo_pending" where
  "fifo_run P s [] = Inr s"
| "fifo_run P (c, p) (i # is) =
     (case k_work (fifo_kernel P) c i p () of
        (p1, out, Some e) \<Rightarrow> Inl e
      | (p1, out, None) \<Rightarrow> (case k_xfer (fifo_kernel P) c p1 out of (c2, p2, out2) \<Rightarrow> fifo_run P (c2, p2) is))"

text \<open>The handshakes seen at the pins: at a rising edge a token enters when valid and ready are one on the input side, and leaves
  when they are one on the output side.\<close>

definition fifo_accepts :: "fifo_params \<Rightarrow> fifo_current \<Rightarrow> fifo_inputs \<Rightarrow> bool" where
  "fifo_accepts P c i \<longleftrightarrow> \<not> fc_clock c \<and> toBool (fs_value (fin_clk i)) \<and> fs_at (fin_in_valid i) 0 = L1 \<and>
     fs_at (fifo_readReady P c (fin_out_ready i)) 0 = L1"

definition fifo_delivers :: "fifo_params \<Rightarrow> fifo_current \<Rightarrow> fifo_inputs \<Rightarrow> bool" where
  "fifo_delivers P c i \<longleftrightarrow> \<not> fc_clock c \<and> toBool (fs_value (fin_clk i)) \<and> fs_at (fifo_readValid P c) 0 = L1 \<and>
     fs_at (fin_out_ready i) 0 = L1"

text \<open>The tokens that enter and leave during a run: what \<open>in_data\<close> carried and what \<open>readData\<close> showed.\<close>

fun fifo_transfers :: "fifo_params \<Rightarrow> fifo_current \<times> fifo_pending \<Rightarrow> fifo_inputs list \<Rightarrow> four_state list \<times> four_state list" where
  "fifo_transfers P s [] = ([], [])"
| "fifo_transfers P (c, p) (i # is) =
     (case k_work (fifo_kernel P) c i p () of
        (p1, out, Some e) \<Rightarrow> ([], [])
      | (p1, out, None) \<Rightarrow>
          (case k_xfer (fifo_kernel P) c p1 out of (c2, p2, out2) \<Rightarrow>
             case fifo_transfers P (c2, p2) is of (accepted, delivered) \<Rightarrow>
               ((if fifo_accepts P c i then [fin_in_data i] else []) @ accepted,
                (if fifo_delivers P c i then [fifo_readData P c] else []) @ delivered)))"

lemma fifo_step_order:
  assumes ok: "fifo_ok P" and inv: "fifo_inv P c" and init: "fc_initialized c" and i: "fifo_inputs_ok i"
    and d: "fifo_decide P c i = Inr f" and nr: "\<not> toBool (fs_value (fin_rst i))"
  defines "c' \<equiv> fst (fifo_xfer P c f ())"
  shows "fifo_inv P c'" "fc_initialized c'"
    "map fst (fifo_queue P c) @ (if fifo_accepts P c i then [fin_in_data i] else []) =
       (if fifo_delivers P c i then [fifo_readData P c] else []) @ map fst (fifo_queue P c')"
proof -
  have r: "fifo_inv P c'" "fifo_spec P (fifo_abs P c) i = Inr (fifo_abs P c')"
    using fifo_refine[OF ok inv i, of "()"] by (simp_all add: d c'_def)
  show "fifo_inv P c'" by (rule r(1))
  have abs: "fifo_abs P c = (fc_clock c, Some (fifo_queue P c))" using init by (simp add: fifo_abs_def)
  have nres: "\<not> fp_reset f" using d nr by (auto simp: fifo_decide_def Let_def split: if_splits)
  show init': "fc_initialized c'"
    using init nres by (simp add: c'_def fifo_xfer_def Let_def fifo_move_def fifo_time_def)
  show "map fst (fifo_queue P c) @ (if fifo_accepts P c i then [fin_in_data i] else []) =
       (if fifo_delivers P c i then [fifo_readData P c] else []) @ map fst (fifo_queue P c')"
  proof (cases "fc_clock c \<or> \<not> toBool (fs_value (fin_clk i))")
    case True
    then have "\<not> fifo_accepts P c i" "\<not> fifo_delivers P c i" by (auto simp: fifo_accepts_def fifo_delivers_def)
    moreover have "fifo_queue P c' = fifo_queue P c"
      using r(2) True init' unfolding abs by (auto simp: fifo_spec_def fifo_abs_def split: if_splits)
    ultimately show ?thesis by simp
  next
    case False
    define pop4 push4 where "pop4 = and4 (queue_valid (Some (fifo_queue P c))) (fs_at (fin_out_ready i) 0)"
      and "push4 = and4 (fs_at (fin_in_valid i) 0) (queue_ready P (Some (fifo_queue P c)) (fs_at (fin_out_ready i) 0))"
    have iw: "fs_wf 1 (fin_in_valid i)" "fs_wf 1 (fin_out_ready i)" using i by (simp_all add: fifo_inputs_ok_def)
    note rv = fifo_readValid_logic[OF ok inv] and rr = fifo_readReady_logic[OF ok inv iw(2)]
    have f: "fifo_accepts P c i = (push4 = L1)" "fifo_delivers P c i = (pop4 = L1)"
      using False rv(2) rr(2) by (simp_all add: fifo_accepts_def fifo_delivers_def push4_def pop4_def and4_L1 abs)
    have q': "fifo_queue P c' = queue_step (fifo_Latency P) (push4 = L1) (pop4 = L1) (fin_in_data i) (fifo_queue P c)"
      using r(2) False nr init' unfolding abs fifo_spec_def Let_def prod.case pop4_def[symmetric] push4_def[symmetric]
      by (auto simp: fifo_abs_def split: if_splits)
    have hd: "fifo_queue P c = (fifo_readData P c, snd (hd (fifo_queue P c))) # tl (fifo_queue P c)" if "pop4 = L1"
    proof -
      have "eligibleCount P c \<noteq> 0" unfolding fifo_head(1)[OF ok inv]
        using that by (simp add: pop4_def and4_L1 queue_valid_def)
      then show ?thesis using fifo_head[OF ok inv] init by (cases "fifo_queue P c") (auto simp: fifo_readData_def)
    qed
    show ?thesis
    proof (cases "pop4 = L1")
      case True
      then show ?thesis unfolding q' f queue_step_def by (subst hd) (simp_all add: case_prod_beta)
    qed (simp add: q' f queue_step_def case_prod_beta)
  qed
qed

lemma fifo_kernel_decide:
  assumes "k_work (fifo_kernel P) c i p () = (p1, out, None)"
  obtains f where "fifo_decide P c i = Inr f" "fst (k_xfer (fifo_kernel P) c p1 out) = fst (fifo_xfer P c f ())"
  using assms that by (cases "fifo_decide P c i") (auto simp: fifo_kernel_def fifo_work_decide fifo_xfer_token split: if_splits)

lemma fifo_run_order:
  assumes "fifo_ok P" "fifo_inv P c" "fc_initialized c"
    and "list_all (\<lambda>i. fifo_inputs_ok i \<and> \<not> toBool (fs_value (fin_rst i))) is"
    and "fifo_run P (c, p) is = Inr (c', p')"
  shows "fifo_inv P c' \<and>
    map fst (fifo_queue P c) @ fst (fifo_transfers P (c, p) is) = snd (fifo_transfers P (c, p) is) @ map fst (fifo_queue P c')"
  using assms
proof (induction "is" arbitrary: c p)
  case (Cons i "is")
  obtain p1 e where w: "k_work (fifo_kernel P) c i p () = (p1, (), e)" by (metis prod_cases3 unit.exhaust)
  have e: "e = None" using Cons.prems(5) w by (cases e) auto
  obtain c2 p2 where x: "k_xfer (fifo_kernel P) c p1 () = (c2, p2, ())" by (metis prod_cases3 unit.exhaust)
  obtain f where f: "fifo_decide P c i = Inr f" "c2 = fst (fifo_xfer P c f ())"
    using fifo_kernel_decide[OF w[unfolded e]] x by (metis fst_conv)
  have i: "fifo_inputs_ok i" "\<not> toBool (fs_value (fin_rst i))" using Cons.prems(4) by simp_all
  note s = fifo_step_order[OF Cons.prems(1-3) i(1) f(1) i(2), folded f(2)]
  have "fifo_inv P c' \<and>
      map fst (fifo_queue P c2) @ fst (fifo_transfers P (c2, p2) is) = snd (fifo_transfers P (c2, p2) is) @ map fst (fifo_queue P c')"
    using Cons.prems(4,5) w x e by (intro Cons.IH[OF Cons.prems(1) s(1,2)]) simp_all
  then show ?case using s(3) w x e by (auto simp: case_prod_beta simp flip: append_assoc)
qed simp

subsection \<open>Properties\<close>

text \<open>C1.  A queue lane refines the abstract timed queue.  On every input, a step of the ring buffer throws
  exactly when the abstract queue does, with the same error, and otherwise reaches a state that represents
  the abstract successor: pops take the oldest readable token, pushes append a token that becomes
  readable after the configured number of rising edges, and wrapped timestamps never confuse two
  tokens.  The ring-buffer invariant is kept.\<close>

theorem fifo_refines_queue:
  assumes "fifo_ok P" "fifo_inv P c" "fifo_inputs_ok i"
  shows "case kernel_step (fifo_kernel P) c p i out out' of
      Inl e \<Rightarrow> fifo_spec P (fifo_abs P c) i = Inl e
    | Inr c' \<Rightarrow> fifo_inv P c' \<and> fifo_spec P (fifo_abs P c) i = Inr (fifo_abs P c')"
  using fifo_refine[OF assms, of out'] by (auto simp: fifo_step split: sum.splits)

theorem fifo_refines_queue_witness:
  "case kernel_step (fifo_kernel \<lparr>fifo_width = 8, fifo_Depth = 2, fifo_Policy = DownstreamPop, fifo_Latency = 3\<rparr>)
      \<lparr>fc_storage = [fs_unknown 8, fs_unknown 8], fc_rd = 0, fc_wr = 0, fc_count = 0, fc_initialized = True, fc_clock = False,
       fc_deadline = [0, 0], fc_tick = 0, fc_mature_ptr = 0, fc_eligible = 0\<rparr>
      \<lparr>fp_token = fs_unknown 8, fp_valid = False, fp_clock = False, fp_reset = False, fp_push = False, fp_pop = False,
       fp_advance_time = False, fp_mature = False\<rparr>
      \<lparr>fin_clk = fs_bool True, fin_rst = fs_bool False, fin_in_valid = fs_bool True, fin_in_data = fs_known 8 [7],
       fin_out_ready = fs_bool False\<rparr> () () of
      Inl e \<Rightarrow> False | Inr c' \<Rightarrow> snd (fifo_abs \<lparr>fifo_width = 8, fifo_Depth = 2, fifo_Policy = DownstreamPop, fifo_Latency = 3\<rparr> c')
        = Some [(fs_known 8 [7], 2)]"
  (is "case kernel_step (fifo_kernel ?P) ?c ?p ?i () () of Inl e \<Rightarrow> False | Inr c' \<Rightarrow> _ c'")
proof -
  have ok: "fifo_ok ?P" by (simp add: fifo_ok_def)
  have inv: "fifo_inv ?P ?c" by (simp add: fifo_inv_def fifo_slot_def)
  have i: "fifo_inputs_ok ?i" by (simp add: fifo_inputs_ok_def)
  have "fifo_abs ?P ?c = (False, Some [])" by (simp add: fifo_abs_def fifo_queue_def)
  moreover have "toBool (fs_value (fs_bool True))" "\<not> toBool (fs_value (fs_bool False))" by code_simp+
  ultimately have "fifo_spec ?P (fifo_abs ?P ?c) ?i = Inr (True, Some [(fs_known 8 [7], 2)])"
    by (simp add: fifo_spec_def queue_valid_def queue_ready_def bool4_def known4_def queue_step_def logic4_tables)
  then show ?thesis using fifo_refines_queue[OF ok inv i, of ?p "()" "()"] by (auto split: sum.splits)
qed

text \<open>C36.  The outputs of a lane show the abstract queue: before the first reset everything is unknown;
  then \<open>readValid\<close> is one exactly when the oldest token is readable, \<open>readData\<close> is that token (or zero), and
  \<open>readReady\<close> is one exactly when there is room, or, under the downstream policy, when a pop makes room.\<close>

theorem fifo_outputs:
  assumes "fifo_ok P" "fifo_inv P c" "fs_wf 1 r"
  shows "fs_at (fifo_readValid P c) 0 = queue_valid (snd (fifo_abs P c)) \<and>
    fs_at (fifo_readReady P c r) 0 = queue_ready P (snd (fifo_abs P c)) (fs_at r 0) \<and>
    fifo_readData P c = (case snd (fifo_abs P c) of
        None \<Rightarrow> fs_unknown (fifo_width P)
      | Some q \<Rightarrow> if q \<noteq> [] \<and> snd (hd q) = 0 then fst (hd q) else fs_known (fifo_width P) (bits_default (fifo_width P)))"
  using fifo_readValid_logic[OF assms(1,2)] fifo_readReady_logic[OF assms] fifo_head[OF assms(1,2)]
  by (auto simp: fifo_readData_def fifo_abs_def)

theorem fifo_outputs_witness:
  "fifo_readData \<lparr>fifo_width = 8, fifo_Depth = 1, fifo_Policy = LocalOccupancy, fifo_Latency = 1\<rparr>
     \<lparr>fc_storage = [fs_known 8 [7]], fc_rd = 0, fc_wr = 0, fc_count = 1, fc_initialized = True, fc_clock = True,
      fc_deadline = [], fc_tick = 0, fc_mature_ptr = 0, fc_eligible = 0\<rparr> = fs_known 8 [7]"
  (is "fifo_readData ?P ?c = _")
proof -
  have "fifo_ok ?P" "fifo_inv ?P ?c" "fs_wf 1 (fs_bool True)"
    by (simp_all add: fifo_ok_def fifo_inv_def fifo_slot_def)
  moreover have "fifo_abs ?P ?c = (True, Some [(fs_known 8 [7], 0)])"
    by (simp add: fifo_abs_def fifo_queue_def fifo_slot_def fifo_remaining_def eligibleCount_def)
  ultimately show ?thesis using fifo_outputs[of ?P ?c "fs_bool True"] by simp
qed

text \<open>C13.  Over any run of work and xfer without reset, the tokens a lane held and those it took in at the handshakes of its
  input side are the tokens it handed out at the handshakes of its output side followed by those it still holds, in order:
  nothing is lost, duplicated, changed or reordered, whatever the latency and the ready policy.\<close>

theorem fifo_preserves_order:
  assumes "fifo_ok P" "fifo_inv P c" "fc_initialized c"
    and "list_all (\<lambda>i. fifo_inputs_ok i \<and> \<not> toBool (fs_value (fin_rst i))) is" "fifo_run P (c, p) is = Inr (c', p')"
  shows "map fst (fifo_queue P c) @ fst (fifo_transfers P (c, p) is) = snd (fifo_transfers P (c, p) is) @ map fst (fifo_queue P c')"
  using fifo_run_order[OF assms] by simp

theorem fifo_preserves_order_witness:
  "let P = \<lparr>fifo_width = 8, fifo_Depth = 1, fifo_Policy = DownstreamPop, fifo_Latency = 1\<rparr>;
       c = \<lparr>fc_storage = [fs_known 8 [7]], fc_rd = 0, fc_wr = 0, fc_count = 1, fc_initialized = True, fc_clock = False,
         fc_deadline = [], fc_tick = 0, fc_mature_ptr = 0, fc_eligible = 0\<rparr>;
       p = \<lparr>fp_token = fs_unknown 8, fp_valid = False, fp_clock = False, fp_reset = False, fp_push = False, fp_pop = False,
         fp_advance_time = False, fp_mature = False\<rparr>;
       i = \<lparr>fin_clk = fs_bool True, fin_rst = fs_bool False, fin_in_valid = fs_bool True, fin_in_data = fs_known 8 [9],
         fin_out_ready = fs_bool True\<rparr>
   in (\<exists>c' p'. fifo_run P (c, p) [i] = Inr (c', p') \<and> map fst (fifo_queue P c') = [fs_known 8 [9]]) \<and>
      fifo_transfers P (c, p) [i] = ([fs_known 8 [9]], [fs_known 8 [7]])"
proof -
  let ?P = "\<lparr>fifo_width = 8, fifo_Depth = 1, fifo_Policy = DownstreamPop, fifo_Latency = 1\<rparr>"
  let ?c = "\<lparr>fc_storage = [fs_known 8 [7]], fc_rd = 0, fc_wr = 0, fc_count = 1, fc_initialized = True, fc_clock = False,
    fc_deadline = [], fc_tick = 0, fc_mature_ptr = 0, fc_eligible = 0\<rparr>"
  let ?p = "\<lparr>fp_token = fs_unknown 8, fp_valid = False, fp_clock = False, fp_reset = False, fp_push = False, fp_pop = False,
    fp_advance_time = False, fp_mature = False\<rparr>"
  let ?i = "\<lparr>fin_clk = fs_bool True, fin_rst = fs_bool False, fin_in_valid = fs_bool True, fin_in_data = fs_known 8 [9],
    fin_out_ready = fs_bool True\<rparr>"
  have "case fifo_run ?P (?c, ?p) [?i] of Inr _ \<Rightarrow> True | Inl _ \<Rightarrow> False" by code_simp
  then obtain c' p' where run: "fifo_run ?P (?c, ?p) [?i] = Inr (c', p')" by (auto split: sum.splits)
  have ok: "fifo_ok ?P" "fifo_inv ?P ?c" by (simp_all add: fifo_ok_def fifo_inv_def fifo_slot_def)
  have clk: "\<not> toBool (fs_value (fs_bool False))" "toBool (fs_value (fs_bool True))" by code_simp+
  then have ins: "list_all (\<lambda>i. fifo_inputs_ok i \<and> \<not> toBool (fs_value (fin_rst i))) [?i]" by (simp add: fifo_inputs_ok_def)
  have q: "fifo_abs ?P ?c = (False, Some [(fs_known 8 [7], 0)])" "fifo_queue ?P ?c = [(fs_known 8 [7], 0)]"
    by (simp_all add: fifo_abs_def fifo_queue_def fifo_slot_def fifo_remaining_def eligibleCount_def)
  have "fs_at (fifo_readValid ?P ?c) 0 = L1" using fifo_readValid_logic(2)[OF ok] unfolding q by (simp add: queue_valid_def bool4_def)
  moreover have "fs_at (fifo_readReady ?P ?c (fs_bool True)) 0 = L1"
    using fifo_readReady_logic(2)[OF ok, of "fs_bool True"] unfolding q
    by (simp add: queue_ready_def queue_valid_def fs_at_bool bool4_def logic4_tables)
  ultimately have "fifo_accepts ?P ?c ?i" "fifo_delivers ?P ?c ?i"
    using clk by (simp_all add: fifo_accepts_def fifo_delivers_def fs_at_bool bool4_def)
  moreover have "fifo_readData ?P ?c = fs_known 8 [7]" by (simp add: fifo_readData_def eligibleCount_def)
  ultimately have t: "fifo_transfers ?P (?c, ?p) [?i] = ([fs_known 8 [9]], [fs_known 8 [7]])"
    using run by (auto split: prod.splits option.splits)
  have "map fst (fifo_queue ?P c') = [fs_known 8 [9]]" using fifo_preserves_order[OF ok _ ins run] unfolding t q by simp
  then show ?thesis using run t by (simp add: Let_def)
qed

end
