(* ===== verification/Gfsim_Memory.thy ===== *)
theory Gfsim_Memory
  imports Gfsim_Kernel
begin

text \<open>
  Address and strobe arithmetic of \<^verbatim>\<open>include/gfsim/memory_detail.h\<close> and the synchronous memories
  of \<^verbatim>\<open>include/gfsim/sync_mem.h\<close>: the kernel \<^verbatim>\<open>sync_mem_kernel\<close> with one or two read ports
  and the modules \<^verbatim>\<open>sync_mem\<close> and \<^verbatim>\<open>sync_mem_dp\<close>.  The template parameters are a record
  \<open>mem_params\<close>.  Arrays over the read ports are functions of the port number, of which the ports below
  \<open>READ_PORTS\<close> count; the storage array is a list.  A payload wire is its packed four-state value.

  The abstract memory is a matrix of bits with, per port, the last response and its age.  \<open>mem_abs\<close> reads
  it off a kernel state, and the refinement lemma says that a kernel step is the step of the abstract memory.
\<close>

subsection \<open>Addresses and strobes\<close>

definition memory_index :: "nat \<Rightarrow> bits \<Rightarrow> u64" where
  "memory_index w addr =
     (if w \<le> 64 then bits_value addr
      else if list_ex (\<lambda>b. bits_bit w addr b) [64..<w] then - 1
      else fold (\<lambda>b result. if bits_bit w addr b then result OR push_bit b 1 else result) [0..<64] 0)"

text \<open>The loop bound \<^verbatim>\<open>bit < Width - low\<close> is unsigned; every lane of a strobe of
  \<open>\<lceil>Width / 8\<rceil>\<close> bits starts below \<^verbatim>\<open>Width\<close>, so it does not wrap.\<close>

definition strobe_lane :: "nat \<Rightarrow> nat \<Rightarrow> bits \<Rightarrow> bits" where
  "strobe_lane w lane msk =
     fold (\<lambda>b msk. bits_or w msk (bits_shl w (bits_of_word w 1) (lane * 8 + b))) [0..<min 8 (w - lane * 8)] msk"

definition strobe_mask :: "nat \<Rightarrow> nat \<Rightarrow> bits \<Rightarrow> bits" where
  "strobe_mask w sw strobe =
     fold (\<lambda>lane msk. if \<not> bits_bit sw strobe lane then msk else strobe_lane w lane msk) [0..<sw] (bits_default w)"

definition memory_strobe :: "nat \<Rightarrow> nat \<Rightarrow> bits \<Rightarrow> bits \<Rightarrow> bits \<Rightarrow> bits" where
  "memory_strobe w sw oldValue newValue strobe =
     (let msk = strobe_mask w sw strobe
      in bits_or w (bits_and w oldValue (bits_not w msk)) (bits_and w newValue msk))"

lemma unat_memory_index:
  assumes wf: "bits_wf w a"
  shows "unat (memory_index w a) = (if bval a < 2 ^ 64 then bval a else 2 ^ 64 - 1)"
proof (cases "w \<le> 64")
  case True
  have "bval a < 2 ^ 64"
    using bits_wf_less[OF wf] True by (meson less_le_trans one_le_numeral power_increasing)
  then show ?thesis using unat_bits_value_small[OF wf True] True by (simp add: memory_index_def)
next
  case False
  have ex: "list_ex (\<lambda>b. bits_bit w a b) [64..<w] \<longleftrightarrow> \<not> bval a < 2 ^ 64"
    unfolding nat_bits_less_iff list_ex_iff using bits_wf_bit_less[OF wf] bits_bit_eq[OF wf] by fastforce
  have fold: "bit (fold (\<lambda>b result. if bits_bit w a b then result OR push_bit b 1 else result) [0..<n] (0::u64)) i
      \<longleftrightarrow> i < n \<and> bit (bval a) i" if "n \<le> 64" for n i
    using that
    by (induction n) (auto simp: bits_bit_eq[OF wf] bit_or_iff bit_exp_iff less_Suc_eq)
  have "unat (fold (\<lambda>b result. if bits_bit w a b then result OR push_bit b 1 else result) [0..<64] (0::u64)) = bval a"
    if "bval a < 2 ^ 64"
    unfolding nat_bit_eq_iff bit_unat_u64 using fold[of 64] nat_bit_lessD[OF that] by auto
  then show ?thesis using False ex by (auto simp: memory_index_def unsigned_minus_1_eq_mask mask_eq_exp_minus_1)
qed

lemma memory_index_less:
  assumes "bits_wf w a" "n < 2 ^ 64"
  shows "unat (memory_index w a) < n \<longleftrightarrow> bval a < n" "bval a < n \<Longrightarrow> unat (memory_index w a) = bval a"
  using assms by (auto simp: unat_memory_index)

lemma strobe_lane_wf: "bits_wf w m \<Longrightarrow> bits_wf w (strobe_lane w lane m)"
proof -
  assume m: "bits_wf w m"
  have "bits_wf w (fold (\<lambda>b msk. bits_or w msk (bits_shl w (bits_of_word w 1) (lane * 8 + b))) bs m)" for bs
    using m by (induction bs arbitrary: m) (simp_all add: bits_wf_bitwise bits_wf_pos)
  then show ?thesis by (simp add: strobe_lane_def)
qed

lemma bit_strobe_lane:
  assumes m: "bits_wf w m"
  shows "bit (bval (strobe_lane w lane m)) i \<longleftrightarrow> bit (bval m) i \<or> (i < w \<and> i div 8 = lane)"
proof -
  have pos: "0 < w" by (rule bits_wf_pos[OF m])
  have one: "bit (bval (bits_of_word w 1)) j \<longleftrightarrow> j = 0" for j using pos by (simp add: bval_of_word bit_Suc_0_iff)
  define F where "F n = fold (\<lambda>b msk. bits_or w msk (bits_shl w (bits_of_word w 1) (lane * 8 + b))) [0..<n] m" for n
  have F: "F 0 = m" "F (Suc n) = bits_or w (F n) (bits_shl w (bits_of_word w 1) (lane * 8 + n))" for n by (simp_all add: F_def)
  have "bits_wf w (F n) \<and> (bit (bval (F n)) i \<longleftrightarrow> bit (bval m) i \<or> (i < w \<and> lane * 8 \<le> i \<and> i < lane * 8 + n))" for n
  proof (induction n)
    case (Suc n)
    have "bit (bval (F (Suc n))) i \<longleftrightarrow> bit (bval (F n)) i \<or> (i < w \<and> i = lane * 8 + n)"
      using Suc by (auto simp: F bit_bitwise(2) bits_wf_shl bits_wf_of_word pos bit_shl one)
    then show ?case using Suc by (auto simp: F(2) bits_wf_bitwise pos)
  qed (use m in \<open>auto simp: F\<close>)
  from this[of "min 8 (w - lane * 8)"] show ?thesis unfolding strobe_lane_def F_def[symmetric] by auto
qed

lemma strobe_mask:
  assumes s: "bits_wf sw strobe" and w: "0 < w"
  shows "bits_wf w (strobe_mask w sw strobe)"
    "bit (bval (strobe_mask w sw strobe)) i \<longleftrightarrow> i < w \<and> bit (bval strobe) (i div 8)"
proof -
  define F where "F n = fold (\<lambda>lane msk. if \<not> bits_bit sw strobe lane then msk else strobe_lane w lane msk) [0..<n] (bits_default w)" for n
  have F: "F 0 = bits_default w" "F (Suc n) = (if \<not> bits_bit sw strobe n then F n else strobe_lane w n (F n))" for n
    by (simp_all add: F_def)
  have "bits_wf w (F n) \<and> (\<forall>i. bit (bval (F n)) i \<longleftrightarrow> i < w \<and> i div 8 < n \<and> bit (bval strobe) (i div 8))" for n
  proof (induction n)
    case (Suc n)
    then show ?case by (auto simp: F(2) strobe_lane_wf bit_strobe_lane bits_bit_eq[OF s] less_Suc_eq)
  qed (simp add: F bits_wf_default w bval_default)
  from this[of sw] show "bits_wf w (strobe_mask w sw strobe)"
    "bit (bval (strobe_mask w sw strobe)) i \<longleftrightarrow> i < w \<and> bit (bval strobe) (i div 8)"
    using bits_wf_bit_less[OF s] unfolding strobe_mask_def F_def[symmetric] by auto
qed

lemma memory_strobe:
  assumes "bits_wf sw strobe" "bits_wf w a" "bits_wf w b"
  shows "bits_wf w (memory_strobe w sw a b strobe)"
    "bit (bval (memory_strobe w sw a b strobe)) i \<longleftrightarrow> (if bit (bval strobe) (i div 8) then bit (bval b) i else bit (bval a) i)"
proof -
  note w = bits_wf_pos[OF assms(2)]
  note m = strobe_mask[OF assms(1) w]
  show "bits_wf w (memory_strobe w sw a b strobe)" by (simp add: memory_strobe_def Let_def bits_wf_bitwise w)
  show "bit (bval (memory_strobe w sw a b strobe)) i \<longleftrightarrow> (if bit (bval strobe) (i div 8) then bit (bval b) i else bit (bval a) i)"
    using bits_wf_bit_less[OF assms(2), of i] bits_wf_bit_less[OF assms(3), of i]
    by (auto simp: memory_strobe_def Let_def bit_bitwise[where w=w] bits_wf_bitwise w m assms)
qed

subsection \<open>The kernel\<close>

record mem_params =
  DATA_BITS :: nat
  ADDR_WIDTH :: nat
  DEPTH :: nat
  READ_PORTS :: nat

definition STRB_WIDTH :: "mem_params \<Rightarrow> nat" where
  "STRB_WIDTH P = DATA_BITS P div 8 + (if DATA_BITS P mod 8 \<noteq> 0 then 1 else 0)"

record mem_current =
  mc_memory :: "bits list"
  mc_q :: "nat \<Rightarrow> four_state"
  mc_live :: "nat \<Rightarrow> bool"
  mc_idle :: "nat \<Rightarrow> nat"
  mc_clock :: bool

record mem_pending =
  mp_q :: "nat \<Rightarrow> four_state"
  mp_read :: "nat \<Rightarrow> bool"
  mp_invalidate :: "nat \<Rightarrow> bool"
  mp_idle :: "nat \<Rightarrow> nat"
  mp_data :: bits
  mp_address :: nat
  mp_write :: bool
  mp_clock :: bool
  mp_valid :: bool

record mem_inputs =
  min_clk :: four_state
  min_rst :: four_state
  min_ren :: "nat \<Rightarrow> four_state"
  min_raddr :: "nat \<Rightarrow> four_state"
  min_wvalid :: four_state
  min_waddr :: four_state
  min_wdata :: four_state
  min_wstrb :: four_state

text \<open>The optional status pointers are \<open>None\<close> where the owner passes none.\<close>

record mem_outputs =
  mo_rdata :: "nat \<Rightarrow> four_state"
  mo_rlive :: "nat \<Rightarrow> four_state option"

definition mem_discard :: "mem_current \<Rightarrow> mem_pending \<Rightarrow> mem_pending" where
  "mem_discard c p = p\<lparr>mp_valid := False, mp_clock := mc_clock c, mp_write := False, mp_read := (\<lambda>_. False),
     mp_invalidate := (\<lambda>_. False), mp_idle := mc_idle c\<rparr>"

definition mem_invalidate :: "mem_params \<Rightarrow> mem_pending \<Rightarrow> mem_pending" where
  "mem_invalidate P p = p\<lparr>mp_invalidate := (\<lambda>_. True), mp_idle := (\<lambda>_. 0), mp_q := (\<lambda>_. fs_unknown (DATA_BITS P))\<rparr>"

definition mem_reset :: "mem_params \<Rightarrow> mem_current \<Rightarrow> mem_inputs \<Rightarrow> mem_pending \<Rightarrow> mem_pending" where
  "mem_reset P c i p = mem_invalidate P ((mem_discard c p)\<lparr>mp_valid := True, mp_clock := False\<rparr>)"

definition mem_msg :: "mem_params \<Rightarrow> string \<Rightarrow> exn" where
  "mem_msg P s = FourStateViolation ((if READ_PORTS P = 1 then ''sync_mem '' else ''sync_mem_dp '') @ s)"

definition mem_stage_write :: "mem_params \<Rightarrow> mem_current \<Rightarrow> mem_inputs \<Rightarrow> mem_pending \<Rightarrow> exn + mem_pending" where
  "mem_stage_write P c i p =
     (if \<not> toBool (fs_value (min_wvalid i)) then Inr p
      else if \<not> fs_isFullyKnown (ADDR_WIDTH P) (min_waddr i) \<or> \<not> fs_isFullyKnown (DATA_BITS P) (min_wdata i) \<or>
              \<not> fs_isFullyKnown (STRB_WIDTH P) (min_wstrb i)
      then Inl (mem_msg P ''enabled write address/data/strobe must be known'')
      else let p = p\<lparr>mp_address := unat (memory_index (ADDR_WIDTH P) (fs_value (min_waddr i)))\<rparr>
           in Inr (if mp_address p < DEPTH P
                   then p\<lparr>mp_data := memory_strobe (DATA_BITS P) (STRB_WIDTH P) (mc_memory c ! mp_address p)
                              (fs_value (min_wdata i)) (fs_value (min_wstrb i)), mp_write := True\<rparr>
                   else p))"

definition mem_stage_read :: "mem_params \<Rightarrow> mem_current \<Rightarrow> mem_inputs \<Rightarrow> nat \<Rightarrow> mem_pending \<Rightarrow> exn + mem_pending" where
  "mem_stage_read P c i port p =
     (if toBool (fs_value (min_ren i port)) then
        if \<not> fs_isFullyKnown (ADDR_WIDTH P) (min_raddr i port)
        then Inl (mem_msg P ''enabled read address must be known'')
        else let address = unat (memory_index (ADDR_WIDTH P) (fs_value (min_raddr i port)))
             in Inr (p\<lparr>mp_q := (mp_q p)(port := fs_known (DATA_BITS P)
                            (if address < DEPTH P then mc_memory c ! address else bits_of_word (DATA_BITS P) 0)),
                       mp_read := (mp_read p)(port := True), mp_idle := (mp_idle p)(port := 0)\<rparr>)
      else if mc_live c port then
        let p = p\<lparr>mp_idle := (mp_idle p)(port := mp_idle p port + 1)\<rparr>
        in Inr (if mp_idle p port \<ge> 2
                then p\<lparr>mp_invalidate := (mp_invalidate p)(port := True),
                       mp_q := (mp_q p)(port := fs_unknown (DATA_BITS P))\<rparr>
                else p)
      else Inr p)"

fun mem_stage_reads :: "mem_params \<Rightarrow> mem_current \<Rightarrow> mem_inputs \<Rightarrow> nat list \<Rightarrow> mem_pending \<Rightarrow> exn + mem_pending" where
  "mem_stage_reads P c i [] p = Inr p"
| "mem_stage_reads P c i (port # ports) p =
     (case mem_stage_read P c i port p of Inl e \<Rightarrow> Inl e | Inr p' \<Rightarrow> mem_stage_reads P c i ports p')"

definition mem_try :: "mem_params \<Rightarrow> mem_current \<Rightarrow> mem_inputs \<Rightarrow> mem_pending \<Rightarrow> exn + mem_pending" where
  "mem_try P c i p =
     (if \<not> fs_isFullyKnown 1 (min_clk i) then Inl (FourStateViolation ''memory clock must be known'')
      else let p = p\<lparr>mp_clock := toBool (fs_value (min_clk i)), mp_valid := True\<rparr>
           in if mc_clock c \<or> \<not> mp_clock p then Inr p
              else if \<not> fs_isFullyKnown 1 (min_rst i) then Inl (mem_msg P ''reset must be known at posedge'')
              else if toBool (fs_value (min_rst i)) then Inr (mem_invalidate P p)
              else if \<not> fs_isFullyKnown 1 (min_wvalid i) then Inl (mem_msg P ''controls must be known at posedge'')
              else if list_ex (\<lambda>port. \<not> fs_isFullyKnown 1 (min_ren i port)) [0..<READ_PORTS P]
              then Inl (mem_msg P ''controls must be known at posedge'')
              else case mem_stage_write P c i p of
                     Inl e \<Rightarrow> Inl e
                   | Inr p \<Rightarrow> mem_stage_reads P c i [0..<READ_PORTS P] p)"

definition mem_work ::
  "mem_params \<Rightarrow> mem_current \<Rightarrow> mem_inputs \<Rightarrow> mem_pending \<Rightarrow> mem_outputs \<Rightarrow> mem_pending \<times> mem_outputs \<times> exn option" where
  "mem_work P c i p out =
     (case mem_try P c i (mem_discard c p) of
        Inl e \<Rightarrow> (mem_discard c p, out, Some e)
      | Inr p' \<Rightarrow> (p', out, None))"

definition mem_xfer_port :: "mem_pending \<Rightarrow> nat \<Rightarrow> mem_current \<times> mem_outputs \<Rightarrow> mem_current \<times> mem_outputs" where
  "mem_xfer_port p port = (\<lambda>(c, out).
     let (c, out) =
           (if mp_read p port \<or> mp_invalidate p port
            then (c\<lparr>mc_q := (mc_q c)(port := mp_q p port), mc_live := (mc_live c)(port := mp_read p port)\<rparr>,
                  out\<lparr>mo_rdata := (mo_rdata out)(port := mp_q p port)\<rparr>)
            else (c, out))
     in (c, case mo_rlive out port of
              None \<Rightarrow> out
            | Some _ \<Rightarrow> out\<lparr>mo_rlive := (mo_rlive out)(port := Some (fs_bool (mc_live c port)))\<rparr>))"

definition mem_xfer :: "mem_params \<Rightarrow> mem_current \<Rightarrow> mem_pending \<Rightarrow> mem_outputs \<Rightarrow> mem_current \<times> mem_pending \<times> mem_outputs" where
  "mem_xfer P c p out =
     (if \<not> mp_valid p then (c, p, out)
      else let c = c\<lparr>mc_clock := mp_clock p\<rparr>;
               c = (if mp_write p then c\<lparr>mc_memory := (mc_memory c)[mp_address p := mp_data p]\<rparr> else c);
               (c, out) = fold (mem_xfer_port p) [0..<READ_PORTS P] (c, out);
               c = c\<lparr>mc_idle := mp_idle p\<rparr>
           in (c, mem_discard c p, out))"

definition sync_mem_kernel :: "mem_params \<Rightarrow> (mem_current, mem_pending, mem_inputs, mem_outputs) kernel" where
  "sync_mem_kernel P = \<lparr>k_work = mem_work P, k_xfer = mem_xfer P, k_discard = mem_discard, k_reset = mem_reset P\<rparr>"

definition mem_initial :: "mem_params \<Rightarrow> mem_current" where
  "mem_initial P = \<lparr>mc_memory = replicate (DEPTH P) (bits_default (DATA_BITS P)), mc_q = (\<lambda>_. fs_unknown (DATA_BITS P)),
     mc_live = (\<lambda>_. False), mc_idle = (\<lambda>_. 0), mc_clock = False\<rparr>"

subsection \<open>The kernel contract\<close>

text \<open>Pending states that commit alike: stale payload fields do not matter.\<close>

definition mem_alike :: "mem_pending \<Rightarrow> mem_pending \<Rightarrow> bool" where
  "mem_alike p q \<longleftrightarrow> mp_read p = mp_read q \<and> mp_invalidate p = mp_invalidate q \<and> mp_idle p = mp_idle q \<and>
     mp_write p = mp_write q \<and> mp_clock p = mp_clock q \<and> mp_valid p = mp_valid q \<and>
     (mp_write p \<longrightarrow> mp_data p = mp_data q \<and> mp_address p = mp_address q) \<and>
     (\<forall>port. mp_read p port \<or> mp_invalidate p port \<longrightarrow> mp_q p port = mp_q q port)"

lemma mem_alike_read:
  "mem_alike p q \<Longrightarrow> rel_sum (=) mem_alike (mem_stage_read P c i port p) (mem_stage_read P c i port q)"
  by (auto simp: mem_stage_read_def Let_def mem_alike_def)

lemma mem_alike_write:
  "mem_alike p q \<Longrightarrow> \<not> mp_write p \<Longrightarrow> rel_sum (=) mem_alike (mem_stage_write P c i p) (mem_stage_write P c i q)"
  by (auto simp: mem_stage_write_def Let_def mem_alike_def)

lemma mem_alike_reads:
  "mem_alike p q \<Longrightarrow> rel_sum (=) mem_alike (mem_stage_reads P c i ports p) (mem_stage_reads P c i ports q)"
proof (induction ports arbitrary: p q)
  case (Cons port ports)
  have "rel_sum (=) mem_alike (mem_stage_read P c i port p) (mem_stage_read P c i port q)"
    by (rule mem_alike_read[OF Cons.prems])
  then show ?case by cases (auto intro: Cons.IH)
qed simp

lemma mem_alike_try:
  assumes a: "mem_alike p q" "\<not> mp_write p"
  shows "rel_sum (=) mem_alike (mem_try P c i p) (mem_try P c i q)"
proof -
  define p1 where "p1 = p\<lparr>mp_clock := toBool (fs_value (min_clk i)), mp_valid := True\<rparr>"
  define q1 where "q1 = q\<lparr>mp_clock := toBool (fs_value (min_clk i)), mp_valid := True\<rparr>"
  have a1: "mem_alike p1 q1" "\<not> mp_write p1" using a by (auto simp: p1_def q1_def mem_alike_def)
  have inv: "mem_alike (mem_invalidate P p1) (mem_invalidate P q1)" using a1 by (simp add: mem_alike_def mem_invalidate_def)
  have "rel_sum (=) mem_alike
      (case mem_stage_write P c i p1 of Inl e \<Rightarrow> Inl e | Inr p \<Rightarrow> mem_stage_reads P c i [0..<READ_PORTS P] p)
      (case mem_stage_write P c i q1 of Inl e \<Rightarrow> Inl e | Inr p \<Rightarrow> mem_stage_reads P c i [0..<READ_PORTS P] p)"
    using mem_alike_write[OF a1, of P c i] by cases (auto intro: mem_alike_reads)
  moreover have "mp_clock p1 = mp_clock q1" using a1 by (simp add: mem_alike_def)
  ultimately show ?thesis unfolding mem_try_def Let_def p1_def[symmetric] q1_def[symmetric] using a1(1) inv by simp
qed

lemma mem_alike_discard: "mem_alike (mem_discard c p) (mem_discard c q)"
  by (simp add: mem_alike_def mem_discard_def)

definition mem_touched :: "mem_pending \<Rightarrow> nat \<Rightarrow> bool" where
  "mem_touched p port \<longleftrightarrow> mp_read p port \<or> mp_invalidate p port"

lemma mem_xfer_port_fields:
  "mc_memory (fst (mem_xfer_port p port x)) = mc_memory (fst x)" "mc_idle (fst (mem_xfer_port p port x)) = mc_idle (fst x)"
  "mc_clock (fst (mem_xfer_port p port x)) = mc_clock (fst x)"
  "mc_q (fst (mem_xfer_port p port x)) k = (if k = port \<and> mem_touched p k then mp_q p k else mc_q (fst x) k)"
  "mc_live (fst (mem_xfer_port p port x)) k = (if k = port \<and> mem_touched p k then mp_read p k else mc_live (fst x) k)"
  "mo_rdata (snd (mem_xfer_port p port x)) k = (if k = port \<and> mem_touched p k then mp_q p k else mo_rdata (snd x) k)"
  "mo_rlive (snd (mem_xfer_port p port x)) k =
     (if k = port then map_option (\<lambda>_. fs_bool (if mem_touched p k then mp_read p k else mc_live (fst x) k)) (mo_rlive (snd x) k)
      else mo_rlive (snd x) k)"
  by (auto simp: mem_xfer_port_def Let_def mem_touched_def split: prod.splits option.splits)

lemma mem_xfer_ports:
  "mc_memory (fst (fold (mem_xfer_port p) [0..<n] x)) = mc_memory (fst x)"
  "mc_idle (fst (fold (mem_xfer_port p) [0..<n] x)) = mc_idle (fst x)"
  "mc_clock (fst (fold (mem_xfer_port p) [0..<n] x)) = mc_clock (fst x)"
  "mc_q (fst (fold (mem_xfer_port p) [0..<n] x)) k = (if k < n \<and> mem_touched p k then mp_q p k else mc_q (fst x) k)"
  "mc_live (fst (fold (mem_xfer_port p) [0..<n] x)) k = (if k < n \<and> mem_touched p k then mp_read p k else mc_live (fst x) k)"
  "mo_rdata (snd (fold (mem_xfer_port p) [0..<n] x)) k = (if k < n \<and> mem_touched p k then mp_q p k else mo_rdata (snd x) k)"
  "mo_rlive (snd (fold (mem_xfer_port p) [0..<n] x)) k =
     (if k < n then map_option (\<lambda>_. fs_bool (if mem_touched p k then mp_read p k else mc_live (fst x) k)) (mo_rlive (snd x) k)
      else mo_rlive (snd x) k)"
  by (induction n) (auto simp: mem_xfer_port_fields less_Suc_eq)

text \<open>What a commit leaves behind, field by field.\<close>

lemma mem_xfer_fields:
  assumes "mp_valid p"
  shows "mc_memory (fst (mem_xfer P c p out)) = (if mp_write p then (mc_memory c)[mp_address p := mp_data p] else mc_memory c)"
    "mc_idle (fst (mem_xfer P c p out)) = mp_idle p" "mc_clock (fst (mem_xfer P c p out)) = mp_clock p"
    "mc_q (fst (mem_xfer P c p out)) k = (if k < READ_PORTS P \<and> mem_touched p k then mp_q p k else mc_q c k)"
    "mc_live (fst (mem_xfer P c p out)) k = (if k < READ_PORTS P \<and> mem_touched p k then mp_read p k else mc_live c k)"
    "mo_rdata (snd (snd (mem_xfer P c p out))) k = (if k < READ_PORTS P \<and> mem_touched p k then mp_q p k else mo_rdata out k)"
    "mo_rlive (snd (snd (mem_xfer P c p out))) k =
       (if k < READ_PORTS P then map_option (\<lambda>_. fs_bool (mc_live (fst (mem_xfer P c p out)) k)) (mo_rlive out k) else mo_rlive out k)"
  using assms by (simp_all add: mem_xfer_def Let_def case_prod_beta mem_xfer_ports)

lemma mem_alike_xfer:
  assumes a: "mem_alike p q"
  shows "fst (mem_xfer P c p out) = fst (mem_xfer P c q out) \<and> snd (snd (mem_xfer P c p out)) = snd (snd (mem_xfer P c q out))"
proof (cases "mp_valid p")
  case True
  then have v: "mp_valid p" "mp_valid q" using a by (simp_all add: mem_alike_def)
  have t: "mem_touched p = mem_touched q" "mem_touched p k \<Longrightarrow> mp_q p k = mp_q q k" for k
    using a by (auto simp: mem_alike_def mem_touched_def fun_eq_iff)
  have c: "fst (mem_xfer P c p out) = fst (mem_xfer P c q out)"
    using a t by (intro mem_current.equality ext) (auto simp: mem_xfer_fields v mem_alike_def)
  show ?thesis using a t c by (intro conjI mem_outputs.equality ext) (auto simp: mem_xfer_fields(6,7) v mem_alike_def)
next
  case False
  then show ?thesis using a by (simp add: mem_xfer_def mem_alike_def)
qed

lemma mem_stage_reads_valid: "mem_stage_reads P c i ports p = Inr p' \<Longrightarrow> mp_valid p' = mp_valid p"
proof (induction ports arbitrary: p)
  case (Cons port ports)
  have "mem_stage_read P c i port p = Inr p1 \<Longrightarrow> mp_valid p1 = mp_valid p" for p1
    by (auto simp: mem_stage_read_def Let_def split: if_splits)
  then show ?case using Cons by (auto split: sum.splits)
qed simp

lemma mem_try_valid: "mem_try P c i p = Inr p' \<Longrightarrow> mp_valid p'"
  by (auto simp: mem_try_def Let_def mem_invalidate_def mem_stage_write_def dest!: mem_stage_reads_valid
      split: if_splits sum.splits)

interpretation mem_lk: leaf_kernel "sync_mem_kernel P" mp_valid for P
proof unfold_locales
  fix c p q i and out out' out2 :: mem_outputs and p' e
  show "\<not> mp_valid (k_discard (sync_mem_kernel P) c p)" by (simp add: sync_mem_kernel_def mem_discard_def)
  show "\<not> mp_valid p \<Longrightarrow> k_xfer (sync_mem_kernel P) c p out = (c, p, out)" by (simp add: sync_mem_kernel_def mem_xfer_def)
  show "mp_valid p \<Longrightarrow> \<not> mp_valid (fst (snd (k_xfer (sync_mem_kernel P) c p out)))"
    by (simp add: sync_mem_kernel_def mem_xfer_def Let_def mem_discard_def split: prod.splits)
  show "k_work (sync_mem_kernel P) c i p out = (p', out', e) \<Longrightarrow> mp_valid p' = (e = None)"
    by (auto simp: sync_mem_kernel_def mem_work_def mem_discard_def mem_try_valid split: sum.splits)
  have nw: "\<not> mp_write (mem_discard c p)" for p by (simp add: mem_discard_def)
  have a: "rel_sum (=) mem_alike (mem_try P c i (mem_discard c p)) (mem_try P c i (mem_discard c q))" for p q
    by (rule mem_alike_try[OF mem_alike_discard nw])
  show "snd (k_work (sync_mem_kernel P) c i p out) = snd (k_work (sync_mem_kernel P) c i q out)"
    using a[of p q] by cases (auto simp: sync_mem_kernel_def mem_work_def)
  show "mp_valid (k_reset (sync_mem_kernel P) c i p)" by (simp add: sync_mem_kernel_def mem_reset_def mem_invalidate_def)
  show "snd (snd (k_work (sync_mem_kernel P) c i p out)) = None \<Longrightarrow>
      fst (k_xfer (sync_mem_kernel P) c (fst (k_work (sync_mem_kernel P) c i p out)) out') =
      fst (k_xfer (sync_mem_kernel P) c (fst (k_work (sync_mem_kernel P) c i q out)) out') \<and>
      snd (snd (k_xfer (sync_mem_kernel P) c (fst (k_work (sync_mem_kernel P) c i p out)) out')) =
      snd (snd (k_xfer (sync_mem_kernel P) c (fst (k_work (sync_mem_kernel P) c i q out)) out'))"
    using a[of p q] by cases (auto simp: sync_mem_kernel_def mem_work_def mem_alike_xfer)
qed

subsection \<open>Refinement of the abstract memory\<close>

type_synonym mem_state = "bool \<times> (nat \<Rightarrow> nat \<Rightarrow> bool) \<times> (nat \<Rightarrow> ((nat \<Rightarrow> bool) \<times> nat) option)"

text \<open>A state of the abstract memory: the sampled clock, the bit at every address and position, and the
  response of every port with its age in idle edges.\<close>

definition mem_spec_edge :: "mem_params \<Rightarrow> mem_state \<Rightarrow> mem_inputs \<Rightarrow> mem_state" where
  "mem_spec_edge P s i = (case s of (_, M, resp) \<Rightarrow>
     (True,
      (\<lambda>a b. if toBool (fs_value (min_wvalid i)) \<and> a = bval (fs_value (min_waddr i)) \<and> a < DEPTH P \<and>
               bit (bval (fs_value (min_wstrb i))) (b div 8)
             then bit (bval (fs_value (min_wdata i))) b else M a b),
      (\<lambda>port. if READ_PORTS P \<le> port then None
              else if toBool (fs_value (min_ren i port)) then Some (M (bval (fs_value (min_raddr i port))), 0)
              else case resp port of Some (row, 0) \<Rightarrow> Some (row, 1) | _ \<Rightarrow> None)))"

definition mem_spec :: "mem_params \<Rightarrow> mem_state \<Rightarrow> mem_inputs \<Rightarrow> exn + mem_state" where
  "mem_spec P s i = (case s of (clk, M, resp) \<Rightarrow>
     if \<not> fs_isFullyKnown 1 (min_clk i) then Inl (FourStateViolation ''memory clock must be known'')
     else if clk \<or> \<not> toBool (fs_value (min_clk i)) then Inr (toBool (fs_value (min_clk i)), M, resp)
     else if \<not> fs_isFullyKnown 1 (min_rst i) then Inl (mem_msg P ''reset must be known at posedge'')
     else if toBool (fs_value (min_rst i)) then Inr (True, M, \<lambda>_. None)
     else if \<not> fs_isFullyKnown 1 (min_wvalid i) \<or> (\<exists>port<READ_PORTS P. \<not> fs_isFullyKnown 1 (min_ren i port))
     then Inl (mem_msg P ''controls must be known at posedge'')
     else if toBool (fs_value (min_wvalid i)) \<and>
             \<not> (fs_isFullyKnown (ADDR_WIDTH P) (min_waddr i) \<and> fs_isFullyKnown (DATA_BITS P) (min_wdata i) \<and>
                fs_isFullyKnown (STRB_WIDTH P) (min_wstrb i))
     then Inl (mem_msg P ''enabled write address/data/strobe must be known'')
     else if \<exists>port<READ_PORTS P. toBool (fs_value (min_ren i port)) \<and> \<not> fs_isFullyKnown (ADDR_WIDTH P) (min_raddr i port)
     then Inl (mem_msg P ''enabled read address must be known'')
     else Inr (mem_spec_edge P s i))"

definition mem_abs :: "mem_params \<Rightarrow> mem_current \<Rightarrow> mem_state" where
  "mem_abs P c = (mc_clock c, (\<lambda>a b. a < DEPTH P \<and> bit (bval (mc_memory c ! a)) b),
     (\<lambda>port. if port < READ_PORTS P \<and> mc_live c port then Some (bit (bval (fs_value (mc_q c port))), mc_idle c port) else None))"

definition mem_ok :: "mem_params \<Rightarrow> bool" where
  "mem_ok P \<longleftrightarrow> 0 < DATA_BITS P \<and> 0 < ADDR_WIDTH P \<and> 0 < DEPTH P \<and> DEPTH P < 2 ^ 64"

definition mem_inputs_ok :: "mem_params \<Rightarrow> mem_inputs \<Rightarrow> bool" where
  "mem_inputs_ok P i \<longleftrightarrow> fs_wf (ADDR_WIDTH P) (min_waddr i) \<and> fs_wf (DATA_BITS P) (min_wdata i) \<and>
     fs_wf (STRB_WIDTH P) (min_wstrb i) \<and> (\<forall>port<READ_PORTS P. fs_wf (ADDR_WIDTH P) (min_raddr i port))"

text \<open>A live response is a known value at most one idle edge old; a dead one is unknown.\<close>

definition mem_inv :: "mem_params \<Rightarrow> mem_current \<Rightarrow> bool" where
  "mem_inv P c \<longleftrightarrow> length (mc_memory c) = DEPTH P \<and> (\<forall>a<DEPTH P. bits_wf (DATA_BITS P) (mc_memory c ! a)) \<and>
     (\<forall>port<READ_PORTS P.
        if mc_live c port then mc_idle c port < 2 \<and> (\<exists>v. bits_wf (DATA_BITS P) v \<and> mc_q c port = fs_known (DATA_BITS P) v)
        else mc_q c port = fs_unknown (DATA_BITS P))"

definition mem_row :: "mem_params \<Rightarrow> mem_current \<Rightarrow> bits \<Rightarrow> bits" where
  "mem_row P c a = (let address = unat (memory_index (ADDR_WIDTH P) a)
     in if address < DEPTH P then mc_memory c ! address else bits_of_word (DATA_BITS P) 0)"

lemma mem_row:
  assumes "mem_ok P" "mem_inv P c" "bits_wf (ADDR_WIDTH P) a"
  shows "bits_wf (DATA_BITS P) (mem_row P c a)"
    "bit (bval (mem_row P c a)) b \<longleftrightarrow> bval a < DEPTH P \<and> bit (bval (mc_memory c ! bval a)) b"
  using memory_index_less[OF assms(3), of "DEPTH P"] assms
  by (auto simp: mem_row_def Let_def mem_ok_def mem_inv_def bits_wf_of_word bval_of_word)

lemma mem_stage_read_fields:
  "case mem_stage_read P c i port p of
     Inl e \<Rightarrow> e = mem_msg P ''enabled read address must be known'' \<and>
       toBool (fs_value (min_ren i port)) \<and> \<not> fs_isFullyKnown (ADDR_WIDTH P) (min_raddr i port)
   | Inr p' \<Rightarrow> (toBool (fs_value (min_ren i port)) \<longrightarrow> fs_isFullyKnown (ADDR_WIDTH P) (min_raddr i port)) \<and>
       mp_data p' = mp_data p \<and> mp_address p' = mp_address p \<and> mp_write p' = mp_write p \<and> mp_clock p' = mp_clock p \<and>
       mp_valid p' = mp_valid p \<and>
       mp_read p' = (\<lambda>k. mp_read p k \<or> k = port \<and> toBool (fs_value (min_ren i k))) \<and>
       mp_idle p' = (\<lambda>k. if k \<noteq> port then mp_idle p k else if toBool (fs_value (min_ren i k)) then 0
                         else if mc_live c k then mp_idle p k + 1 else mp_idle p k) \<and>
       mp_invalidate p' = (\<lambda>k. mp_invalidate p k \<or>
          k = port \<and> \<not> toBool (fs_value (min_ren i k)) \<and> mc_live c k \<and> mp_idle p k \<ge> 1) \<and>
       mp_q p' = (\<lambda>k. if k \<noteq> port then mp_q p k
          else if toBool (fs_value (min_ren i k)) then fs_known (DATA_BITS P) (mem_row P c (fs_value (min_raddr i k)))
          else if mc_live c k \<and> mp_idle p k \<ge> 1 then fs_unknown (DATA_BITS P) else mp_q p k)"
  by (auto simp: mem_stage_read_def Let_def mem_row_def fun_eq_iff)

lemma mem_stage_reads_fields:
  assumes "distinct ports"
  shows "case mem_stage_reads P c i ports p of
     Inl e \<Rightarrow> e = mem_msg P ''enabled read address must be known'' \<and>
       (\<exists>port\<in>set ports. toBool (fs_value (min_ren i port)) \<and> \<not> fs_isFullyKnown (ADDR_WIDTH P) (min_raddr i port))
   | Inr p' \<Rightarrow> (\<forall>port\<in>set ports. toBool (fs_value (min_ren i port)) \<longrightarrow> fs_isFullyKnown (ADDR_WIDTH P) (min_raddr i port)) \<and>
       mp_data p' = mp_data p \<and> mp_address p' = mp_address p \<and> mp_write p' = mp_write p \<and> mp_clock p' = mp_clock p \<and>
       mp_valid p' = mp_valid p \<and>
       mp_read p' = (\<lambda>k. mp_read p k \<or> k \<in> set ports \<and> toBool (fs_value (min_ren i k))) \<and>
       mp_idle p' = (\<lambda>k. if k \<notin> set ports then mp_idle p k else if toBool (fs_value (min_ren i k)) then 0
                         else if mc_live c k then mp_idle p k + 1 else mp_idle p k) \<and>
       mp_invalidate p' = (\<lambda>k. mp_invalidate p k \<or>
          k \<in> set ports \<and> \<not> toBool (fs_value (min_ren i k)) \<and> mc_live c k \<and> mp_idle p k \<ge> 1) \<and>
       mp_q p' = (\<lambda>k. if k \<notin> set ports then mp_q p k
          else if toBool (fs_value (min_ren i k)) then fs_known (DATA_BITS P) (mem_row P c (fs_value (min_raddr i k)))
          else if mc_live c k \<and> mp_idle p k \<ge> 1 then fs_unknown (DATA_BITS P) else mp_q p k)"
  using assms
proof (induction ports arbitrary: p)
  case (Cons port ports)
  show ?case
  proof (cases "mem_stage_read P c i port p")
    case (Inl e)
    then show ?thesis using mem_stage_read_fields[where P=P and c=c and i=i and port=port and p=p] by simp
  next
    case (Inr p1)
    note one = mem_stage_read_fields[where P=P and c=c and i=i and port=port and p=p, unfolded Inr sum.case]
    note IH = Cons.IH[of p1]
    show ?thesis
    proof (cases "mem_stage_reads P c i ports p1")
      case (Inl e)
      then show ?thesis using IH Cons.prems Inr by simp
    next
      case (Inr p2)
      have "port \<notin> set ports" "distinct ports" using Cons.prems by simp_all
      note two = IH[OF this(2), unfolded Inr sum.case]
      show ?thesis using \<open>mem_stage_read P c i port p = Inr p1\<close> Inr one two \<open>port \<notin> set ports\<close>
        by (auto simp: fun_eq_iff)
    qed
  qed
qed simp

lemma mem_step:
  "kernel_step (sync_mem_kernel P) c p i out out' =
     (case mem_try P c i (mem_discard c p) of Inl e \<Rightarrow> Inl e | Inr p' \<Rightarrow> Inr (fst (mem_xfer P c p' out')))"
  by (simp add: kernel_step_def sync_mem_kernel_def mem_work_def split: sum.splits)

definition mem_edge :: "mem_params \<Rightarrow> mem_current \<Rightarrow> mem_inputs \<Rightarrow> mem_pending \<Rightarrow> bool" where
  "mem_edge P c i p \<longleftrightarrow>
     mp_clock p \<and> mp_valid p \<and> mp_read p = (\<lambda>k. k < READ_PORTS P \<and> toBool (fs_value (min_ren i k))) \<and>
     mp_idle p = (\<lambda>k. if READ_PORTS P \<le> k then mc_idle c k else if toBool (fs_value (min_ren i k)) then 0
        else if mc_live c k then mc_idle c k + 1 else mc_idle c k) \<and>
     mp_invalidate p = (\<lambda>k. k < READ_PORTS P \<and> \<not> toBool (fs_value (min_ren i k)) \<and> mc_live c k \<and> mc_idle c k \<ge> 1) \<and>
     (\<forall>k. mem_touched p k \<longrightarrow> mp_q p k = (if toBool (fs_value (min_ren i k))
        then fs_known (DATA_BITS P) (mem_row P c (fs_value (min_raddr i k))) else fs_unknown (DATA_BITS P))) \<and>
     (let a = unat (memory_index (ADDR_WIDTH P) (fs_value (min_waddr i)))
      in if toBool (fs_value (min_wvalid i)) \<and> a < DEPTH P
         then mp_write p \<and> mp_address p = a \<and>
           mp_data p = memory_strobe (DATA_BITS P) (STRB_WIDTH P) (mc_memory c ! a) (fs_value (min_wdata i)) (fs_value (min_wstrb i))
         else \<not> mp_write p)"

lemma mem_try_cases:
  "case mem_try P c i (mem_discard c p) of
     Inl e \<Rightarrow> mem_spec P (mem_abs P c) i = Inl e
   | Inr p' \<Rightarrow> mp_valid p' \<and>
       ((mc_clock c \<or> \<not> toBool (fs_value (min_clk i))) \<and> mem_spec P (mem_abs P c) i = Inr (toBool (fs_value (min_clk i)), snd (mem_abs P c)) \<and>
          p' = (mem_discard c p)\<lparr>mp_clock := toBool (fs_value (min_clk i)), mp_valid := True\<rparr> \<or>
        mem_spec P (mem_abs P c) i = Inr (True, fst (snd (mem_abs P c)), \<lambda>_. None) \<and>
          p' = mem_invalidate P ((mem_discard c p)\<lparr>mp_clock := True, mp_valid := True\<rparr>) \<or>
        mem_spec P (mem_abs P c) i = Inr (mem_spec_edge P (mem_abs P c) i) \<and> mem_edge P c i p' \<and>
          (toBool (fs_value (min_wvalid i)) \<longrightarrow> fs_isFullyKnown (ADDR_WIDTH P) (min_waddr i)))"
proof (cases "\<not> fs_isFullyKnown 1 (min_clk i) \<or> mc_clock c \<or> \<not> toBool (fs_value (min_clk i)) \<or> \<not> fs_isFullyKnown 1 (min_rst i) \<or>
    toBool (fs_value (min_rst i)) \<or> \<not> fs_isFullyKnown 1 (min_wvalid i) \<or> (\<exists>port<READ_PORTS P. \<not> fs_isFullyKnown 1 (min_ren i port))")
  case True
  then show ?thesis
    by (auto simp: mem_try_def Let_def mem_spec_def mem_abs_def list_ex_iff mem_invalidate_def mem_discard_def
        split: if_splits)
next
  case False
  define p1 where "p1 = (mem_discard c p)\<lparr>mp_clock := True, mp_valid := True\<rparr>"
  have tr: "mem_try P c i (mem_discard c p) = (case mem_stage_write P c i p1 of
       Inl e \<Rightarrow> Inl e | Inr p \<Rightarrow> mem_stage_reads P c i [0..<READ_PORTS P] p)"
    using False by (auto simp: mem_try_def Let_def p1_def list_ex_iff)
  have spec: "mem_spec P (mem_abs P c) i =
      (if toBool (fs_value (min_wvalid i)) \<and>
             \<not> (fs_isFullyKnown (ADDR_WIDTH P) (min_waddr i) \<and> fs_isFullyKnown (DATA_BITS P) (min_wdata i) \<and>
                fs_isFullyKnown (STRB_WIDTH P) (min_wstrb i))
     then Inl (mem_msg P ''enabled write address/data/strobe must be known'')
     else if \<exists>port<READ_PORTS P. toBool (fs_value (min_ren i port)) \<and> \<not> fs_isFullyKnown (ADDR_WIDTH P) (min_raddr i port)
     then Inl (mem_msg P ''enabled read address must be known'')
     else Inr (mem_spec_edge P (mem_abs P c) i))"
    using False by (auto simp: mem_spec_def mem_abs_def)
  show ?thesis
  proof (cases "mem_stage_write P c i p1")
    case (Inl e)
    then show ?thesis using tr spec by (auto simp: mem_stage_write_def Let_def split: if_splits)
  next
    case (Inr p2)
    then have w: "toBool (fs_value (min_wvalid i)) \<Longrightarrow> fs_isFullyKnown (ADDR_WIDTH P) (min_waddr i) \<and>
        fs_isFullyKnown (DATA_BITS P) (min_wdata i) \<and> fs_isFullyKnown (STRB_WIDTH P) (min_wstrb i)"
      by (auto simp: mem_stage_write_def split: if_splits)
    define a where "a = unat (memory_index (ADDR_WIDTH P) (fs_value (min_waddr i)))"
    have p2: "mp_read p2 = (\<lambda>_. False)" "mp_invalidate p2 = (\<lambda>_. False)" "mp_idle p2 = mc_idle c" "mp_clock p2" "mp_valid p2"
      "if toBool (fs_value (min_wvalid i)) \<and> a < DEPTH P
         then mp_write p2 \<and> mp_address p2 = a \<and>
           mp_data p2 = memory_strobe (DATA_BITS P) (STRB_WIDTH P) (mc_memory c ! a) (fs_value (min_wdata i)) (fs_value (min_wstrb i))
         else \<not> mp_write p2"
      using Inr by (auto simp: mem_stage_write_def Let_def p1_def mem_discard_def a_def split: if_splits)
    note r = mem_stage_reads_fields[where P=P and c=c and i=i and ports="[0..<READ_PORTS P]" and p=p2, OF distinct_upt]
    show ?thesis
    proof (cases "mem_stage_reads P c i [0..<READ_PORTS P] p2")
      case (Inl e)
      then have "mem_try P c i (mem_discard c p) = Inl e" using tr Inr by simp
      moreover have "mem_spec P (mem_abs P c) i = Inl e" using r w unfolding spec Inl sum.case by auto
      ultimately show ?thesis by simp
    next
      case i3: (Inr p3)
      note r' = r[unfolded i3 sum.case set_upt]
      have "mem_try P c i (mem_discard c p) = Inr p3" using tr Inr i3 by simp
      moreover have "mem_spec P (mem_abs P c) i = Inr (mem_spec_edge P (mem_abs P c) i)" using r' w unfolding spec by auto
      moreover have "mem_edge P c i p3"
        unfolding mem_edge_def a_def[symmetric] Let_def
        using r' p2 by (auto simp: fun_eq_iff mem_touched_def split: if_splits)
      moreover have "mp_valid p3" using r' p2 by simp
      ultimately show ?thesis using w by simp
    qed
  qed
qed

lemma mem_edge_commit:
  fixes out :: mem_outputs
  assumes ok: "mem_ok P" and inv: "mem_inv P c" and i: "mem_inputs_ok P i" and e: "mem_edge P c i p"
  defines "c' \<equiv> fst (mem_xfer P c p out)"
  shows "mem_inv P c'" "mem_abs P c' = mem_spec_edge P (mem_abs P c) i"
proof -
  have v: "mp_valid p" "mp_clock p" using e by (simp_all add: mem_edge_def)
  note x = mem_xfer_fields[OF v(1), where P=P and c=c and out=out, folded c'_def]
  define a where "a = unat (memory_index (ADDR_WIDTH P) (fs_value (min_waddr i)))"
  define wr where "wr = (toBool (fs_value (min_wvalid i)) \<and> a < DEPTH P)"
  define d where "d = memory_strobe (DATA_BITS P) (STRB_WIDTH P) (mc_memory c ! a) (fs_value (min_wdata i)) (fs_value (min_wstrb i))"
  have iw: "bits_wf (ADDR_WIDTH P) (fs_value (min_waddr i))" "bits_wf (DATA_BITS P) (fs_value (min_wdata i))"
    "bits_wf (STRB_WIDTH P) (fs_value (min_wstrb i))"
    "port < READ_PORTS P \<Longrightarrow> bits_wf (ADDR_WIDTH P) (fs_value (min_raddr i port))" for port
    using i fs_wfD(1) by (auto simp: mem_inputs_ok_def)
  have len: "length (mc_memory c) = DEPTH P" and row: "k < DEPTH P \<Longrightarrow> bits_wf (DATA_BITS P) (mc_memory c ! k)" for k
    using inv by (simp_all add: mem_inv_def)
  have mem: "mc_memory c' = (if wr then (mc_memory c)[a := d] else mc_memory c)"
    using e unfolding x(1) mem_edge_def Let_def a_def[symmetric] wr_def d_def by auto
  have al: "wr \<Longrightarrow> a < length (mc_memory c)" by (simp add: wr_def len)
  have dwf: "wr \<Longrightarrow> bits_wf (DATA_BITS P) d"
    unfolding d_def by (rule memory_strobe(1)[OF iw(3) _ iw(2)]) (simp add: row wr_def)
  have t: "mem_touched p k \<longleftrightarrow> k < READ_PORTS P \<and> (toBool (fs_value (min_ren i k)) \<or> mc_live c k \<and> 1 \<le> mc_idle c k)"
    "mp_read p k \<longleftrightarrow> k < READ_PORTS P \<and> toBool (fs_value (min_ren i k))"
    "mem_touched p k \<Longrightarrow> mp_q p k = (if toBool (fs_value (min_ren i k))
        then fs_known (DATA_BITS P) (mem_row P c (fs_value (min_raddr i k))) else fs_unknown (DATA_BITS P))"
    "k < READ_PORTS P \<Longrightarrow> mp_idle p k = (if toBool (fs_value (min_ren i k)) then 0 else if mc_live c k then mc_idle c k + 1 else mc_idle c k)"
    for k using e by (auto simp: mem_edge_def mem_touched_def)
  have port: "k < READ_PORTS P \<Longrightarrow> if mc_live c k then mc_idle c k < 2 \<and> (\<exists>v. bits_wf (DATA_BITS P) v \<and> mc_q c k = fs_known (DATA_BITS P) v)
        else mc_q c k = fs_unknown (DATA_BITS P)" for k using inv by (simp add: mem_inv_def)
  show "mem_inv P c'"
    unfolding mem_inv_def mem x(2,4,5)
  proof (intro conjI allI impI)
    fix k assume k: "k < READ_PORTS P"
    show "if (if k < READ_PORTS P \<and> mem_touched p k then mp_read p k else mc_live c k)
      then mp_idle p k < 2 \<and> (\<exists>v. bits_wf (DATA_BITS P) v \<and>
        (if k < READ_PORTS P \<and> mem_touched p k then mp_q p k else mc_q c k) = fs_known (DATA_BITS P) v)
      else (if k < READ_PORTS P \<and> mem_touched p k then mp_q p k else mc_q c k) = fs_unknown (DATA_BITS P)"
      using port[OF k] k t[of k] mem_row(1)[OF ok inv iw(4)[OF k]] by auto
  qed (use len row dwf al in \<open>auto simp: nth_list_update\<close>)
  have cell: "k < DEPTH P \<and> bit (bval (mc_memory c' ! k)) b \<longleftrightarrow>
      (if toBool (fs_value (min_wvalid i)) \<and> k = bval (fs_value (min_waddr i)) \<and> k < DEPTH P \<and>
               bit (bval (fs_value (min_wstrb i))) (b div 8)
             then bit (bval (fs_value (min_wdata i))) b else k < DEPTH P \<and> bit (bval (mc_memory c ! k)) b)" for k b
    using memory_strobe(2)[OF iw(3) row iw(2), of k b] memory_index_less[OF iw(1), of "DEPTH P"] ok len
    by (auto simp: mem mem_ok_def wr_def d_def a_def nth_list_update)
  have resp: "(if k < READ_PORTS P \<and> mc_live c' k then Some (bit (bval (fs_value (mc_q c' k))), mc_idle c' k) else None) =
      (if READ_PORTS P \<le> k then None
       else if toBool (fs_value (min_ren i k))
       then Some ((\<lambda>b. bval (fs_value (min_raddr i k)) < DEPTH P \<and> bit (bval (mc_memory c ! bval (fs_value (min_raddr i k)))) b), 0)
       else case (if k < READ_PORTS P \<and> mc_live c k then Some (bit (bval (fs_value (mc_q c k))), mc_idle c k) else None) of
          Some (row, 0) \<Rightarrow> Some (row, 1) | _ \<Rightarrow> None)" for k
  proof (cases "k < READ_PORTS P")
    case True
    note mr = mem_row[OF ok inv iw(4)[OF True]]
    show ?thesis unfolding x(2,4,5) using True t[of k] port[OF True] mr
      by (auto simp: fun_eq_iff split: nat.splits)
  qed simp
  show "mem_abs P c' = mem_spec_edge P (mem_abs P c) i"
    unfolding mem_abs_def mem_spec_edge_def prod.case x(3) cell resp using v(2) by simp
qed

lemma mem_refine:
  assumes ok: "mem_ok P" and inv: "mem_inv P c" and i: "mem_inputs_ok P i"
  shows "case kernel_step (sync_mem_kernel P) c p i out out' of
     Inl e \<Rightarrow> mem_spec P (mem_abs P c) i = Inl e
   | Inr c' \<Rightarrow> mem_inv P c' \<and> mem_spec P (mem_abs P c) i = Inr (mem_abs P c')"
proof -
  note tc = mem_try_cases[where P=P and c=c and i=i and p=p]
  show ?thesis
  proof (cases "mem_try P c i (mem_discard c p)")
    case (Inl e)
    then show ?thesis using tc by (simp add: mem_step)
  next
    case (Inr p')
    note tc' = tc[unfolded Inr sum.case]
    then have v: "mp_valid p'" by simp
    define c' where "c' = fst (mem_xfer P c p' out')"
    note x = mem_xfer_fields[OF v, where P=P and c=c and out=out', folded c'_def]
    have step: "kernel_step (sync_mem_kernel P) c p i out out' = Inr c'" by (simp add: mem_step Inr c'_def)
    from tc' consider
      (idle) "mem_spec P (mem_abs P c) i = Inr (toBool (fs_value (min_clk i)), snd (mem_abs P c))"
         "p' = (mem_discard c p)\<lparr>mp_clock := toBool (fs_value (min_clk i)), mp_valid := True\<rparr>"
      | (reset) "mem_spec P (mem_abs P c) i = Inr (True, fst (snd (mem_abs P c)), \<lambda>_. None)"
         "p' = mem_invalidate P ((mem_discard c p)\<lparr>mp_clock := True, mp_valid := True\<rparr>)"
      | (edge) "mem_spec P (mem_abs P c) i = Inr (mem_spec_edge P (mem_abs P c) i)" "mem_edge P c i p'"
      by blast
    then show ?thesis
    proof cases
      case idle
      then show ?thesis using inv unfolding step sum.case
        by (simp add: mem_inv_def mem_abs_def x mem_touched_def mem_discard_def cong: if_cong)
    next
      case reset
      then show ?thesis using inv unfolding step sum.case
        by (simp add: mem_inv_def mem_abs_def x mem_touched_def mem_discard_def mem_invalidate_def fun_eq_iff cong: if_cong)
    next
      case edge
      then show ?thesis using mem_edge_commit[OF ok inv i edge(2), of out', folded c'_def] by (simp add: step)
    qed
  qed
qed

lemma mem_initial: "mem_ok P \<Longrightarrow> mem_inv P (mem_initial P) \<and> mem_abs P (mem_initial P) = (False, \<lambda>_ _. False, \<lambda>_. None)"
  by (simp add: mem_inv_def mem_initial_def mem_abs_def mem_ok_def bits_wf_default fun_eq_iff bval_default cong: conj_cong)

subsection \<open>Modules\<close>

record sync_mem =
  sm_clk :: four_state
  sm_rst :: four_state
  sm_ren :: four_state
  sm_raddr :: four_state
  sm_rdata :: four_state
  sm_rlive :: four_state
  sm_wvalid :: four_state
  sm_waddr :: four_state
  sm_wdata :: four_state
  sm_wstrb :: four_state
  sm_current :: mem_current
  sm_pending :: mem_pending

definition sync_mem_pins :: "sync_mem \<Rightarrow> mem_inputs" where
  "sync_mem_pins m = \<lparr>min_clk = sm_clk m, min_rst = sm_rst m, min_ren = (\<lambda>_. sm_ren m), min_raddr = (\<lambda>_. sm_raddr m),
     min_wvalid = sm_wvalid m, min_waddr = sm_waddr m, min_wdata = sm_wdata m, min_wstrb = sm_wstrb m\<rparr>"

definition sync_mem_outs :: "sync_mem \<Rightarrow> mem_outputs" where
  "sync_mem_outs m = \<lparr>mo_rdata = (\<lambda>_. sm_rdata m), mo_rlive = (\<lambda>_. Some (sm_rlive m))\<rparr>"

definition sync_mem_set_outs :: "mem_outputs \<Rightarrow> sync_mem \<Rightarrow> sync_mem" where
  "sync_mem_set_outs out m = m\<lparr>sm_rdata := mo_rdata out 0, sm_rlive := the (mo_rlive out 0)\<rparr>"

definition sync_mem_Work :: "mem_params \<Rightarrow> sync_mem \<Rightarrow> sync_mem \<times> exn option" where
  "sync_mem_Work P m = (case k_work (sync_mem_kernel P) (sm_current m) (sync_mem_pins m) (sm_pending m) (sync_mem_outs m) of
     (p, out, e) \<Rightarrow> (sync_mem_set_outs out (m\<lparr>sm_pending := p\<rparr>), e))"

definition sync_mem_Xfer :: "mem_params \<Rightarrow> sync_mem \<Rightarrow> sync_mem" where
  "sync_mem_Xfer P m = (case k_xfer (sync_mem_kernel P) (sm_current m) (sm_pending m) (sync_mem_outs m) of
     (c, p, out) \<Rightarrow> sync_mem_set_outs out (m\<lparr>sm_current := c, sm_pending := p\<rparr>))"

definition sync_mem_DiscardNext :: "mem_params \<Rightarrow> sync_mem \<Rightarrow> sync_mem" where
  "sync_mem_DiscardNext P m = m\<lparr>sm_pending := k_discard (sync_mem_kernel P) (sm_current m) (sm_pending m)\<rparr>"

definition sync_mem_Reset :: "mem_params \<Rightarrow> sync_mem \<Rightarrow> sync_mem" where
  "sync_mem_Reset P m = m\<lparr>sm_pending := k_reset (sync_mem_kernel P) (sm_current m) (sync_mem_pins m) (sm_pending m)\<rparr>"

definition sync_mem_pokeEntry :: "mem_params \<Rightarrow> hw \<Rightarrow> nat \<Rightarrow> hval \<Rightarrow> sync_mem \<Rightarrow> sync_mem" where
  "sync_mem_pokeEntry P t address v m =
     (if address < DEPTH P
      then m\<lparr>sm_current := (sm_current m)\<lparr>mc_memory := (mc_memory (sm_current m))[address := hw_pack t v]\<rparr>\<rparr> else m)"

definition sync_mem_peekEntry :: "mem_params \<Rightarrow> hw \<Rightarrow> nat \<Rightarrow> sync_mem \<Rightarrow> hval" where
  "sync_mem_peekEntry P t address m =
     hw_unpack t (if address < DEPTH P then mc_memory (sm_current m) ! address else bits_of_word (DATA_BITS P) 0)"

record sync_mem_dp =
  md_clk :: four_state
  md_rst :: four_state
  md_ren0 :: four_state
  md_ren1 :: four_state
  md_raddr0 :: four_state
  md_raddr1 :: four_state
  md_rdata0 :: four_state
  md_rdata1 :: four_state
  md_rlive0 :: four_state
  md_rlive1 :: four_state
  md_wvalid :: four_state
  md_waddr :: four_state
  md_wdata :: four_state
  md_wstrb :: four_state
  md_current :: mem_current
  md_pending :: mem_pending

definition sync_mem_dp_pins :: "sync_mem_dp \<Rightarrow> mem_inputs" where
  "sync_mem_dp_pins m = \<lparr>min_clk = md_clk m, min_rst = md_rst m, min_ren = (\<lambda>k. if k = 0 then md_ren0 m else md_ren1 m),
     min_raddr = (\<lambda>k. if k = 0 then md_raddr0 m else md_raddr1 m),
     min_wvalid = md_wvalid m, min_waddr = md_waddr m, min_wdata = md_wdata m, min_wstrb = md_wstrb m\<rparr>"

definition sync_mem_dp_outs :: "sync_mem_dp \<Rightarrow> mem_outputs" where
  "sync_mem_dp_outs m = \<lparr>mo_rdata = (\<lambda>k. if k = 0 then md_rdata0 m else md_rdata1 m),
     mo_rlive = (\<lambda>k. if k = 0 then Some (md_rlive0 m) else Some (md_rlive1 m))\<rparr>"

definition sync_mem_dp_set_outs :: "mem_outputs \<Rightarrow> sync_mem_dp \<Rightarrow> sync_mem_dp" where
  "sync_mem_dp_set_outs out m = m\<lparr>md_rdata0 := mo_rdata out 0, md_rdata1 := mo_rdata out 1,
     md_rlive0 := the (mo_rlive out 0), md_rlive1 := the (mo_rlive out 1)\<rparr>"

definition sync_mem_dp_Work :: "mem_params \<Rightarrow> sync_mem_dp \<Rightarrow> sync_mem_dp \<times> exn option" where
  "sync_mem_dp_Work P m =
     (case k_work (sync_mem_kernel P) (md_current m) (sync_mem_dp_pins m) (md_pending m) (sync_mem_dp_outs m) of
        (p, out, e) \<Rightarrow> (sync_mem_dp_set_outs out (m\<lparr>md_pending := p\<rparr>), e))"

definition sync_mem_dp_Xfer :: "mem_params \<Rightarrow> sync_mem_dp \<Rightarrow> sync_mem_dp" where
  "sync_mem_dp_Xfer P m = (case k_xfer (sync_mem_kernel P) (md_current m) (md_pending m) (sync_mem_dp_outs m) of
     (c, p, out) \<Rightarrow> sync_mem_dp_set_outs out (m\<lparr>md_current := c, md_pending := p\<rparr>))"

definition sync_mem_dp_DiscardNext :: "mem_params \<Rightarrow> sync_mem_dp \<Rightarrow> sync_mem_dp" where
  "sync_mem_dp_DiscardNext P m = m\<lparr>md_pending := k_discard (sync_mem_kernel P) (md_current m) (md_pending m)\<rparr>"

definition sync_mem_dp_Reset :: "mem_params \<Rightarrow> sync_mem_dp \<Rightarrow> sync_mem_dp" where
  "sync_mem_dp_Reset P m = m\<lparr>md_pending := k_reset (sync_mem_kernel P) (md_current m) (sync_mem_dp_pins m) (md_pending m)\<rparr>"

definition sync_mem_dp_pokeEntry :: "mem_params \<Rightarrow> hw \<Rightarrow> nat \<Rightarrow> hval \<Rightarrow> sync_mem_dp \<Rightarrow> sync_mem_dp" where
  "sync_mem_dp_pokeEntry P t address v m =
     (if address < DEPTH P
      then m\<lparr>md_current := (md_current m)\<lparr>mc_memory := (mc_memory (md_current m))[address := hw_pack t v]\<rparr>\<rparr> else m)"

definition sync_mem_dp_peekEntry :: "mem_params \<Rightarrow> hw \<Rightarrow> nat \<Rightarrow> sync_mem_dp \<Rightarrow> hval" where
  "sync_mem_dp_peekEntry P t address m =
     hw_unpack t (if address < DEPTH P then mc_memory (md_current m) ! address else bits_of_word (DATA_BITS P) 0)"

text \<open>The output pins repeat the committed response of every port.\<close>

definition mem_shows :: "mem_params \<Rightarrow> mem_current \<Rightarrow> mem_outputs \<Rightarrow> bool" where
  "mem_shows P c out \<longleftrightarrow> (\<forall>k<READ_PORTS P. mo_rdata out k = mc_q c k \<and> mo_rlive out k = Some (fs_bool (mc_live c k)))"

lemma mem_shows_xfer:
  assumes "mem_shows P c out" "k_xfer (sync_mem_kernel P) c p out = (c', p', out')"
  shows "mem_shows P c' out'"
proof (cases "mp_valid p")
  case True
  have "c' = fst (mem_xfer P c p out)" "out' = snd (snd (mem_xfer P c p out))"
    using assms(2) by (simp_all add: sync_mem_kernel_def)
  then show ?thesis using assms(1) mem_xfer_fields[OF True, where P=P and c=c and out=out]
    by (auto simp: mem_shows_def)
next
  case False
  then show ?thesis using mem_lk.xfer_invalid[OF False, of P c out] assms by simp
qed

lemma mem_work_outs: "k_work (sync_mem_kernel P) c i p out = (p', out', e) \<Longrightarrow> out' = out"
  by (auto simp: sync_mem_kernel_def mem_work_def split: sum.splits)

text \<open>What the pins of a coherent memory show: the bits of a live response, unknown otherwise.\<close>

lemma mem_shows_bits:
  assumes "mem_ok P" "mem_inv P c" "mem_shows P c out" "k < READ_PORTS P" "j < DATA_BITS P"
  shows "fs_at (mo_rdata out k) j = (case snd (snd (mem_abs P c)) k of
     None \<Rightarrow> LX | Some (row, age) \<Rightarrow> if row j then L1 else L0)"
    "mo_rlive out k = Some (fs_bool (snd (snd (mem_abs P c)) k \<noteq> None))"
  using assms by (auto simp: mem_shows_def mem_inv_def mem_abs_def mem_ok_def fs_at_known fs_at_unknown split: if_splits)

lemma mem_work_step:
  assumes w: "k_work (sync_mem_kernel P) c i p out = (p', out', e)"
    and x: "k_xfer (sync_mem_kernel P) c p' out' = (c', p'', out'')"
  shows "case e of Some x \<Rightarrow> kernel_step (sync_mem_kernel P) c p i out out' = Inl x \<and> c' = c \<and> out'' = out
    | None \<Rightarrow> kernel_step (sync_mem_kernel P) c p i out out' = Inr c'"
  using mem_lk.work_valid[OF w] mem_lk.xfer_invalid[of p' P c out'] mem_work_outs[OF w] w x
  by (auto simp: kernel_step_def split: option.splits)

lemma sync_mem_outs_set [simp]:
  "mo_rdata (sync_mem_outs (sync_mem_set_outs out m)) k = mo_rdata out 0"
  "mo_rlive (sync_mem_outs (sync_mem_set_outs out m)) k = Some (the (mo_rlive out 0))"
  "sm_current (sync_mem_set_outs out m) = sm_current m" "sm_pending (sync_mem_set_outs out m) = sm_pending m"
  "sync_mem_outs (m\<lparr>sm_pending := p\<rparr>) = sync_mem_outs m" "sync_mem_set_outs (sync_mem_outs m) m = m"
  by (simp_all add: sync_mem_outs_def sync_mem_set_outs_def)

lemma sync_mem_dp_outs_set [simp]:
  "mo_rdata (sync_mem_dp_outs (sync_mem_dp_set_outs out m)) k = (if k = 0 then mo_rdata out 0 else mo_rdata out 1)"
  "mo_rlive (sync_mem_dp_outs (sync_mem_dp_set_outs out m)) k =
     (if k = 0 then Some (the (mo_rlive out 0)) else Some (the (mo_rlive out 1)))"
  "md_current (sync_mem_dp_set_outs out m) = md_current m" "md_pending (sync_mem_dp_set_outs out m) = md_pending m"
  "sync_mem_dp_outs (m\<lparr>md_pending := p\<rparr>) = sync_mem_dp_outs m" "sync_mem_dp_set_outs (sync_mem_dp_outs m) m = m"
  by (simp_all add: sync_mem_dp_outs_def sync_mem_dp_set_outs_def cong: if_cong)

lemma sync_mem_cycle:
  assumes P: "READ_PORTS P = 1" "mem_ok P" and m: "mem_inv P (sm_current m)" "mem_shows P (sm_current m) (sync_mem_outs m)"
    and i: "mem_inputs_ok P (sync_mem_pins m)" and w: "sync_mem_Work P m = (m', e)"
  shows "case e of
      Some x \<Rightarrow> mem_spec P (mem_abs P (sm_current m)) (sync_mem_pins m) = Inl x \<and> sync_mem_Xfer P m' = m'
    | None \<Rightarrow> mem_spec P (mem_abs P (sm_current m)) (sync_mem_pins m) = Inr (mem_abs P (sm_current (sync_mem_Xfer P m'))) \<and>
        mem_inv P (sm_current (sync_mem_Xfer P m')) \<and>
        mem_shows P (sm_current (sync_mem_Xfer P m')) (sync_mem_outs (sync_mem_Xfer P m'))"
proof -
  obtain p out t where k: "k_work (sync_mem_kernel P) (sm_current m) (sync_mem_pins m) (sm_pending m) (sync_mem_outs m) = (p, out, t)"
    by (metis prod_cases3)
  note out = mem_work_outs[OF k]
  have m': "m' = m\<lparr>sm_pending := p\<rparr>" "e = t"
    using w k out by (simp_all add: sync_mem_Work_def sync_mem_set_outs_def sync_mem_outs_def)
  obtain c' p' out' where x: "k_xfer (sync_mem_kernel P) (sm_current m) p (sync_mem_outs m) = (c', p', out')" by (metis prod_cases3)
  have X: "sync_mem_Xfer P m' = sync_mem_set_outs out' (m'\<lparr>sm_current := c', sm_pending := p'\<rparr>)"
    using x by (simp add: sync_mem_Xfer_def m')
  note s = mem_work_step[OF k, unfolded out, OF x] and r = mem_refine[OF P(2) m(1) i, of "sm_pending m" "sync_mem_outs m" "sync_mem_outs m"]
  have sh: "mem_shows P c' out'" by (rule mem_shows_xfer[OF m(2) x])
  show ?thesis
  proof (cases t)
    case None
    then show ?thesis using s r sh P(1) by (auto simp: m'(2) X mem_shows_def)
  next
    case (Some y)
    then have "p' = p" "c' = sm_current m" "out' = sync_mem_outs m"
      using mem_lk.work_valid[OF k] mem_lk.xfer_invalid[of p P "sm_current m" "sync_mem_outs m"] x by auto
    then have "sync_mem_Xfer P m' = m'" unfolding X unfolding m' by (simp add: sync_mem_set_outs_def sync_mem_outs_def)
    then show ?thesis using s r Some by (simp add: m'(2))
  qed
qed

lemma sync_mem_dp_cycle:
  assumes P: "READ_PORTS P = 2" "mem_ok P" and m: "mem_inv P (md_current m)" "mem_shows P (md_current m) (sync_mem_dp_outs m)"
    and i: "mem_inputs_ok P (sync_mem_dp_pins m)" and w: "sync_mem_dp_Work P m = (m', e)"
  shows "case e of
      Some x \<Rightarrow> mem_spec P (mem_abs P (md_current m)) (sync_mem_dp_pins m) = Inl x \<and> sync_mem_dp_Xfer P m' = m'
    | None \<Rightarrow> mem_spec P (mem_abs P (md_current m)) (sync_mem_dp_pins m) = Inr (mem_abs P (md_current (sync_mem_dp_Xfer P m'))) \<and>
        mem_inv P (md_current (sync_mem_dp_Xfer P m')) \<and>
        mem_shows P (md_current (sync_mem_dp_Xfer P m')) (sync_mem_dp_outs (sync_mem_dp_Xfer P m'))"
proof -
  obtain p out t where k: "k_work (sync_mem_kernel P) (md_current m) (sync_mem_dp_pins m) (md_pending m) (sync_mem_dp_outs m) = (p, out, t)"
    by (metis prod_cases3)
  note out = mem_work_outs[OF k]
  have m': "m' = m\<lparr>md_pending := p\<rparr>" "e = t"
    using w k out by (simp_all add: sync_mem_dp_Work_def sync_mem_dp_set_outs_def sync_mem_dp_outs_def)
  obtain c' p' out' where x: "k_xfer (sync_mem_kernel P) (md_current m) p (sync_mem_dp_outs m) = (c', p', out')" by (metis prod_cases3)
  have X: "sync_mem_dp_Xfer P m' = sync_mem_dp_set_outs out' (m'\<lparr>md_current := c', md_pending := p'\<rparr>)"
    using x by (simp add: sync_mem_dp_Xfer_def m')
  note s = mem_work_step[OF k, unfolded out, OF x] and r = mem_refine[OF P(2) m(1) i, of "md_pending m" "sync_mem_dp_outs m" "sync_mem_dp_outs m"]
  have sh: "mem_shows P c' out'" by (rule mem_shows_xfer[OF m(2) x])
  show ?thesis
  proof (cases t)
    case None
    then show ?thesis using s r sh P(1) by (auto simp: m'(2) X mem_shows_def less_2_cases_iff)
  next
    case (Some y)
    then have "p' = p" "c' = md_current m" "out' = sync_mem_dp_outs m"
      using mem_lk.work_valid[OF k] mem_lk.xfer_invalid[of p P "md_current m" "sync_mem_dp_outs m"] x by auto
    then have "sync_mem_dp_Xfer P m' = m'" unfolding X unfolding m' by (simp add: sync_mem_dp_set_outs_def sync_mem_dp_outs_def)
    then show ?thesis using s r Some by (simp add: m'(2))
  qed
qed

subsection \<open>Properties\<close>

text \<open>C4.  A synchronous memory with one or two read ports refines the abstract memory: on every input a kernel
  step throws exactly when the abstract memory does, with the same error, and otherwise reaches a state that
  represents the abstract successor.  Reads see the storage before the write of the same edge, a write merges
  the strobed bytes and drops an address beyond the depth however wide the address is, a response expires
  after two idle edges, and reset drops the responses but not the storage.  The invariant is kept.\<close>

theorem sync_mem_refines:
  assumes "mem_ok P" "mem_inv P c" "mem_inputs_ok P i"
  shows "case kernel_step (sync_mem_kernel P) c p i out out' of
     Inl e \<Rightarrow> mem_spec P (mem_abs P c) i = Inl e
   | Inr c' \<Rightarrow> mem_inv P c' \<and> mem_spec P (mem_abs P c) i = Inr (mem_abs P c')"
  by (rule mem_refine[OF assms])

definition mem_example :: mem_params where
  "mem_example = \<lparr>DATA_BITS = 8, ADDR_WIDTH = 2, DEPTH = 3, READ_PORTS = 2\<rparr>"

definition dp_example :: sync_mem_dp where
  "dp_example = \<lparr>md_clk = fs_bool True, md_rst = fs_bool False, md_ren0 = fs_bool True, md_ren1 = fs_bool False,
     md_raddr0 = fs_known 2 [1], md_raddr1 = fs_unknown 2, md_rdata0 = fs_unknown 8, md_rdata1 = fs_unknown 8,
     md_rlive0 = fs_bool False, md_rlive1 = fs_bool False, md_wvalid = fs_bool True, md_waddr = fs_known 2 [1],
     md_wdata = fs_known 8 [5], md_wstrb = fs_known 1 [1],
     md_current = (mem_initial mem_example)\<lparr>mc_memory := [[0], [9], [0]]\<rparr>,
     md_pending = \<lparr>mp_q = (\<lambda>_. fs_unknown 8), mp_read = (\<lambda>_. False), mp_invalidate = (\<lambda>_. False), mp_idle = (\<lambda>_. 0),
       mp_data = [0], mp_address = 0, mp_write = False, mp_clock = False, mp_valid = False\<rparr>\<rparr>"

lemma dp_example_ok:
  "READ_PORTS mem_example = 2" "mem_ok mem_example" "mem_inputs_ok mem_example (sync_mem_dp_pins dp_example)"
  "mem_inv mem_example (md_current dp_example)" "mem_shows mem_example (md_current dp_example) (sync_mem_dp_outs dp_example)"
proof -
  have three: "a < 3 \<longleftrightarrow> a = 0 \<or> a = 1 \<or> a = 2" for a :: nat by auto
  have b: "bits_wf 2 [1]" "bits_wf 8 [5]" "bits_wf 1 [1]" "bits_wf 8 [0]" "bits_wf 8 [9]" by (simp_all add: bits_eval)
  show "READ_PORTS mem_example = 2" "mem_ok mem_example" by (simp_all add: mem_example_def mem_ok_def)
  show "mem_inputs_ok mem_example (sync_mem_dp_pins dp_example)"
    using b by (simp add: mem_example_def mem_inputs_ok_def sync_mem_dp_pins_def dp_example_def STRB_WIDTH_def)
  show "mem_inv mem_example (md_current dp_example)"
    using b by (simp add: mem_inv_def mem_example_def dp_example_def mem_initial_def three)
  show "mem_shows mem_example (md_current dp_example) (sync_mem_dp_outs dp_example)"
    by (simp add: mem_shows_def mem_example_def dp_example_def mem_initial_def sync_mem_dp_outs_def)
qed

lemma dp_example_spec:
  "case mem_spec mem_example (mem_abs mem_example (md_current dp_example)) (sync_mem_dp_pins dp_example) of
     Inl e \<Rightarrow> False
   | Inr (clk, M, resp) \<Rightarrow> M 1 2 \<and> \<not> M 1 3 \<and> (\<exists>row. resp 0 = Some (row, 0) \<and> row 3) \<and> resp 1 = None"
proof -
  have b: "toBool (fs_value (fs_bool True))" "\<not> toBool (fs_value (fs_bool False))" by code_simp+
  have k: "bits_wf 2 [1]" "bits_wf 8 [5]" "bits_wf 1 [1]" "bval [1] = 1" "bval [5] = 5" "bval [9] = 9"
    "fs_isFullyKnown 1 (fs_bool c)" for c by (simp_all add: bits_eval bval.simps)
  show ?thesis using b k
    by (auto simp: mem_spec_def mem_spec_edge_def mem_abs_def dp_example_def mem_example_def sync_mem_dp_pins_def STRB_WIDTH_def
        mem_initial_def less_2_cases_iff bit_iff_odd fun_eq_iff)
qed

theorem sync_mem_refines_witness:
  "case kernel_step (sync_mem_kernel mem_example) (md_current dp_example) (md_pending dp_example) (sync_mem_dp_pins dp_example)
      (sync_mem_dp_outs dp_example) (sync_mem_dp_outs dp_example) of
     Inl e \<Rightarrow> False | Inr c' \<Rightarrow> mem_inv mem_example c' \<and> fst (snd (mem_abs mem_example c')) 1 2 \<and> \<not> fst (snd (mem_abs mem_example c')) 1 3"
  using sync_mem_refines[OF dp_example_ok(2,4,3), of "md_pending dp_example" "sync_mem_dp_outs dp_example" "sync_mem_dp_outs dp_example"]
    dp_example_spec by (auto split: sum.splits prod.splits)

text \<open>C37.  The pins of a dual-port memory module.  A failing \<open>Work\<close> leaves \<open>Xfer\<close> nothing to do; after
  a successful one, each port's data pin shows the bits of that port's response and is unknown when there is
  none, and its status pin says which.\<close>

theorem sync_mem_dp_pins_show:
  assumes "READ_PORTS P = 2" "mem_ok P" "mem_inv P (md_current m)" "mem_shows P (md_current m) (sync_mem_dp_outs m)"
    and "mem_inputs_ok P (sync_mem_dp_pins m)" "sync_mem_dp_Work P m = (m', e)"
  shows "case e of
      Some x \<Rightarrow> mem_spec P (mem_abs P (md_current m)) (sync_mem_dp_pins m) = Inl x \<and> sync_mem_dp_Xfer P m' = m'
    | None \<Rightarrow> (\<exists>s. mem_spec P (mem_abs P (md_current m)) (sync_mem_dp_pins m) = Inr s \<and>
        (\<forall>k<2. \<forall>j<DATA_BITS P. fs_at (mo_rdata (sync_mem_dp_outs (sync_mem_dp_Xfer P m')) k) j =
           (case snd (snd s) k of None \<Rightarrow> LX | Some (row, age) \<Rightarrow> if row j then L1 else L0)) \<and>
        (\<forall>k<2. mo_rlive (sync_mem_dp_outs (sync_mem_dp_Xfer P m')) k = Some (fs_bool (snd (snd s) k \<noteq> None))))"
proof (cases e)
  case None
  have c: "mem_inv P (md_current (sync_mem_dp_Xfer P m'))"
    "mem_shows P (md_current (sync_mem_dp_Xfer P m')) (sync_mem_dp_outs (sync_mem_dp_Xfer P m'))"
    "mem_spec P (mem_abs P (md_current m)) (sync_mem_dp_pins m) = Inr (mem_abs P (md_current (sync_mem_dp_Xfer P m')))"
    using sync_mem_dp_cycle[OF assms] None by simp_all
  have "0 < DATA_BITS P" using assms(2) by (simp add: mem_ok_def)
  then show ?thesis using mem_shows_bits[OF assms(2) c(1,2)] assms(1) c(3) None by (auto simp del: fs_bool)
next
  case (Some x)
  then show ?thesis using sync_mem_dp_cycle[OF assms] by simp
qed

theorem sync_mem_dp_pins_show_witness:
  "fs_at (md_rdata0 (sync_mem_dp_Xfer mem_example (fst (sync_mem_dp_Work mem_example dp_example)))) 3 = L1 \<and>
   fs_at (md_rdata1 (sync_mem_dp_Xfer mem_example (fst (sync_mem_dp_Work mem_example dp_example)))) 3 = LX"
proof -
  obtain m' e where w: "sync_mem_dp_Work mem_example dp_example = (m', e)" by (cases "sync_mem_dp_Work mem_example dp_example") blast
  note t = sync_mem_dp_pins_show[OF dp_example_ok(1,2,4,5,3) w]
  have e: "e = None" using t dp_example_spec by (cases e) auto
  obtain s where s: "mem_spec mem_example (mem_abs mem_example (md_current dp_example)) (sync_mem_dp_pins dp_example) = Inr s"
    "\<And>k. k < 2 \<Longrightarrow> fs_at (mo_rdata (sync_mem_dp_outs (sync_mem_dp_Xfer mem_example m')) k) 3 =
           (case snd (snd s) k of None \<Rightarrow> LX | Some (row, age) \<Rightarrow> if row 3 then L1 else L0)"
    using t by (auto simp: e mem_example_def)
  have "snd (snd s) 1 = None" "\<exists>row. snd (snd s) 0 = Some (row, 0) \<and> row 3"
    using dp_example_spec s(1) by (auto split: prod.splits)
  then show ?thesis using s(2)[of 0] s(2)[of 1] w by (auto simp: sync_mem_dp_outs_def)
qed

end
