(* ===== verification/Gfsim_ByteMem.thy ===== *)
theory Gfsim_ByteMem
  imports Gfsim_Memory
begin

text \<open>
  The byte-addressed memory of \<^verbatim>\<open>include/gfsim/byte_mem.h\<close>: the kernel
  \<^verbatim>\<open>byte_mem_kernel\<close>, with a combinational read and a write on the rising edge, and the module
  \<^verbatim>\<open>byte_mem\<close>.  Arrays over the byte lanes are functions of the lane number.  The refinement lemma
  relates a kernel step to an abstract array of bytes.
\<close>

subsection \<open>The kernel\<close>

record bm_params =
  bm_DATA_BITS :: nat
  bm_ADDR_WIDTH :: nat
  bm_DEPTH :: nat

definition bm_STRB_WIDTH :: "bm_params \<Rightarrow> nat" where
  "bm_STRB_WIDTH P = bm_DATA_BITS P div 8"

record bm_current =
  bc_memory :: "u8 list"
  bc_clock :: bool

record bm_pending =
  bp_bytes :: "nat \<Rightarrow> u8"
  bp_lanes :: "nat \<Rightarrow> bool"
  bp_address :: nat
  bp_clock :: bool
  bp_valid :: bool

record bm_inputs =
  bin_clk :: four_state
  bin_rst :: four_state
  bin_raddr :: four_state
  bin_wvalid :: four_state
  bin_waddr :: four_state
  bin_wdata :: four_state
  bin_wstrb :: four_state

definition bm_discard :: "bm_current \<Rightarrow> bm_pending \<Rightarrow> bm_pending" where
  "bm_discard c p = p\<lparr>bp_lanes := (\<lambda>_. False), bp_valid := False, bp_clock := bc_clock c\<rparr>"

definition bm_reset :: "bm_current \<Rightarrow> bm_inputs \<Rightarrow> bm_pending \<Rightarrow> bm_pending" where
  "bm_reset c i p = (bm_discard c p)\<lparr>bp_valid := True, bp_clock := False\<rparr>"

definition peekByteAt :: "bm_params \<Rightarrow> bm_current \<Rightarrow> nat \<Rightarrow> nat \<Rightarrow> u8" where
  "peekByteAt P c base lane =
     (if base \<ge> bm_DEPTH P \<or> lane \<ge> bm_DEPTH P - base then 0 else bc_memory c ! (base + lane))"

definition bm_read_value :: "bm_params \<Rightarrow> bm_current \<Rightarrow> nat \<Rightarrow> bits" where
  "bm_read_value P c base =
     fold (\<lambda>lane v. bits_or (bm_DATA_BITS P) v
              (bits_shl (bm_DATA_BITS P) (bits_zext (bm_DATA_BITS P) 8 (bits_of_word 8 (ucast (peekByteAt P c base lane)))) (8 * lane)))
       [0..<bm_STRB_WIDTH P] (bits_default (bm_DATA_BITS P))"

definition bm_read :: "bm_params \<Rightarrow> bm_current \<Rightarrow> four_state \<Rightarrow> four_state" where
  "bm_read P c address =
     (if \<not> fs_isFullyKnown (bm_ADDR_WIDTH P) address then fs_unknown (bm_DATA_BITS P)
      else fs_known (bm_DATA_BITS P) (bm_read_value P c (unat (memory_index (bm_ADDR_WIDTH P) (fs_value address)))))"

definition bm_stage_lane :: "bm_params \<Rightarrow> bm_inputs \<Rightarrow> nat \<Rightarrow> bm_pending \<Rightarrow> bm_pending" where
  "bm_stage_lane P i lane p =
     (if lane < bm_DEPTH P - bp_address p \<and> bits_bit (bm_STRB_WIDTH P) (fs_value (bin_wstrb i)) lane
      then p\<lparr>bp_bytes := (bp_bytes p)(lane :=
               ucast (bits_value (bits_extract 8 (bm_DATA_BITS P) (fs_value (bin_wdata i)) (8 * lane)))),
             bp_lanes := (bp_lanes p)(lane := True)\<rparr>
      else p)"

definition bm_try :: "bm_params \<Rightarrow> bm_current \<Rightarrow> bm_inputs \<Rightarrow> bm_pending \<Rightarrow> exn + bm_pending" where
  "bm_try P c i p =
     (if \<not> fs_isFullyKnown 1 (bin_clk i) then Inl (FourStateViolation ''byte_mem clock must be known'')
      else let p = p\<lparr>bp_clock := toBool (fs_value (bin_clk i)), bp_valid := True\<rparr>
           in if bc_clock c \<or> \<not> bp_clock p then Inr p
              else if \<not> fs_isFullyKnown 1 (bin_rst i)
              then Inl (FourStateViolation ''byte_mem reset must be known at posedge'')
              else if toBool (fs_value (bin_rst i)) then Inr p
              else if \<not> fs_isFullyKnown 1 (bin_wvalid i)
              then Inl (FourStateViolation ''byte_mem write control must be known at posedge'')
              else if \<not> toBool (fs_value (bin_wvalid i)) then Inr p
              else if \<not> fs_isFullyKnown (bm_ADDR_WIDTH P) (bin_waddr i) \<or> \<not> fs_isFullyKnown (bm_DATA_BITS P) (bin_wdata i) \<or>
                      \<not> fs_isFullyKnown (bm_STRB_WIDTH P) (bin_wstrb i)
              then Inl (FourStateViolation ''byte_mem enabled write address/data/strobe must be known'')
              else let p = p\<lparr>bp_address := unat (memory_index (bm_ADDR_WIDTH P) (fs_value (bin_waddr i)))\<rparr>
                   in if bp_address p \<ge> bm_DEPTH P then Inr p
                      else Inr (fold (bm_stage_lane P i) [0..<bm_STRB_WIDTH P] p))"

text \<open>The read output changes before the clock is checked, so it has changed even when \<open>work\<close> throws
  on the clock, the reset or a write control.\<close>

definition bm_work ::
  "bm_params \<Rightarrow> bm_current \<Rightarrow> bm_inputs \<Rightarrow> bm_pending \<Rightarrow> four_state \<Rightarrow> bm_pending \<times> four_state \<times> exn option" where
  "bm_work P c i p rdata =
     (if \<not> fs_isFullyKnown (bm_ADDR_WIDTH P) (bin_raddr i)
      then (bm_discard c p, rdata, Some (FourStateViolation ''byte_mem read address must be known''))
      else case bm_try P c i (bm_discard c p) of
             Inl e \<Rightarrow> (bm_discard c p, bm_read P c (bin_raddr i), Some e)
           | Inr p' \<Rightarrow> (p', bm_read P c (bin_raddr i), None))"

definition bm_xfer :: "bm_params \<Rightarrow> bm_current \<Rightarrow> bm_pending \<Rightarrow> four_state \<Rightarrow> bm_current \<times> bm_pending \<times> four_state" where
  "bm_xfer P c p rdata =
     (if \<not> bp_valid p then (c, p, rdata)
      else let c = c\<lparr>bc_clock := bp_clock p\<rparr>;
               c = fold (\<lambda>lane c. if bp_lanes p lane
                                  then c\<lparr>bc_memory := (bc_memory c)[bp_address p + lane := bp_bytes p lane]\<rparr> else c)
                     [0..<bm_STRB_WIDTH P] c
           in (c, bm_discard c p, rdata))"

definition byte_mem_kernel :: "bm_params \<Rightarrow> (bm_current, bm_pending, bm_inputs, four_state) kernel" where
  "byte_mem_kernel P = \<lparr>k_work = bm_work P, k_xfer = bm_xfer P, k_discard = bm_discard, k_reset = bm_reset\<rparr>"

definition bm_initial :: "bm_params \<Rightarrow> bm_current" where
  "bm_initial P = \<lparr>bc_memory = replicate (bm_DEPTH P) 0, bc_clock = False\<rparr>"

subsection \<open>The kernel contract\<close>

lemma bm_stage_lanes:
  "bp_address (fold (bm_stage_lane P i) [0..<n] p) = bp_address p"
  "bp_clock (fold (bm_stage_lane P i) [0..<n] p) = bp_clock p"
  "bp_valid (fold (bm_stage_lane P i) [0..<n] p) = bp_valid p"
  "bp_lanes (fold (bm_stage_lane P i) [0..<n] p) k \<longleftrightarrow> bp_lanes p k \<or>
     (k < n \<and> k < bm_DEPTH P - bp_address p \<and> bits_bit (bm_STRB_WIDTH P) (fs_value (bin_wstrb i)) k)"
  "\<not> bp_lanes p k \<Longrightarrow> bp_lanes (fold (bm_stage_lane P i) [0..<n] p) k \<Longrightarrow> bp_bytes (fold (bm_stage_lane P i) [0..<n] p) k =
     ucast (bits_value (bits_extract 8 (bm_DATA_BITS P) (fs_value (bin_wdata i)) (8 * k)))"
  by (induction n) (auto simp: bm_stage_lane_def less_Suc_eq split: if_splits)

text \<open>Pending states that commit alike.\<close>

definition bm_alike :: "bm_pending \<Rightarrow> bm_pending \<Rightarrow> bool" where
  "bm_alike p q \<longleftrightarrow> bp_lanes p = bp_lanes q \<and> bp_clock p = bp_clock q \<and> bp_valid p = bp_valid q \<and>
     (\<forall>lane. bp_lanes p lane \<longrightarrow> bp_bytes p lane = bp_bytes q lane \<and> bp_address p = bp_address q)"

lemma bm_alike_lanes:
  assumes "bp_lanes p = (\<lambda>_. False)" "bp_lanes q = (\<lambda>_. False)" "bp_address p = bp_address q" "bp_clock p = bp_clock q" "bp_valid p = bp_valid q"
  shows "bm_alike (fold (bm_stage_lane P i) [0..<n] p) (fold (bm_stage_lane P i) [0..<n] q)"
  using assms bm_stage_lanes(5)[of p _ P i n] bm_stage_lanes(5)[of q _ P i n]
  by (auto simp: bm_alike_def bm_stage_lanes(1-4) fun_eq_iff)

lemma bm_alike_try: "rel_sum (=) bm_alike (bm_try P c i (bm_discard c p)) (bm_try P c i (bm_discard c q))"
  using bm_alike_lanes[of "(bm_discard c p)\<lparr>bp_clock := True, bp_valid := True, bp_address := unat (memory_index (bm_ADDR_WIDTH P) (fs_value (bin_waddr i)))\<rparr>"
     "(bm_discard c q)\<lparr>bp_clock := True, bp_valid := True, bp_address := unat (memory_index (bm_ADDR_WIDTH P) (fs_value (bin_waddr i)))\<rparr>"
     P i "bm_STRB_WIDTH P"]
  by (auto simp: bm_try_def Let_def bm_discard_def) (auto simp: bm_alike_def)

lemma bm_xfer_lanes:
  fixes p :: bm_pending
  defines "f \<equiv> \<lambda>lane c. if bp_lanes p lane then c\<lparr>bc_memory := (bc_memory c)[bp_address p + lane := bp_bytes p lane]\<rparr> else c"
  shows "bc_clock (fold f [0..<n] c) = bc_clock c" "length (bc_memory (fold f [0..<n] c)) = length (bc_memory c)"
    "a < length (bc_memory c) \<Longrightarrow> bc_memory (fold f [0..<n] c) ! a =
       (if bp_address p \<le> a \<and> a - bp_address p < n \<and> bp_lanes p (a - bp_address p) then bp_bytes p (a - bp_address p) else bc_memory c ! a)"
  by (induction n) (auto simp: f_def nth_list_update less_Suc_eq)

lemma bm_xfer_fields:
  assumes "bp_valid p"
  shows "bc_clock (fst (bm_xfer P c p out)) = bp_clock p" "length (bc_memory (fst (bm_xfer P c p out))) = length (bc_memory c)"
    "a < length (bc_memory c) \<Longrightarrow> bc_memory (fst (bm_xfer P c p out)) ! a =
       (if bp_address p \<le> a \<and> a - bp_address p < bm_STRB_WIDTH P \<and> bp_lanes p (a - bp_address p)
        then bp_bytes p (a - bp_address p) else bc_memory c ! a)"
    "snd (snd (bm_xfer P c p out)) = out"
  using assms bm_xfer_lanes[where p=p and n="bm_STRB_WIDTH P" and c="c\<lparr>bc_clock := bp_clock p\<rparr>"] by (simp_all add: bm_xfer_def Let_def)

lemma bm_alike_xfer:
  assumes a: "bm_alike p q"
  shows "fst (bm_xfer P c p out) = fst (bm_xfer P c q out) \<and> snd (snd (bm_xfer P c p out)) = snd (snd (bm_xfer P c q out))"
proof (cases "bp_valid p")
  case True
  then have v: "bp_valid p" "bp_valid q" using a by (simp_all add: bm_alike_def)
  show ?thesis
  proof (intro conjI bm_current.equality nth_equalityI)
    fix k assume "k < length (bc_memory (fst (bm_xfer P c p out)))"
    then have k: "k < length (bc_memory c)" by (simp add: bm_xfer_fields v)
    show "bc_memory (fst (bm_xfer P c p out)) ! k = bc_memory (fst (bm_xfer P c q out)) ! k"
      using a unfolding bm_xfer_fields(3)[OF v(1) k] bm_xfer_fields(3)[OF v(2) k] bm_alike_def
      by (cases "bp_address p = bp_address q") auto
  qed (use a in \<open>auto simp: bm_xfer_fields v bm_alike_def\<close>)
next
  case False
  then show ?thesis using a by (simp add: bm_xfer_def bm_alike_def)
qed

lemma bm_try_valid: "bm_try P c i p = Inr p' \<Longrightarrow> bp_valid p'"
  by (auto simp: bm_try_def Let_def bm_stage_lanes split: if_splits)

interpretation bm_lk: leaf_kernel "byte_mem_kernel P" bp_valid for P
proof unfold_locales
  fix c p q i and out out' :: four_state and p' e
  show "\<not> bp_valid (k_discard (byte_mem_kernel P) c p)" by (simp add: byte_mem_kernel_def bm_discard_def)
  show "\<not> bp_valid p \<Longrightarrow> k_xfer (byte_mem_kernel P) c p out = (c, p, out)" by (simp add: byte_mem_kernel_def bm_xfer_def)
  show "bp_valid p \<Longrightarrow> \<not> bp_valid (fst (snd (k_xfer (byte_mem_kernel P) c p out)))"
    by (simp add: byte_mem_kernel_def bm_xfer_def Let_def bm_discard_def)
  show "k_work (byte_mem_kernel P) c i p out = (p', out', e) \<Longrightarrow> bp_valid p' = (e = None)"
    by (auto simp: byte_mem_kernel_def bm_work_def bm_discard_def bm_try_valid split: sum.splits if_splits)
  note a = bm_alike_try[where P=P and c=c and i=i and p=p and q=q]
  show "snd (k_work (byte_mem_kernel P) c i p out) = snd (k_work (byte_mem_kernel P) c i q out)"
    using a by cases (auto simp: byte_mem_kernel_def bm_work_def)
  show "bp_valid (k_reset (byte_mem_kernel P) c i p)" by (simp add: byte_mem_kernel_def bm_reset_def)
  show "snd (snd (k_work (byte_mem_kernel P) c i p out)) = None \<Longrightarrow>
      fst (k_xfer (byte_mem_kernel P) c (fst (k_work (byte_mem_kernel P) c i p out)) out') =
      fst (k_xfer (byte_mem_kernel P) c (fst (k_work (byte_mem_kernel P) c i q out)) out') \<and>
      snd (snd (k_xfer (byte_mem_kernel P) c (fst (k_work (byte_mem_kernel P) c i p out)) out')) =
      snd (snd (k_xfer (byte_mem_kernel P) c (fst (k_work (byte_mem_kernel P) c i q out)) out'))"
    using a by cases (auto simp: byte_mem_kernel_def bm_work_def bm_alike_xfer)
qed

subsection \<open>Refinement of the abstract byte array\<close>

text \<open>A state of the abstract memory: the sampled clock and the byte at every address, zero beyond the depth.\<close>

type_synonym bm_state = "bool \<times> (nat \<Rightarrow> u8)"

definition bm_byte :: "bits \<Rightarrow> nat \<Rightarrow> u8" where
  "bm_byte d k = of_nat (bval d div 2 ^ (8 * k))"

definition bm_write :: "bm_params \<Rightarrow> bm_inputs \<Rightarrow> (nat \<Rightarrow> u8) \<Rightarrow> nat \<Rightarrow> u8" where
  "bm_write P i M a =
     (let base = bval (fs_value (bin_waddr i))
      in if base \<le> a \<and> a < bm_DEPTH P \<and> bit (bval (fs_value (bin_wstrb i))) (a - base)
         then bm_byte (fs_value (bin_wdata i)) (a - base) else M a)"

definition bm_spec :: "bm_params \<Rightarrow> bm_state \<Rightarrow> bm_inputs \<Rightarrow> exn + bm_state" where
  "bm_spec P s i = (case s of (clk, M) \<Rightarrow>
     if \<not> fs_isFullyKnown (bm_ADDR_WIDTH P) (bin_raddr i) then Inl (FourStateViolation ''byte_mem read address must be known'')
     else if \<not> fs_isFullyKnown 1 (bin_clk i) then Inl (FourStateViolation ''byte_mem clock must be known'')
     else if clk \<or> \<not> toBool (fs_value (bin_clk i)) then Inr (toBool (fs_value (bin_clk i)), M)
     else if \<not> fs_isFullyKnown 1 (bin_rst i) then Inl (FourStateViolation ''byte_mem reset must be known at posedge'')
     else if toBool (fs_value (bin_rst i)) then Inr (True, M)
     else if \<not> fs_isFullyKnown 1 (bin_wvalid i)
     then Inl (FourStateViolation ''byte_mem write control must be known at posedge'')
     else if \<not> toBool (fs_value (bin_wvalid i)) then Inr (True, M)
     else if \<not> (fs_isFullyKnown (bm_ADDR_WIDTH P) (bin_waddr i) \<and> fs_isFullyKnown (bm_DATA_BITS P) (bin_wdata i) \<and>
                fs_isFullyKnown (bm_STRB_WIDTH P) (bin_wstrb i))
     then Inl (FourStateViolation ''byte_mem enabled write address/data/strobe must be known'')
     else Inr (True, bm_write P i M))"

definition bm_abs :: "bm_params \<Rightarrow> bm_current \<Rightarrow> bm_state" where
  "bm_abs P c = (bc_clock c, \<lambda>a. if a < bm_DEPTH P then bc_memory c ! a else 0)"

definition bm_ok :: "bm_params \<Rightarrow> bool" where
  "bm_ok P \<longleftrightarrow> 0 < bm_DATA_BITS P \<and> bm_DATA_BITS P mod 8 = 0 \<and> 0 < bm_ADDR_WIDTH P \<and> 0 < bm_DEPTH P \<and> bm_DEPTH P < 2 ^ 64"

definition bm_inputs_ok :: "bm_params \<Rightarrow> bm_inputs \<Rightarrow> bool" where
  "bm_inputs_ok P i \<longleftrightarrow> fs_wf (bm_ADDR_WIDTH P) (bin_raddr i) \<and> fs_wf (bm_ADDR_WIDTH P) (bin_waddr i) \<and>
     fs_wf (bm_DATA_BITS P) (bin_wdata i) \<and> fs_wf (bm_STRB_WIDTH P) (bin_wstrb i)"

definition bm_inv :: "bm_params \<Rightarrow> bm_current \<Rightarrow> bool" where
  "bm_inv P c \<longleftrightarrow> length (bc_memory c) = bm_DEPTH P"

lemma bm_byte_extract:
  assumes "bits_wf w d"
  shows "ucast (bits_value (bits_extract 8 w d (8 * k))) = bm_byte d k"
proof (rule bit_eqI)
  fix j assume "possible_bit TYPE(8 word) j"
  then have j: "j < 8" by simp
  have "bit (bits_value (bits_extract 8 w d (8 * k))) j \<longleftrightarrow> bit (bval d) (j + 8 * k)"
    using j by (simp add: bits_value_bit[OF bits_wf_extract] bit_extract[OF assms])
  then show "bit (ucast (bits_value (bits_extract 8 w d (8 * k))) :: u8) j \<longleftrightarrow> bit (bm_byte d k) j"
    using j by (simp add: bm_byte_def bit_ucast_iff bit_of_nat_iff drop_bit_eq_div[symmetric] bit_drop_bit_eq add.commute)
qed

lemma peekByteAt_index:
  assumes ok: "bm_ok P" and a: "bits_wf (bm_ADDR_WIDTH P) a"
  shows "peekByteAt P c (unat (memory_index (bm_ADDR_WIDTH P) a)) lane = snd (bm_abs P c) (bval a + lane)"
  using memory_index_less[OF a, of "bm_DEPTH P"] ok by (auto simp: peekByteAt_def bm_abs_def bm_ok_def)

lemma bval_u8: "bval (bits_of_word 8 (ucast (x::u8))) = unat x"
proof -
  have "unat x < 256" using unsigned_less[of x] by simp
  then show ?thesis by (simp add: bval_of_word unsigned_ucast_eq take_bit_nat_eq_self)
qed

lemma bm_read_value:
  assumes ok: "bm_ok P"
  shows "bits_wf (bm_DATA_BITS P) (bm_read_value P c base)"
    "bit (bval (bm_read_value P c base)) j \<longleftrightarrow> j < bm_DATA_BITS P \<and> bit (peekByteAt P c base (j div 8)) (j mod 8)"
proof -
  define W where "W = bm_DATA_BITS P"
  have w: "0 < W" "8 \<le> W" "W = 8 * bm_STRB_WIDTH P"
    using ok by (auto simp: W_def bm_ok_def bm_STRB_WIDTH_def mod_eq_0_iff_dvd)
  define b where "b lane = bits_zext W 8 (bits_of_word 8 (ucast (peekByteAt P c base lane)))" for lane
  have b: "bits_wf W (b lane)" "bit (bval (b lane)) j \<longleftrightarrow> j < 8 \<and> bit (peekByteAt P c base lane) j" for lane j
    using w by (auto simp: b_def bits_wf_zext bit_zext bits_wf_of_word bval_u8 bit_unsigned_iff dest: bit_imp_le_length)
  define F where "F n = fold (\<lambda>lane v. bits_or W v (bits_shl W (b lane) (8 * lane))) [0..<n] (bits_default W)" for n
  have F: "F 0 = bits_default W" "F (Suc n) = bits_or W (F n) (bits_shl W (b n) (8 * n))" for n by (simp_all add: F_def)
  have "bits_wf W (F n) \<and> (\<forall>j. bit (bval (F n)) j \<longleftrightarrow> j < W \<and> j div 8 < n \<and> bit (peekByteAt P c base (j div 8)) (j mod 8))" for n
  proof (induction n)
    case (Suc n)
    have lane: "8 * n \<le> j \<and> j - 8 * n < 8 \<longleftrightarrow> j div 8 = n" for j by auto
    have "bit (bval (F (Suc n))) j \<longleftrightarrow> bit (bval (F n)) j \<or> (j < W \<and> j div 8 = n \<and> bit (peekByteAt P c base (j div 8)) (j mod 8))" for j
    proof -
      have "bit (bval (bits_shl W (b n) (8 * n))) j \<longleftrightarrow> j < W \<and> (8 * n \<le> j \<and> j - 8 * n < 8) \<and> bit (peekByteAt P c base n) (j - 8 * n)"
        by (auto simp: bit_shl[OF b(1)] b(2))
      also have "\<dots> \<longleftrightarrow> j < W \<and> j div 8 = n \<and> bit (peekByteAt P c base (j div 8)) (j mod 8)"
        unfolding lane by (auto simp: modulo_nat_def mult.commute)
      finally show ?thesis using Suc by (simp add: F bit_bitwise(2) bits_wf_shl b(1))
    qed
    then show ?case using Suc by (auto simp: F(2) bits_wf_bitwise w(1) less_Suc_eq)
  qed (simp add: F bits_wf_default w(1) bval_default)
  note fin = this[of "bm_STRB_WIDTH P"]
  have eq: "bm_read_value P c base = F (bm_STRB_WIDTH P)" by (simp add: bm_read_value_def F_def b_def W_def)
  have "j < W \<Longrightarrow> j div 8 < bm_STRB_WIDTH P" using w(3) by (simp add: less_mult_imp_div_less mult.commute)
  then show "bits_wf (bm_DATA_BITS P) (bm_read_value P c base)"
    "bit (bval (bm_read_value P c base)) j \<longleftrightarrow> j < bm_DATA_BITS P \<and> bit (peekByteAt P c base (j div 8)) (j mod 8)"
    using fin unfolding eq W_def by blast+
qed

lemma bm_read_bits:
  assumes ok: "bm_ok P" and a: "fs_wf (bm_ADDR_WIDTH P) address" and k: "fs_isFullyKnown (bm_ADDR_WIDTH P) address"
    and j: "j < bm_DATA_BITS P"
  shows "fs_at (bm_read P c address) j =
    (if bit (snd (bm_abs P c) (bval (fs_value address) + j div 8)) (j mod 8) then L1 else L0)"
  using bm_read_value[OF ok, of c] k j
  by (simp add: bm_read_def fs_at_known peekByteAt_index[OF ok fs_wfD(1)[OF a]])

lemma bm_refine:
  assumes ok: "bm_ok P" and inv: "bm_inv P c" and i: "bm_inputs_ok P i"
  shows "case kernel_step (byte_mem_kernel P) c p i out out' of
     Inl e \<Rightarrow> bm_spec P (bm_abs P c) i = Inl e
   | Inr c' \<Rightarrow> bm_inv P c' \<and> bm_spec P (bm_abs P c) i = Inr (bm_abs P c')"
proof (cases "k_work (byte_mem_kernel P) c i p out")
  case (fields p' o1 e)
  have iw: "bits_wf (bm_ADDR_WIDTH P) (fs_value (bin_waddr i))" "bits_wf (bm_DATA_BITS P) (fs_value (bin_wdata i))"
    "bits_wf (bm_STRB_WIDTH P) (fs_value (bin_wstrb i))" using i fs_wfD(1) by (auto simp: bm_inputs_ok_def)
  show ?thesis
  proof (cases e)
    case (Some x)
    then have "bm_spec P (bm_abs P c) i = Inl x"
      using fields by (auto simp: byte_mem_kernel_def bm_work_def bm_try_def Let_def bm_spec_def bm_abs_def split: if_splits)
    then show ?thesis using fields Some by (simp add: kernel_step_def)
  next
    case None
    have v: "bp_valid p'" using bm_lk.work_valid[OF fields] None by simp
    define c' where "c' = fst (bm_xfer P c p' out')"
    have len: "length (bc_memory c) = bm_DEPTH P" using inv by (simp add: bm_inv_def)
    note x = bm_xfer_fields[OF v, where P=P and c=c and out=out', folded c'_def, unfolded len]
    have inv': "bm_inv P c'" by (simp add: bm_inv_def x)
    have tr: "bm_try P c i (bm_discard c p) = Inr p'" "fs_isFullyKnown (bm_ADDR_WIDTH P) (bin_raddr i)"
      using fields None by (auto simp: byte_mem_kernel_def bm_work_def split: if_splits sum.splits)
    have "bm_spec P (bm_abs P c) i = Inr (bm_abs P c')"
    proof (cases "bc_clock c \<or> \<not> toBool (fs_value (bin_clk i)) \<or> toBool (fs_value (bin_rst i)) \<or> \<not> toBool (fs_value (bin_wvalid i))")
      case True
      then have "p' = (bm_discard c p)\<lparr>bp_clock := toBool (fs_value (bin_clk i)), bp_valid := True\<rparr>"
        using tr(1) by (auto simp: bm_try_def Let_def split: if_splits)
      then have "bm_abs P c' = (toBool (fs_value (bin_clk i)), snd (bm_abs P c))"
        by (auto simp: bm_abs_def x bm_discard_def fun_eq_iff)
      then show ?thesis using True tr by (auto simp: bm_spec_def bm_abs_def bm_try_def Let_def split: if_splits)
    next
      case False
      define a where "a = unat (memory_index (bm_ADDR_WIDTH P) (fs_value (bin_waddr i)))"
      define p1 where "p1 = (bm_discard c p)\<lparr>bp_clock := True, bp_valid := True, bp_address := a\<rparr>"
      have p': "p' = (if a \<ge> bm_DEPTH P then p1 else fold (bm_stage_lane P i) [0..<bm_STRB_WIDTH P] p1)"
        using tr(1) False by (auto simp: bm_try_def Let_def p1_def a_def split: if_splits)
      have ix: "a < bm_DEPTH P \<longleftrightarrow> bval (fs_value (bin_waddr i)) < bm_DEPTH P" "a < bm_DEPTH P \<Longrightarrow> a = bval (fs_value (bin_waddr i))"
        using memory_index_less[OF iw(1), of "bm_DEPTH P"] ok by (auto simp: a_def bm_ok_def)
      have p1: "\<not> bp_lanes p1 k" "bp_address p1 = a" "bp_clock p1" for k by (simp_all add: p1_def bm_discard_def)
      note sl = bm_stage_lanes[where P=P and i=i and n="bm_STRB_WIDTH P" and p=p1]
      have lanes: "bp_lanes p' k \<longleftrightarrow> k < bm_DEPTH P - a \<and> bit (bval (fs_value (bin_wstrb i))) k" for k
        using sl(4)[of k] p1 bits_bit_eq[OF iw(3), of k] bits_wf_bit_less[OF iw(3), of k] by (auto simp: p')
      have addr: "bp_address p' = a" "bp_clock p'" using sl(1,2) p1 by (auto simp: p')
      have bytes: "bp_lanes p' k \<Longrightarrow> bp_bytes p' k = bm_byte (fs_value (bin_wdata i)) k" for k
        using sl(5)[of k] p1 bm_byte_extract[OF iw(2), of k] by (auto simp: p' split: if_splits)
      have "(if n < bm_DEPTH P then bc_memory c' ! n else 0) = bm_write P i (snd (bm_abs P c)) n" for n
      proof (cases "n < bm_DEPTH P")
        case True
        then show ?thesis
          using x(3)[OF True] addr lanes[of "n - a"] bytes[of "n - a"] ix bits_wf_bit_less[OF iw(3), of "n - a"]
          by (cases "a < bm_DEPTH P") (auto simp: bm_write_def Let_def bm_abs_def)
      qed (simp add: bm_write_def bm_abs_def)
      then have "bm_abs P c' = (True, bm_write P i (snd (bm_abs P c)))" using addr by (simp add: bm_abs_def x)
      then show ?thesis using False tr by (auto simp: bm_spec_def bm_abs_def bm_try_def Let_def split: if_splits)
    qed
    then show ?thesis using inv' fields None by (simp add: kernel_step_def c'_def byte_mem_kernel_def)
  qed
qed

subsection \<open>Modules\<close>

record byte_mem =
  bm_clk :: four_state
  bm_rst :: four_state
  bm_raddr :: four_state
  bm_rdata :: four_state
  bm_wvalid :: four_state
  bm_waddr :: four_state
  bm_wdata :: four_state
  bm_wstrb :: four_state
  bm_cur :: bm_current
  bm_pend :: bm_pending

definition byte_mem_pins :: "byte_mem \<Rightarrow> bm_inputs" where
  "byte_mem_pins m = \<lparr>bin_clk = bm_clk m, bin_rst = bm_rst m, bin_raddr = bm_raddr m, bin_wvalid = bm_wvalid m,
     bin_waddr = bm_waddr m, bin_wdata = bm_wdata m, bin_wstrb = bm_wstrb m\<rparr>"

definition byte_mem_Work :: "bm_params \<Rightarrow> byte_mem \<Rightarrow> byte_mem \<times> exn option" where
  "byte_mem_Work P m = (case k_work (byte_mem_kernel P) (bm_cur m) (byte_mem_pins m) (bm_pend m) (bm_rdata m) of
     (p, out, e) \<Rightarrow> (m\<lparr>bm_pend := p, bm_rdata := out\<rparr>, e))"

definition byte_mem_Xfer :: "bm_params \<Rightarrow> byte_mem \<Rightarrow> byte_mem" where
  "byte_mem_Xfer P m = (case k_xfer (byte_mem_kernel P) (bm_cur m) (bm_pend m) (bm_rdata m) of
     (c, p, out) \<Rightarrow> m\<lparr>bm_cur := c, bm_pend := p, bm_rdata := out\<rparr>)"

definition byte_mem_DiscardNext :: "bm_params \<Rightarrow> byte_mem \<Rightarrow> byte_mem" where
  "byte_mem_DiscardNext P m = m\<lparr>bm_pend := k_discard (byte_mem_kernel P) (bm_cur m) (bm_pend m)\<rparr>"

definition byte_mem_Reset :: "bm_params \<Rightarrow> byte_mem \<Rightarrow> byte_mem" where
  "byte_mem_Reset P m = m\<lparr>bm_pend := k_reset (byte_mem_kernel P) (bm_cur m) (byte_mem_pins m) (bm_pend m)\<rparr>"

definition pokeByte :: "bm_params \<Rightarrow> nat \<Rightarrow> u8 \<Rightarrow> byte_mem \<Rightarrow> byte_mem" where
  "pokeByte P address v m =
     (if address < bm_DEPTH P then m\<lparr>bm_cur := (bm_cur m)\<lparr>bc_memory := (bc_memory (bm_cur m))[address := v]\<rparr>\<rparr> else m)"

definition peekByte :: "bm_params \<Rightarrow> nat \<Rightarrow> byte_mem \<Rightarrow> u8" where
  "peekByte P address m = peekByteAt P (bm_cur m) address 0"

definition peek32 :: "bm_params \<Rightarrow> nat \<Rightarrow> byte_mem \<Rightarrow> u32" where
  "peek32 P address m =
     fold (\<lambda>lane v. v OR push_bit (8 * lane) (ucast (peekByteAt P (bm_cur m) address lane))) [0..<4] 0"

lemma peek_poke:
  assumes "bm_inv P (bm_cur m)"
  shows "peekByte P a (pokeByte P b v m) = (if a = b \<and> b < bm_DEPTH P then v else peekByte P a m)"
    "bm_inv P (bm_cur (pokeByte P b v m))"
  using assms by (auto simp: peekByte_def pokeByte_def peekByteAt_def bm_inv_def)

lemma peekByteAt_abs: "peekByteAt P c a lane = snd (bm_abs P c) (a + lane)"
  by (auto simp: peekByteAt_def bm_abs_def)

lemma bit_peek32: "bit (peek32 P a m) j \<longleftrightarrow> j < 32 \<and> bit (peekByte P (a + j div 8) m) (j mod 8)"
proof (cases "j < 32")
  case True
  define b where "b k = peekByteAt P (bm_cur m) a k" for k
  have b: "bit (push_bit (8 * k) (ucast (b k)) :: u32) j \<longleftrightarrow> j div 8 = k \<and> bit (b (j div 8)) (j mod 8)" for k
  proof -
    have "bit (b k) (j - 8 * k) \<Longrightarrow> j - 8 * k < 8" using bit_imp_le_length[of "b k" "j - 8 * k"] by simp
    then have "bit (push_bit (8 * k) (ucast (b k)) :: u32) j \<longleftrightarrow> (8 * k \<le> j \<and> j - 8 * k < 8) \<and> bit (b k) (j - 8 * k)"
      using True by (auto simp: bit_push_bit_iff bit_ucast_iff)
    also have "(8 * k \<le> j \<and> j - 8 * k < 8) \<longleftrightarrow> j div 8 = k" by auto
    finally show ?thesis by (auto simp: modulo_nat_def mult.commute)
  qed
  have four: "[0..<4] = [0, 1, 2, 3::nat]" by (simp add: upt_rec)
  have lt: "j div 8 < 4" using True by (simp add: less_mult_imp_div_less)
  have "bit (peek32 P a m) j \<longleftrightarrow> (\<exists>k\<in>set [0..<4]. bit (push_bit (8 * k) (ucast (b k)) :: u32) j)"
    unfolding peek32_def b_def[symmetric] four fold.simps by (simp add: bit_or_iff)
  then show ?thesis using True lt unfolding b by (auto simp: b_def peekByte_def peekByteAt_abs)
next
  case False
  then show ?thesis using bit_imp_le_length[of "peek32 P a m" j] by auto
qed

subsection \<open>Properties\<close>

text \<open>C9.  A byte-addressed memory refines the abstract byte array: on every input a kernel step throws exactly
  when the abstract memory does, with the same error, and otherwise reaches the abstract successor, where a
  write stores the strobed bytes that fall below the depth, at any alignment.  Whenever the read address is
  known the output is the little-endian word of the stored bytes, zero beyond the depth, even when the step
  then throws.\<close>

theorem byte_mem_refines:
  assumes "bm_ok P" "bm_inv P c" "bm_inputs_ok P i"
  shows "(case kernel_step (byte_mem_kernel P) c p i out out' of
       Inl e \<Rightarrow> bm_spec P (bm_abs P c) i = Inl e
     | Inr c' \<Rightarrow> bm_inv P c' \<and> bm_spec P (bm_abs P c) i = Inr (bm_abs P c')) \<and>
    (fs_isFullyKnown (bm_ADDR_WIDTH P) (bin_raddr i) \<longrightarrow>
      (\<forall>j < bm_DATA_BITS P. fs_at (fst (snd (k_work (byte_mem_kernel P) c i p out))) j =
        (if bit (snd (bm_abs P c) (bval (fs_value (bin_raddr i)) + j div 8)) (j mod 8) then L1 else L0)))"
proof -
  have "fs_isFullyKnown (bm_ADDR_WIDTH P) (bin_raddr i) \<Longrightarrow> fst (snd (k_work (byte_mem_kernel P) c i p out)) = bm_read P c (bin_raddr i)"
    by (simp add: byte_mem_kernel_def bm_work_def split: sum.splits)
  moreover have "fs_wf (bm_ADDR_WIDTH P) (bin_raddr i)" using assms(3) by (simp add: bm_inputs_ok_def)
  ultimately show ?thesis using bm_refine[OF assms] bm_read_bits[OF assms(1)] by simp
qed

theorem byte_mem_refines_witness:
  "fs_at (fst (snd (k_work (byte_mem_kernel \<lparr>bm_DATA_BITS = 16, bm_ADDR_WIDTH = 2, bm_DEPTH = 3\<rparr>)
      \<lparr>bc_memory = [1, 2, 4], bc_clock = False\<rparr>
      \<lparr>bin_clk = fs_unknown 1, bin_rst = fs_bool False, bin_raddr = fs_known 2 [1], bin_wvalid = fs_bool False,
       bin_waddr = fs_unknown 2, bin_wdata = fs_unknown 16, bin_wstrb = fs_unknown 2\<rparr>
      \<lparr>bp_bytes = (\<lambda>_. 0), bp_lanes = (\<lambda>_. False), bp_address = 0, bp_clock = False, bp_valid = False\<rparr> (fs_unknown 16)))) 10 = L1"
  (is "fs_at (fst (snd (k_work (byte_mem_kernel ?P) ?c ?i ?p ?out))) _ = _")
proof -
  have b: "bits_wf 2 [1]" "bval [1] = 1" by (simp_all add: bits_eval bval.simps)
  then have h: "bm_ok ?P" "bm_inv ?P ?c" "bm_inputs_ok ?P ?i" and k: "fs_isFullyKnown (bm_ADDR_WIDTH ?P) (bin_raddr ?i)"
    and v: "bval (fs_value (bin_raddr ?i)) = 1"
    by (simp_all add: bm_ok_def bm_inv_def bm_inputs_ok_def bm_STRB_WIDTH_def)
  have m: "snd (bm_abs ?P ?c) (Suc (Suc 0)) = 4" "bit (4::u8) 2" by (simp_all add: bm_abs_def bit_iff_odd)
  from byte_mem_refines[OF h, of ?p ?out ?out] k
  have "\<forall>j < bm_DATA_BITS ?P. fs_at (fst (snd (k_work (byte_mem_kernel ?P) ?c ?i ?p ?out))) j =
      (if bit (snd (bm_abs ?P ?c) (bval (fs_value (bin_raddr ?i)) + j div 8)) (j mod 8) then L1 else L0)" by blast
  from spec[OF this, of 10] show ?thesis unfolding v using m by simp
qed

end
