(* ===== verification/Gfsim_Observation.thy ===== *)
theory Gfsim_Observation
  imports Gfsim_FourState
begin

text \<open>
  The observation slots of \<^verbatim>\<open>include/gfsim/ObservationSlot.h\<close>: the inventory of events and gauges a
  model registers, the values staged during an evaluation, and the events and gauges committed by the transfer.
  A \<^verbatim>\<open>SlotValue\<close> borrows its words; the model keeps the borrow explicit: a \<open>plane_ref\<close> names the caller's
  words or a range of the owner's pending or committed plane storage, so that overwriting a plane changes what
  a view of it reads.  Unsigned fields that are only compared are natural numbers, epochs are 64-bit words.
  The bound \<^verbatim>\<open>std::vector<std::uint64_t>().max_size()\<close> is the parameter \<open>max_size\<close>.  The loop over
  the groups in \<^verbatim>\<open>checkGroups\<close> advances by the size of a group, so it is a partial function here; it
  is shown to return on every inventory that \<^verbatim>\<open>Configure\<close> accepted.
\<close>

subsection \<open>Values\<close>

datatype SlotValueKind = SlotBool | SlotSigned | SlotUnsigned | SlotBits4

datatype plane_ref = External "u64 list" | PendingPlane nat nat | CommittedPlane nat nat

record SlotValue =
  sv_kind :: SlotValueKind
  sv_bits :: u64
  sv_width :: nat
  sv_value :: plane_ref
  sv_known :: plane_ref
  sv_z :: plane_ref

definition slot_scalar :: "SlotValueKind \<Rightarrow> u64 \<Rightarrow> SlotValue" where
  "slot_scalar kind bits = \<lparr>sv_kind = kind, sv_bits = bits, sv_width = 0, sv_value = External [], sv_known = External [], sv_z = External []\<rparr>"

definition SlotValue_Bool :: "bool \<Rightarrow> SlotValue" where
  "SlotValue_Bool value = slot_scalar SlotBool (if value then 1 else 0)"

definition SlotValue_Signed :: "u64 \<Rightarrow> SlotValue" where
  "SlotValue_Signed value = slot_scalar SlotSigned value"

definition SlotValue_Unsigned :: "u64 \<Rightarrow> SlotValue" where
  "SlotValue_Unsigned value = slot_scalar SlotUnsigned value"

definition SlotValue_Bits4 :: "nat \<Rightarrow> plane_ref \<Rightarrow> plane_ref \<Rightarrow> plane_ref \<Rightarrow> SlotValue" where
  "SlotValue_Bits4 width value known z = \<lparr>sv_kind = SlotBits4, sv_bits = 0, sv_width = width, sv_value = value, sv_known = known, sv_z = z\<rparr>"

datatype ObservationKind = Event | Gauge

record ObservationDescriptor =
  stableOrdinal :: nat
  ownerKey :: nat
  registrationKey :: nat
  siteKey :: nat
  od_kind :: ObservationKind
  groupIndex :: nat
  groupSize :: nat
  payloadWidth :: nat

record ObservationSlot =
  os_pending :: bool
  os_value :: SlotValue
  os_valid :: bool
  os_path :: bool
  os_evaluationEpoch :: u64

definition empty_slot :: ObservationSlot where
  "empty_slot = \<lparr>os_pending = False, os_value = slot_scalar SlotUnsigned 0, os_valid = False, os_path = False, os_evaluationEpoch = 0\<rparr>"

record CommittedEventSlot =
  ce_epoch :: u64
  ce_descriptor :: ObservationDescriptor
  ce_value :: SlotValue

record GaugeSnapshot =
  gs_stableOrdinal :: nat
  gs_value :: SlotValue
  gs_lastUpdate :: u64

record ObservationSlots =
  configured :: bool
  eventCapacity :: nat
  payloadOffsets :: "nat list"
  pendingPlanes :: "u64 list"
  committedPlanes :: "u64 list"
  descriptors :: "ObservationDescriptor list"
  slots :: "ObservationSlot list"
  gaugeIndexBySlot :: "nat option list"
  events :: "CommittedEventSlot list"
  gauges :: "GaugeSnapshot list"

definition new_slots :: ObservationSlots where
  "new_slots = \<lparr>configured = False, eventCapacity = 0, payloadOffsets = [], pendingPlanes = [], committedPlanes = [],
     descriptors = [], slots = [], gaugeIndexBySlot = [], events = [], gauges = []\<rparr>"

text \<open>What a borrowed range reads, given the storage of its owner.\<close>

fun plane_words :: "ObservationSlots \<Rightarrow> plane_ref \<Rightarrow> u64 list" where
  "plane_words obs (External ws) = ws"
| "plane_words obs (PendingPlane off len) = take len (drop off (pendingPlanes obs))"
| "plane_words obs (CommittedPlane off len) = take len (drop off (committedPlanes obs))"

definition payload_words :: "nat \<Rightarrow> nat" where
  "payload_words width = width div 64 + (if width mod 64 \<noteq> 0 then 1 else 0)"

definition canonical_word :: "nat \<Rightarrow> nat \<Rightarrow> u64 list \<Rightarrow> u64 list \<Rightarrow> u64 list \<Rightarrow> nat \<Rightarrow> bool" where
  "canonical_word width words value known z index =
     (let msk = (if index + 1 = words \<and> width mod 64 \<noteq> 0 then push_bit (width mod 64) 1 - 1 else NOT 0)
      in \<not> (known ! index AND z ! index \<noteq> 0 \<or> value ! index AND NOT (known ! index) \<noteq> 0 \<or>
            (value ! index OR known ! index OR z ! index) AND NOT msk \<noteq> 0))"

definition isCanonicalBits4 :: "ObservationSlots \<Rightarrow> SlotValue \<Rightarrow> bool" where
  "isCanonicalBits4 obs v =
     (let words = payload_words (sv_width v);
          value = plane_words obs (sv_value v); known = plane_words obs (sv_known v); z = plane_words obs (sv_z v)
      in if sv_kind v \<noteq> SlotBits4 \<or> sv_width v = 0 \<or> length value \<noteq> words \<or> length known \<noteq> words \<or> length z \<noteq> words then False
         else list_all (canonical_word (sv_width v) words value known z) [0..<words])"

definition slot_value_eq :: "ObservationSlots \<Rightarrow> SlotValue \<Rightarrow> ObservationSlots \<Rightarrow> SlotValue \<Rightarrow> bool" where
  "slot_value_eq obs v obs' w =
     (if sv_kind v \<noteq> sv_kind w \<or> sv_bits v \<noteq> sv_bits w \<or> sv_width v \<noteq> sv_width w then False
      else plane_words obs (sv_value v) = plane_words obs' (sv_value w) \<and>
           plane_words obs (sv_known v) = plane_words obs' (sv_known w) \<and> plane_words obs (sv_z v) = plane_words obs' (sv_z w))"

subsection \<open>Configuration\<close>

definition key :: "ObservationDescriptor \<Rightarrow> nat \<times> nat \<times> nat \<times> nat \<times> nat" where
  "key d = (ownerKey d, registrationKey d, siteKey d, stableOrdinal d, case od_kind d of Event \<Rightarrow> 0 | Gauge \<Rightarrow> 1)"

definition key_less :: "nat \<times> nat \<times> nat \<times> nat \<times> nat \<Rightarrow> nat \<times> nat \<times> nat \<times> nat \<times> nat \<Rightarrow> bool" where
  "key_less = (\<lambda>(a, b, c, d, e) (a', b', c', d', e').
     a < a' \<or> a = a' \<and> (b < b' \<or> b = b' \<and> (c < c' \<or> c = c' \<and> (d < d' \<or> d = d' \<and> e < e'))))"

definition keys_ok :: "ObservationDescriptor list \<Rightarrow> bool" where
  "keys_ok ds = list_all (\<lambda>index.
     (index \<noteq> 0 \<longrightarrow> key_less (key (ds ! (index - 1))) (key (ds ! index))) \<and>
     list_all (\<lambda>previous. stableOrdinal (ds ! previous) \<noteq> stableOrdinal (ds ! index)) [0..<index]) [0..<length ds]"

function groups_ok :: "ObservationDescriptor list \<Rightarrow> nat \<Rightarrow> bool" where
  "groups_ok ds start =
     (if start \<ge> length ds then True
      else let d0 = ds ! start; size = groupSize d0
           in if groupIndex d0 \<noteq> 0 \<or> size = 0 \<or> size > length ds - start \<or> (od_kind d0 = Gauge \<and> size \<noteq> 1) then False
              else if list_ex (\<lambda>member. let d = ds ! (start + member)
                     in groupIndex d \<noteq> member \<or> groupSize d \<noteq> size \<or> ownerKey d \<noteq> ownerKey d0 \<or>
                        registrationKey d \<noteq> registrationKey d0 \<or> siteKey d \<noteq> siteKey d0 \<or> od_kind d \<noteq> od_kind d0) [0..<size] then False
              else groups_ok ds (start + size))"
  by pat_completeness auto
termination by (relation "measure (\<lambda>(ds, start). length ds - start)") (auto simp: Let_def)

declare groups_ok.simps [simp del]

fun payload_total :: "nat \<Rightarrow> nat \<Rightarrow> ObservationDescriptor list \<Rightarrow> nat option" where
  "payload_total capacity acc [] = Some acc"
| "payload_total capacity acc (d # ds) =
     (let words = payload_words (payloadWidth d)
      in if words > capacity div 6 - acc then None else payload_total capacity (acc + words) ds)"

fun payload_offsets :: "nat \<Rightarrow> ObservationDescriptor list \<Rightarrow> nat list" where
  "payload_offsets back [] = [back]"
| "payload_offsets back (d # ds) = back # payload_offsets (back + payload_words (payloadWidth d)) ds"

fun gauge_table :: "nat \<Rightarrow> ObservationDescriptor list \<Rightarrow> nat option list \<times> GaugeSnapshot list" where
  "gauge_table n [] = ([], [])"
| "gauge_table n (d # ds) =
     (if od_kind d = Gauge
      then (case gauge_table (n + 1) ds of (ix, gs) \<Rightarrow>
              (Some n # ix, \<lparr>gs_stableOrdinal = stableOrdinal d, gs_value = SlotValue_Unsigned 0, gs_lastUpdate = 0\<rparr> # gs))
      else (case gauge_table n ds of (ix, gs) \<Rightarrow> (None # ix, gs)))"

definition Configure :: "nat \<Rightarrow> ObservationDescriptor list \<Rightarrow> nat \<Rightarrow> ObservationSlots \<Rightarrow> ObservationSlots \<times> bool" where
  "Configure max_size ds capacity obs =
     (if configured obs \<or> \<not> keys_ok ds \<or> \<not> groups_ok ds 0 then (obs, False)
      else case payload_total (min max_size ((2 ^ 63 - 1) div 8)) 0 ds of
             None \<Rightarrow> (obs, False)
           | Some payloadWords \<Rightarrow>
               (obs\<lparr>payloadOffsets := payloadOffsets obs @ payload_offsets 0 ds,
                    pendingPlanes := take (payloadWords * 3) (pendingPlanes obs) @ replicate (payloadWords * 3 - length (pendingPlanes obs)) 0,
                    committedPlanes := take (payloadWords * 3) (committedPlanes obs) @ replicate (payloadWords * 3 - length (committedPlanes obs)) 0,
                    descriptors := ds,
                    slots := take (length ds) (slots obs) @ replicate (length ds - length (slots obs)) empty_slot,
                    gaugeIndexBySlot := fst (gauge_table (length (gauges obs)) ds),
                    gauges := gauges obs @ snd (gauge_table (length (gauges obs)) ds),
                    eventCapacity := capacity, configured := True\<rparr>, True))"

subsection \<open>Staging\<close>

datatype plane_store = PendingStore | CommittedStore

definition planeView :: "ObservationSlots \<Rightarrow> plane_store \<Rightarrow> nat \<Rightarrow> nat \<Rightarrow> SlotValue" where
  "planeView obs st slot width =
     (let words = payloadOffsets obs ! (slot + 1) - payloadOffsets obs ! slot; start = 3 * payloadOffsets obs ! slot;
          ref = (case st of PendingStore \<Rightarrow> PendingPlane | CommittedStore \<Rightarrow> CommittedPlane)
      in SlotValue_Bits4 width (ref start words) (ref (start + words) words) (ref (start + 2 * words) words))"

definition plane_put :: "plane_store \<Rightarrow> nat \<Rightarrow> u64 \<Rightarrow> ObservationSlots \<Rightarrow> ObservationSlots" where
  "plane_put st k x obs = (case st of
     PendingStore \<Rightarrow> obs\<lparr>pendingPlanes := (pendingPlanes obs)[k := x]\<rparr>
   | CommittedStore \<Rightarrow> obs\<lparr>committedPlanes := (committedPlanes obs)[k := x]\<rparr>)"

definition copy_word :: "plane_store \<Rightarrow> nat \<Rightarrow> nat \<Rightarrow> SlotValue \<Rightarrow> nat \<Rightarrow> ObservationSlots \<Rightarrow> ObservationSlots" where
  "copy_word st offset words v index obs =
     (let obs = plane_put st (offset + index) (plane_words obs (sv_value v) ! index) obs;
          obs = plane_put st (offset + words + index) (plane_words obs (sv_known v) ! index) obs
      in plane_put st (offset + 2 * words + index) (plane_words obs (sv_z v) ! index) obs)"

definition copyBits4 :: "SlotValue \<Rightarrow> plane_store \<Rightarrow> nat \<Rightarrow> ObservationSlots \<Rightarrow> ObservationSlots \<times> SlotValue" where
  "copyBits4 v st slot obs =
     (let words = length (plane_words obs (sv_value v)); offset = 3 * payloadOffsets obs ! slot;
          obs = fold (copy_word st offset words v) [0..<words] obs
      in (obs, planeView obs st slot (sv_width v)))"

definition Stage ::
  "nat \<Rightarrow> SlotValue \<Rightarrow> bool \<Rightarrow> bool \<Rightarrow> u64 \<Rightarrow> ObservationSlots \<Rightarrow> ObservationSlots \<times> bool" where
  "Stage slot v valid path epoch obs =
     (if \<not> configured obs \<or> slot \<ge> length (slots obs) \<or> os_pending (slots obs ! slot) then (obs, False)
      else if sv_kind v = SlotBits4 \<and> (\<not> isCanonicalBits4 obs v \<or> payloadWidth (descriptors obs ! slot) \<noteq> sv_width v)
      then (obs, False)
      else let (obs, v) = (if sv_kind v = SlotBits4 then copyBits4 v PendingStore slot obs else (obs, v))
           in (obs\<lparr>slots := (slots obs)[slot := \<lparr>os_pending = True, os_value = v, os_valid = valid, os_path = path,
                 os_evaluationEpoch = epoch\<rparr>]\<rparr>, True))"

definition packed_word :: "nat \<Rightarrow> nat \<Rightarrow> nat \<Rightarrow> four_state \<Rightarrow> nat \<Rightarrow> ObservationSlots \<Rightarrow> ObservationSlots" where
  "packed_word w offset words f index obs =
     (let known = bits_word w (fs_knownMask f) index;
          obs = plane_put PendingStore (offset + index) (bits_word w (fs_value f) index AND known) obs;
          obs = plane_put PendingStore (offset + words + index) known obs
      in plane_put PendingStore (offset + 2 * words + index) (bits_word w (fs_zMask f) index) obs)"

definition StagePacked ::
  "nat \<Rightarrow> nat \<Rightarrow> four_state \<Rightarrow> bool \<Rightarrow> bool \<Rightarrow> bool \<Rightarrow> u64 \<Rightarrow> ObservationSlots \<Rightarrow> ObservationSlots \<times> bool" where
  "StagePacked w slot f eventBool valid path epoch obs =
     (if \<not> configured obs \<or> slot \<ge> length (slots obs) \<or> os_pending (slots obs ! slot) \<or>
         payloadWidth (descriptors obs ! slot) \<noteq> w
      then (obs, False)
      else if w \<le> 64 \<and> fs_isFullyKnown w f
      then Stage slot (if eventBool then SlotValue_Bool (toBool (fs_value f)) else SlotValue_Unsigned (bits_value (fs_value f)))
             valid path epoch obs
      else let packed = planeView obs PendingStore slot w; words = length (plane_words obs (sv_value packed));
               offset = 3 * payloadOffsets obs ! slot;
               obs = fold (packed_word w offset words f) [0..<words] obs
           in Stage slot packed valid path epoch obs)"

subsection \<open>Checks and transfer\<close>

fun group_values :: "ObservationSlots \<Rightarrow> ObservationDescriptor \<Rightarrow> nat list \<Rightarrow> nat \<Rightarrow> nat option" where
  "group_values obs d [] additions = Some additions"
| "group_values obs d (index # rest) additions =
     (let v = os_value (slots obs ! index)
      in if od_kind d = Gauge then
           if sv_kind v \<noteq> SlotUnsigned \<or> gaugeIndexBySlot obs ! index = None then None else group_values obs d rest additions
         else if sv_kind v \<noteq> SlotBool \<and> sv_kind v \<noteq> SlotSigned \<and> sv_kind v \<noteq> SlotUnsigned \<and>
                 (sv_kind v \<noteq> SlotBits4 \<or> \<not> isCanonicalBits4 obs v) then None
         else if additions = eventCapacity obs then None
         else group_values obs d rest (additions + 1))"

partial_function (option) check_groups :: "ObservationSlots \<Rightarrow> u64 option \<Rightarrow> nat \<Rightarrow> nat \<Rightarrow> bool option" where
  "check_groups obs epoch start additions =
     (if start \<ge> length (slots obs) then Some True
      else let d = descriptors obs ! start; stop = start + groupSize d; ix = [start..<stop]; s0 = slots obs ! start
           in if \<not> list_ex (\<lambda>i. os_pending (slots obs ! i)) ix then check_groups obs epoch stop additions
              else if \<not> list_all (\<lambda>i. os_pending (slots obs ! i)) ix then Some False
              else if list_ex (\<lambda>i. (epoch \<noteq> None \<and> os_evaluationEpoch (slots obs ! i) \<noteq> the epoch) \<or>
                                  os_path (slots obs ! i) \<noteq> os_path s0) ix then Some False
              else if \<not> os_path s0 then check_groups obs epoch stop additions
              else if list_ex (\<lambda>i. os_valid (slots obs ! i) \<noteq> os_valid s0) ix then Some False
              else if \<not> os_valid s0 then check_groups obs epoch stop additions
              else case group_values obs d ix additions of
                     None \<Rightarrow> Some False
                   | Some additions' \<Rightarrow> check_groups obs epoch stop additions')"

definition checkGroups :: "ObservationSlots \<Rightarrow> u64 option \<Rightarrow> bool option" where
  "checkGroups obs epoch = (if \<not> configured obs then Some False else check_groups obs epoch 0 0)"

definition obs_Check :: "ObservationSlots \<Rightarrow> bool option" where
  "obs_Check obs = checkGroups obs None"

definition obs_Precommit :: "u64 \<Rightarrow> ObservationSlots \<Rightarrow> bool option" where
  "obs_Precommit epoch obs = checkGroups obs (Some epoch)"

definition obs_DiscardNext :: "ObservationSlots \<Rightarrow> ObservationSlots" where
  "obs_DiscardNext obs = obs\<lparr>slots := map (\<lambda>_. empty_slot) (slots obs)\<rparr>"

definition xfer_slot :: "u64 \<Rightarrow> nat \<Rightarrow> ObservationSlots \<Rightarrow> ObservationSlots" where
  "xfer_slot epoch index obs =
     (let s = slots obs ! index; d = descriptors obs ! index;
          obs = (if os_pending s \<and> os_valid s \<and> os_path s \<and> os_evaluationEpoch s \<noteq> - 1 \<and> os_evaluationEpoch s + 1 = epoch then
                   if od_kind d = Event then
                     if length (events obs) < eventCapacity obs then
                       let (obs, v) = (if sv_kind (os_value s) = SlotBits4 then copyBits4 (os_value s) CommittedStore index obs
                                       else (obs, os_value s))
                       in obs\<lparr>events := events obs @ [\<lparr>ce_epoch = epoch, ce_descriptor = d, ce_value = v\<rparr>]\<rparr>
                     else obs
                   else case gaugeIndexBySlot obs ! index of
                          Some g \<Rightarrow> obs\<lparr>gauges := (gauges obs)[g := (gauges obs ! g)\<lparr>gs_value := os_value s, gs_lastUpdate := epoch\<rparr>]\<rparr>
                        | None \<Rightarrow> obs
                 else obs)
      in obs\<lparr>slots := (slots obs)[index := empty_slot]\<rparr>)"

definition obs_Xfer :: "u64 \<Rightarrow> ObservationSlots \<Rightarrow> ObservationSlots" where
  "obs_Xfer epoch obs = fold (xfer_slot epoch) [0..<length (slots obs)] (obs\<lparr>events := []\<rparr>)"

definition obs_Reset :: "ObservationSlots \<Rightarrow> ObservationSlots" where
  "obs_Reset obs = (let obs = obs_DiscardNext obs
     in obs\<lparr>events := [], gauges := map (\<lambda>g. g\<lparr>gs_value := SlotValue_Unsigned 0, gs_lastUpdate := 0\<rparr>) (gauges obs)\<rparr>)"

text \<open>Copy assignment rebinds the copied views to the new owner's planes.\<close>

definition rebind_slot :: "ObservationSlots \<Rightarrow> nat \<Rightarrow> ObservationSlot \<Rightarrow> ObservationSlot" where
  "rebind_slot obs index s =
     (if sv_kind (os_value s) = SlotBits4
      then s\<lparr>os_value := planeView obs PendingStore index (sv_width (os_value s))\<rparr> else s)"

fun find_ordinal :: "nat \<Rightarrow> ObservationDescriptor list \<Rightarrow> nat" where
  "find_ordinal ordinal [] = 0"
| "find_ordinal ordinal (d # ds) = (if stableOrdinal d = ordinal then 0 else 1 + find_ordinal ordinal ds)"

definition rebind_event :: "ObservationSlots \<Rightarrow> CommittedEventSlot \<Rightarrow> CommittedEventSlot" where
  "rebind_event obs e =
     (if sv_kind (ce_value e) \<noteq> SlotBits4 then e
      else e\<lparr>ce_value := planeView obs CommittedStore (find_ordinal (stableOrdinal (ce_descriptor e)) (descriptors obs))
               (sv_width (ce_value e))\<rparr>)"

definition obs_assign :: "ObservationSlots \<Rightarrow> ObservationSlots" where
  "obs_assign other = other\<lparr>
     slots := map (\<lambda>(index, s). rebind_slot other index s) (enumerate 0 (slots other)),
     events := map (rebind_event other) (events other)\<rparr>"

subsection \<open>Configured inventories\<close>

definition group_shape :: "ObservationDescriptor list \<Rightarrow> nat \<Rightarrow> bool" where
  "group_shape ds i \<longleftrightarrow> groupIndex (ds ! i) \<le> i \<and> groupIndex (ds ! i) < groupSize (ds ! i) \<and>
     i - groupIndex (ds ! i) + groupSize (ds ! i) \<le> length ds \<and> (od_kind (ds ! i) = Gauge \<longrightarrow> groupSize (ds ! i) = 1) \<and>
     (\<forall>k < groupSize (ds ! i). let d = ds ! (i - groupIndex (ds ! i) + k)
        in groupIndex d = k \<and> groupSize d = groupSize (ds ! i) \<and> od_kind d = od_kind (ds ! i) \<and>
           ownerKey d = ownerKey (ds ! i) \<and> registrationKey d = registrationKey (ds ! i) \<and> siteKey d = siteKey (ds ! i))"

lemma groups_ok_shape: "groups_ok ds start \<Longrightarrow> start \<le> i \<Longrightarrow> i < length ds \<Longrightarrow> group_shape ds i"
proof (induction ds start arbitrary: i rule: groups_ok.induct)
  case (1 ds start)
  define size where "size = groupSize (ds ! start)"
  have start: "start < length ds" using "1.prems" by simp
  have g: "groupIndex (ds ! start) = 0" "0 < size" "size \<le> length ds - start" "od_kind (ds ! start) = Gauge \<Longrightarrow> size = 1"
    and m: "\<And>k. k < size \<Longrightarrow> groupIndex (ds ! (start + k)) = k \<and> groupSize (ds ! (start + k)) = size \<and>
      ownerKey (ds ! (start + k)) = ownerKey (ds ! start) \<and> registrationKey (ds ! (start + k)) = registrationKey (ds ! start) \<and>
      siteKey (ds ! (start + k)) = siteKey (ds ! start) \<and> od_kind (ds ! (start + k)) = od_kind (ds ! start)"
    and rest: "groups_ok ds (start + size)"
    using "1.prems"(1) start by (auto simp: Let_def size_def list_ex_iff not_less split: if_splits)
      (auto simp: Let_def size_def list_ex_iff groups_ok.simps[of ds start] split: if_splits)
  show ?case
  proof (cases "i < start + size")
    case True
    then obtain k where k: "i = start + k" "k < size" using "1.prems"(2) by (metis le_add_diff_inverse nat_add_left_cancel_less)
    then show ?thesis using m[OF k(2)] g m by (auto simp: group_shape_def Let_def)
  next
    case False
    have nb: "\<not> length ds \<le> start" using start by simp
    show ?thesis
      by (rule "1.IH"[OF nb refl refl]) (use g m rest False "1.prems" in \<open>auto simp: size_def list_ex_iff Let_def\<close>)
  qed
qed

lemma keys_ok_ordinals: "keys_ok ds \<Longrightarrow> distinct (map stableOrdinal ds)"
  unfolding keys_ok_def distinct_conv_nth list_all_upt_iff
  by (metis (no_types, lifting) le0 length_map linorder_neqE_nat nth_map)

lemma payload_offsets:
  "length (payload_offsets n ds) = Suc (length ds)" "payload_offsets n ds ! 0 = n"
  "i < length ds \<Longrightarrow> payload_offsets n ds ! Suc i = payload_offsets n ds ! i + payload_words (payloadWidth (ds ! i))"
proof (induction ds arbitrary: n i)
  case (Cons d ds)
  {
    case 3
    then show ?case using Cons(2)[of "n + payload_words (payloadWidth d)"] Cons(3)[of "i - 1"] by (cases i) auto
  }
qed auto

lemma payload_total_last: "payload_total cap n ds = Some t \<Longrightarrow> payload_offsets n ds ! length ds = t"
  by (induction ds arbitrary: n) (auto simp: Let_def split: if_splits)

lemma payload_total_bound: "payload_total cap n ds = Some t \<Longrightarrow> n \<le> cap div 6 \<Longrightarrow> t \<le> cap div 6"
  by (induction ds arbitrary: n) (force simp: Let_def split: if_splits)+

lemma payload_offsets_mono:
  assumes "i \<le> j" "j \<le> length ds"
  shows "payload_offsets n ds ! i \<le> payload_offsets n ds ! j"
  using assms
proof (induction j)
  case (Suc j)
  then show ?case using payload_offsets(3)[of j ds n] by (cases "i = Suc j") auto
qed simp

lemma gauge_table_Cons:
  assumes "gauge_table n (d # ds) = (ix, gs)" "gauge_table (if od_kind d = Gauge then n + 1 else n) ds = (ix1, gs1)"
  shows "ix = (if od_kind d = Gauge then Some n else None) # ix1"
    "gs = (if od_kind d = Gauge then \<lparr>gs_stableOrdinal = stableOrdinal d, gs_value = SlotValue_Unsigned 0, gs_lastUpdate = 0\<rparr> # gs1 else gs1)"
  using assms by (cases "od_kind d = Gauge"; simp)+

lemma gauge_table:
  "gauge_table n ds = (ix, gs) \<Longrightarrow> length ix = length ds \<and> (\<forall>i<length ds. ix ! i \<noteq> None \<longleftrightarrow> od_kind (ds ! i) = Gauge) \<and>
    (\<forall>i g. i < length ds \<longrightarrow> ix ! i = Some g \<longrightarrow> n \<le> g \<and> g < n + length gs) \<and>
    (\<forall>i j g h. i < j \<longrightarrow> j < length ds \<longrightarrow> ix ! i = Some g \<longrightarrow> ix ! j = Some h \<longrightarrow> g < h) \<and>
    list_all (\<lambda>g. gs_value g = SlotValue_Unsigned 0) gs"
proof (induction ds arbitrary: n ix gs)
  case (Cons d ds)
  define m where "m = (if od_kind d = Gauge then n + 1 else n)"
  obtain ix1 gs1 where t: "gauge_table m ds = (ix1, gs1)" by (cases "gauge_table m ds")
  note e = gauge_table_Cons[OF Cons.prems t[unfolded m_def]]
  note IH = Cons.IH[OF t]
  have len: "length ix1 = length ds" and kind: "\<forall>i<length ds. ix1 ! i \<noteq> None \<longleftrightarrow> od_kind (ds ! i) = Gauge"
    and inc: "\<And>i j g h. i < j \<Longrightarrow> j < length ds \<Longrightarrow> ix1 ! i = Some g \<Longrightarrow> ix1 ! j = Some h \<Longrightarrow> g < h"
    and zero: "list_all (\<lambda>g. gs_value g = SlotValue_Unsigned 0) gs1" using IH by blast+
  have low: "i < length ds \<Longrightarrow> ix1 ! i = Some g \<Longrightarrow> n \<le> g \<and> (od_kind d = Gauge \<longrightarrow> n < g) \<and> g < n + length gs" for i g
    using IH e(2) unfolding m_def by (cases "od_kind d = Gauge") fastforce+
  show ?case
  proof (intro conjI allI impI)
    show "length ix = length (d # ds)" by (simp add: e(1) len)
    show "list_all (\<lambda>g. gs_value g = SlotValue_Unsigned 0) gs" using zero by (simp add: e(2))
  next
    fix i assume "i < length (d # ds)"
    then show "ix ! i \<noteq> None \<longleftrightarrow> od_kind ((d # ds) ! i) = Gauge" using kind by (cases i) (auto simp: e(1))
  next
    fix i g assume "i < length (d # ds)" "ix ! i = Some g"
    then show "n \<le> g" "g < n + length gs" using low[of "i - 1" g] by (cases i; auto simp: e split: if_splits)+
  next
    fix i j g h assume "i < j" "j < length (d # ds)" "ix ! i = Some g" "ix ! j = Some h"
    then show "g < h" using inc[of "i - 1" "j - 1" g h] low[of "j - 1" h] by (cases i; cases j) (auto simp: e(1) split: if_splits)
  qed
qed simp

subsection \<open>Planes\<close>

definition store :: "plane_store \<Rightarrow> ObservationSlots \<Rightarrow> u64 list" where
  "store st obs = (case st of PendingStore \<Rightarrow> pendingPlanes obs | CommittedStore \<Rightarrow> committedPlanes obs)"

definition set_store :: "plane_store \<Rightarrow> u64 list \<Rightarrow> ObservationSlots \<Rightarrow> ObservationSlots" where
  "set_store st xs obs = (case st of PendingStore \<Rightarrow> obs\<lparr>pendingPlanes := xs\<rparr> | CommittedStore \<Rightarrow> obs\<lparr>committedPlanes := xs\<rparr>)"

lemma set_store_fields [simp]:
  "configured (set_store st xs obs) = configured obs" "eventCapacity (set_store st xs obs) = eventCapacity obs"
  "payloadOffsets (set_store st xs obs) = payloadOffsets obs" "descriptors (set_store st xs obs) = descriptors obs"
  "slots (set_store st xs obs) = slots obs" "gaugeIndexBySlot (set_store st xs obs) = gaugeIndexBySlot obs"
  "events (set_store st xs obs) = events obs" "gauges (set_store st xs obs) = gauges obs"
  "store st (set_store st xs obs) = xs" "st \<noteq> st' \<Longrightarrow> store st' (set_store st xs obs) = store st' obs"
  "set_store st (store st obs) obs = obs" "set_store st ys (set_store st xs obs) = set_store st ys obs"
  "planeView (set_store st xs obs) = planeView obs"
  by (cases st; cases st'; simp add: store_def set_store_def planeView_def fun_eq_iff)+

lemma plane_put_store: "plane_put st k x obs = set_store st ((store st obs)[k := x]) obs"
  by (cases st) (simp_all add: plane_put_def store_def set_store_def)

lemma plane_words_store:
  "plane_words obs (PendingPlane off len) = take len (drop off (store PendingStore obs))"
  "plane_words obs (CommittedPlane off len) = take len (drop off (store CommittedStore obs))"
  by (simp_all add: store_def)

text \<open>Filling the three planes of a value.\<close>

definition fill3 :: "nat \<Rightarrow> nat \<Rightarrow> u64 list \<Rightarrow> u64 list \<Rightarrow> u64 list \<Rightarrow> nat \<Rightarrow> u64 list \<Rightarrow> u64 list" where
  "fill3 off words as bs cs k xs = xs[off + k := as ! k, off + words + k := bs ! k, off + 2 * words + k := cs ! k]"

lemma fill3_nth:
  assumes "off + 3 * words \<le> length xs" "n \<le> words"
  shows "length (fold (fill3 off words as bs cs) [0..<n] xs) = length xs"
    "j < length xs \<Longrightarrow> fold (fill3 off words as bs cs) [0..<n] xs ! j =
       (if off \<le> j \<and> j < off + n then as ! (j - off)
        else if off + words \<le> j \<and> j < off + words + n then bs ! (j - (off + words))
        else if off + 2 * words \<le> j \<and> j < off + 2 * words + n then cs ! (j - (off + 2 * words)) else xs ! j)"
  using assms
proof (induction n)
  case (Suc n)
  {
    case 1
    then show ?case using Suc.IH(1) by (simp add: fill3_def)
  next
    case 2
    note H = 2
    define ys where "ys = fold (fill3 off words as bs cs) [0..<n] xs"
    have l: "length ys = length xs" using Suc.IH(1) H by (simp add: ys_def)
    have IH: "ys ! j = (if off \<le> j \<and> j < off + n then as ! (j - off)
        else if off + words \<le> j \<and> j < off + words + n then bs ! (j - (off + words))
        else if off + 2 * words \<le> j \<and> j < off + 2 * words + n then cs ! (j - (off + 2 * words)) else xs ! j)"
      using Suc.IH(2) H by (simp add: ys_def)
    have step: "fold (fill3 off words as bs cs) [0..<Suc n] xs ! j =
      (if j = off + 2 * words + n then cs ! n else if j = off + words + n then bs ! n else if j = off + n then as ! n else ys ! j)"
      using H l by (simp add: ys_def[symmetric] fill3_def nth_list_update)
    have n: "n < words" using H by simp
    show ?case unfolding step IH using n by (auto simp: less_Suc_eq)
  }
qed auto

lemma fill3_planes:
  assumes "off + 3 * words \<le> length xs" "length as = words" "length bs = words" "length cs = words"
  defines "ys \<equiv> fold (fill3 off words as bs cs) [0..<words] xs"
  shows "take words (drop off ys) = as" "take words (drop (off + words) ys) = bs" "take words (drop (off + 2 * words) ys) = cs"
    "length ys = length xs" "j < length xs \<Longrightarrow> j < off \<or> off + 3 * words \<le> j \<Longrightarrow> ys ! j = xs ! j"
proof -
  note n = fill3_nth[OF assms(1) le_refl, where as=as and bs=bs and cs=cs, folded ys_def]
  show "length ys = length xs" by (rule n(1))
  show "take words (drop off ys) = as" "take words (drop (off + words) ys) = bs" "take words (drop (off + 2 * words) ys) = cs"
    using assms(1-4) n by (auto intro!: nth_equalityI)
  show "j < length xs \<Longrightarrow> j < off \<or> off + 3 * words \<le> j \<Longrightarrow> ys ! j = xs ! j" using n(2)[of j] by auto
qed

lemma range_cong:
  "length ys = length xs \<Longrightarrow> (\<And>j. off \<le> j \<Longrightarrow> j < off + len \<Longrightarrow> j < length xs \<Longrightarrow> ys ! j = xs ! j) \<Longrightarrow>
   take len (drop off ys) = take len (drop off xs)"
  by (rule nth_equalityI) auto

text \<open>A source whose words do not change while the planes are filled.\<close>

definition stable_source :: "plane_store \<Rightarrow> ObservationSlots \<Rightarrow> SlotValue \<Rightarrow> bool" where
  "stable_source st obs v \<longleftrightarrow> (\<forall>xs ref. ref \<in> {sv_value v, sv_known v, sv_z v} \<longrightarrow> plane_words (set_store st xs obs) ref = plane_words obs ref)"

lemma stable_external: "sv_value v = External a \<Longrightarrow> sv_known v = External b \<Longrightarrow> sv_z v = External c \<Longrightarrow> stable_source st obs v"
  by (auto simp: stable_source_def)

lemma stable_view: "stable_source CommittedStore obs (planeView obs PendingStore i w)"
  by (auto simp: stable_source_def planeView_def Let_def SlotValue_Bits4_def plane_words_store simp del: plane_words.simps)

lemma copy_stable:
  assumes s: "stable_source st obs v"
  shows "fold (copy_word st off words v) ks obs =
    set_store st (fold (fill3 off words (plane_words obs (sv_value v)) (plane_words obs (sv_known v)) (plane_words obs (sv_z v))) ks (store st obs)) obs"
proof -
  have "fold (copy_word st off words v) ks (set_store st xs obs) =
    set_store st (fold (fill3 off words (plane_words obs (sv_value v)) (plane_words obs (sv_known v)) (plane_words obs (sv_z v))) ks xs) obs" for xs
  proof (induction ks arbitrary: xs)
    case (Cons k ks)
    have "copy_word st off words v k (set_store st xs obs) =
      set_store st (fill3 off words (plane_words obs (sv_value v)) (plane_words obs (sv_known v)) (plane_words obs (sv_z v)) k xs) obs"
      using s by (simp add: copy_word_def Let_def plane_put_store fill3_def stable_source_def)
    then show ?case by (simp add: Cons.IH)
  qed simp
  from this[of "store st obs"] show ?thesis by simp
qed

lemma packed_words:
  "fold (packed_word w off words f) ks obs =
    set_store PendingStore (fold (fill3 off words (map (\<lambda>k. bits_word w (fs_value f) k AND bits_word w (fs_knownMask f) k) [0..<words])
      (map (bits_word w (fs_knownMask f)) [0..<words]) (map (bits_word w (fs_zMask f)) [0..<words])) ks (store PendingStore obs)) obs"
  if "set ks \<subseteq> {..<words}"
  using that
proof (induction ks arbitrary: obs)
  case (Cons k ks)
  then have "packed_word w off words f k obs = set_store PendingStore
    (fill3 off words (map (\<lambda>k. bits_word w (fs_value f) k AND bits_word w (fs_knownMask f) k) [0..<words])
      (map (bits_word w (fs_knownMask f)) [0..<words]) (map (bits_word w (fs_zMask f)) [0..<words]) k (store PendingStore obs)) obs"
    by (simp add: packed_word_def Let_def plane_put_store fill3_def)
  then show ?case using Cons by simp
qed simp

text \<open>Copying a value onto its own planes changes nothing.\<close>

lemma copy_self:
  assumes v: "v = planeView obs st slot w" and off: "off = 3 * payloadOffsets obs ! slot"
    and words: "words = payloadOffsets obs ! Suc slot - payloadOffsets obs ! slot"
    and len: "off + 3 * words \<le> length (store st obs)" and ks: "set ks \<subseteq> {..<words}"
  shows "fold (copy_word st off words v) ks obs = obs"
  using ks
proof (induction ks)
  case (Cons k ks)
  have k: "k < words" using Cons.prems by simp
  have "copy_word st off words v k obs = obs"
    using k len unfolding copy_word_def Let_def plane_put_store v planeView_def
    by (cases st) (simp_all add: SlotValue_Bits4_def plane_words_store off words nth_take nth_drop list_update_id algebra_simps del: plane_words.simps)
  then show ?case using Cons by simp
qed simp

subsection \<open>Invariant\<close>

definition inventory_ok :: "ObservationSlots \<Rightarrow> bool" where
  "inventory_ok obs \<longleftrightarrow> configured obs \<and> length (slots obs) = length (descriptors obs) \<and>
     distinct (map stableOrdinal (descriptors obs)) \<and> (\<forall>i < length (descriptors obs). group_shape (descriptors obs) i) \<and>
     payloadOffsets obs = payload_offsets 0 (descriptors obs) \<and>
     length (pendingPlanes obs) = 3 * payloadOffsets obs ! length (descriptors obs) \<and>
     length (committedPlanes obs) = 3 * payloadOffsets obs ! length (descriptors obs) \<and>
     length (gaugeIndexBySlot obs) = length (descriptors obs) \<and>
     (\<forall>i < length (descriptors obs). gaugeIndexBySlot obs ! i \<noteq> None \<longleftrightarrow> od_kind (descriptors obs ! i) = Gauge) \<and>
     (\<forall>i g. i < length (descriptors obs) \<longrightarrow> gaugeIndexBySlot obs ! i = Some g \<longrightarrow> g < length (gauges obs)) \<and>
     (\<forall>i j g. i < j \<longrightarrow> j < length (descriptors obs) \<longrightarrow> gaugeIndexBySlot obs ! i = Some g \<longrightarrow> gaugeIndexBySlot obs ! j \<noteq> Some g)"

text \<open>A staged four-state value is a view of its own slot's pending planes, a committed one of the committed planes.\<close>

definition views_ok :: "ObservationSlots \<Rightarrow> bool" where
  "views_ok obs \<longleftrightarrow>
     (\<forall>i < length (slots obs). sv_kind (os_value (slots obs ! i)) = SlotBits4 \<longrightarrow>
        os_value (slots obs ! i) = planeView obs PendingStore i (payloadWidth (descriptors obs ! i))) \<and>
     (\<forall>e \<in> set (events obs). sv_kind (ce_value e) = SlotBits4 \<longrightarrow>
        (\<exists>i < length (slots obs). ce_descriptor e = descriptors obs ! i \<and>
           ce_value e = planeView obs CommittedStore i (payloadWidth (descriptors obs ! i)))) \<and>
     (\<forall>g \<in> set (gauges obs). sv_kind (gs_value g) \<noteq> SlotBits4)"

definition obs_inv :: "ObservationSlots \<Rightarrow> bool" where
  "obs_inv obs \<longleftrightarrow> inventory_ok obs \<and> views_ok obs \<and> length (events obs) \<le> eventCapacity obs"

lemma gauge_table_facts:
  assumes "gauge_table n ds = (ix, gs)"
  shows "length ix = length ds" "\<forall>i<length ds. ix ! i \<noteq> None \<longleftrightarrow> od_kind (ds ! i) = Gauge"
    "\<forall>i g. i < length ds \<longrightarrow> ix ! i = Some g \<longrightarrow> n \<le> g \<and> g < n + length gs"
    "\<forall>i j g h. i < j \<longrightarrow> j < length ds \<longrightarrow> ix ! i = Some g \<longrightarrow> ix ! j = Some h \<longrightarrow> g < h"
    "list_all (\<lambda>g. gs_value g = SlotValue_Unsigned 0) gs"
  using gauge_table[OF assms] by blast+

lemma gauge_table_fst_snd: "gauge_table n ds = (fst (gauge_table n ds), snd (gauge_table n ds))" by simp

lemma Configure_inv:
  assumes "Configure max_size ds cap new_slots = (obs, True)"
  shows "obs_inv obs" "descriptors obs = ds" "eventCapacity obs = cap" "slots obs = replicate (length ds) empty_slot"
    "length (pendingPlanes obs) + length (committedPlanes obs) \<le> min max_size ((2 ^ 63 - 1) div 8)"
proof -
  obtain t where t: "payload_total (min max_size ((2 ^ 63 - 1) div 8)) 0 ds = Some t" and ok: "keys_ok ds" "groups_ok ds 0"
    and obs: "obs = \<lparr>configured = True, eventCapacity = cap, payloadOffsets = payload_offsets 0 ds,
       pendingPlanes = replicate (t * 3) 0, committedPlanes = replicate (t * 3) 0, descriptors = ds,
       slots = replicate (length ds) empty_slot, gaugeIndexBySlot = fst (gauge_table 0 ds), events = [], gauges = snd (gauge_table 0 ds)\<rparr>"
    using assms by (auto simp: Configure_def new_slots_def split: if_splits option.splits)
  note g = gauge_table_facts[OF gauge_table_fst_snd[of 0 ds]]
  have glen: "length (fst (gauge_table 0 ds)) = length ds"
    and kind: "\<forall>i<length ds. fst (gauge_table 0 ds) ! i \<noteq> None \<longleftrightarrow> od_kind (ds ! i) = Gauge"
    and rng: "\<And>i g. i < length ds \<Longrightarrow> fst (gauge_table 0 ds) ! i = Some g \<Longrightarrow> g < length (snd (gauge_table 0 ds))"
    and inc: "\<And>i j g h. i < j \<Longrightarrow> j < length ds \<Longrightarrow> fst (gauge_table 0 ds) ! i = Some g \<Longrightarrow> fst (gauge_table 0 ds) ! j = Some h \<Longrightarrow> g < h"
    and zero: "list_all (\<lambda>g. gs_value g = SlotValue_Unsigned 0) (snd (gauge_table 0 ds))"
    by (rule g(1), rule g(2), use g(3) in simp, use g(4) in blast, rule g(5))
  have sh: "\<And>i. i < length ds \<Longrightarrow> group_shape ds i" using groups_ok_shape[OF ok(2)] by simp
  have inj: "i < j \<Longrightarrow> j < length ds \<Longrightarrow> fst (gauge_table 0 ds) ! i = Some x \<Longrightarrow> fst (gauge_table 0 ds) ! j \<noteq> Some x" for i j x
    using inc[of i j x x] by blast
  have "inventory_ok obs"
    unfolding inventory_ok_def obs using sh inj glen kind rng keys_ok_ordinals[OF ok(1)] payload_total_last[OF t] by simp
  moreover have "views_ok obs"
    unfolding views_ok_def obs using zero by (auto simp: empty_slot_def slot_scalar_def SlotValue_Unsigned_def list_all_iff)
  ultimately show "obs_inv obs" by (simp add: obs_inv_def obs)
  show "descriptors obs = ds" "eventCapacity obs = cap" "slots obs = replicate (length ds) empty_slot" by (simp_all add: obs)
  show "length (pendingPlanes obs) + length (committedPlanes obs) \<le> min max_size ((2 ^ 63 - 1) div 8)"
    using payload_total_bound[OF t] less_eq_div_iff_mult_less_eq[of 6 t "min max_size ((2 ^ 63 - 1) div 8)"]
    unfolding obs by (simp del: min_less_iff_conj min.bounded_iff)
qed

lemma inventory_offsets:
  assumes "inventory_ok obs" "i < length (slots obs)"
  defines "off \<equiv> payloadOffsets obs ! i"
  shows "payloadOffsets obs ! Suc i = off + payload_words (payloadWidth (descriptors obs ! i))"
    "3 * off + 3 * payload_words (payloadWidth (descriptors obs ! i)) \<le> length (store st obs)"
    "i < j \<Longrightarrow> j < length (slots obs) \<Longrightarrow> off + payload_words (payloadWidth (descriptors obs ! i)) \<le> payloadOffsets obs ! j"
proof -
  have o: "payloadOffsets obs = payload_offsets 0 (descriptors obs)" and n: "length (slots obs) = length (descriptors obs)"
    using assms(1) by (simp_all add: inventory_ok_def)
  show s: "payloadOffsets obs ! Suc i = off + payload_words (payloadWidth (descriptors obs ! i))"
    unfolding off_def o using payload_offsets(3) assms(2) n by simp
  have l: "length (store st obs) = 3 * payloadOffsets obs ! length (descriptors obs)"
    using assms(1) by (cases st) (auto simp: store_def inventory_ok_def)
  show "3 * off + 3 * payload_words (payloadWidth (descriptors obs ! i)) \<le> length (store st obs)"
    using s payload_offsets_mono[of "Suc i" "length (descriptors obs)" "descriptors obs" 0] assms(2) n o unfolding l by simp
  show "i < j \<Longrightarrow> j < length (slots obs) \<Longrightarrow> off + payload_words (payloadWidth (descriptors obs ! i)) \<le> payloadOffsets obs ! j"
    using s payload_offsets_mono[of "Suc i" j "descriptors obs" 0] n o by simp
qed

subsection \<open>Contents\<close>

text \<open>What a value says, apart from where its words live.\<close>

type_synonym slot_content = "SlotValueKind \<times> u64 \<times> nat \<times> (u64 list \<times> u64 list \<times> u64 list) option"

definition content :: "ObservationSlots \<Rightarrow> SlotValue \<Rightarrow> slot_content" where
  "content obs v = (sv_kind v, sv_bits v, sv_width v,
     if sv_kind v = SlotBits4 then Some (plane_words obs (sv_value v), plane_words obs (sv_known v), plane_words obs (sv_z v)) else None)"

definition canonical_content :: "slot_content \<Rightarrow> bool" where
  "canonical_content = (\<lambda>(kind, bits, width, planes). case planes of
     None \<Rightarrow> False
   | Some (value, known, z) \<Rightarrow>
       width \<noteq> 0 \<and> length value = payload_words width \<and> length known = payload_words width \<and> length z = payload_words width \<and>
       list_all (canonical_word width (payload_words width) value known z) [0..<payload_words width])"

lemma isCanonicalBits4_content: "isCanonicalBits4 obs v \<longleftrightarrow> canonical_content (content obs v)"
  by (auto simp: isCanonicalBits4_def canonical_content_def content_def Let_def)

text \<open>The planes of one slot, as words of its region.\<close>

definition region :: "plane_store \<Rightarrow> ObservationSlots \<Rightarrow> nat \<Rightarrow> u64 list \<times> u64 list \<times> u64 list" where
  "region st obs i = (let w = payload_words (payloadWidth (descriptors obs ! i)); off = 3 * payloadOffsets obs ! i; xs = store st obs
     in (take w (drop off xs), take w (drop (off + w) xs), take w (drop (off + 2 * w) xs)))"

lemma content_view:
  assumes "inventory_ok obs" "i < length (slots obs)"
  shows "content obs (planeView obs st i w) = (SlotBits4, 0, w, Some (region st obs i))"
  using inventory_offsets(1)[OF assms]
  by (cases st) (simp_all add: content_def planeView_def Let_def SlotValue_Bits4_def plane_words_store region_def del: plane_words.simps)

lemma content_scalar: "sv_kind v \<noteq> SlotBits4 \<Longrightarrow> content obs v = (sv_kind v, sv_bits v, sv_width v, None)"
  by (simp add: content_def)

lemma inventory_set_store: "inventory_ok obs \<Longrightarrow> length xs = length (store st obs) \<Longrightarrow> inventory_ok (set_store st xs obs)"
  by (cases st) (auto simp: inventory_ok_def store_def set_store_def)

lemma views_set_store: "views_ok (set_store st xs obs) = views_ok obs"
  by (simp add: views_ok_def)

text \<open>Filling one slot's planes: its region holds the new words, every other region and the other store are unchanged.\<close>

lemma fill_region:
  fixes as bs cs :: "u64 list" and st :: plane_store
  assumes inv: "inventory_ok obs" and i: "i < length (slots obs)"
    and w: "w = payload_words (payloadWidth (descriptors obs ! i))" and len: "length as = w" "length bs = w" "length cs = w"
  defines "obs' \<equiv> set_store st (fold (fill3 (3 * payloadOffsets obs ! i) w as bs cs) [0..<w] (store st obs)) obs"
  shows "inventory_ok obs'" "region st obs' i = (as, bs, cs)"
    "j < length (slots obs) \<Longrightarrow> st' \<noteq> st \<or> j \<noteq> i \<Longrightarrow> region st' obs' j = region st' obs j"
proof -
  define off where "off = 3 * payloadOffsets obs ! i"
  note o = inventory_offsets[OF inv i]
  have le: "off + 3 * w \<le> length (store st obs)" using o(2)[of st] by (simp add: off_def w)
  note f = fill3_planes[OF le len]
  define ys where "ys = fold (fill3 off w as bs cs) [0..<w] (store st obs)"
  have obs': "obs' = set_store st ys obs" by (simp add: obs'_def ys_def off_def)
  show "inventory_ok obs'" unfolding obs' by (rule inventory_set_store[OF inv]) (simp add: ys_def f)
  show "region st obs' i = (as, bs, cs)"
    using f by (simp add: region_def Let_def obs' ys_def off_def[symmetric] w[symmetric])
  show "region st' obs' j = region st' obs j" if j: "j < length (slots obs)" and ne: "st' \<noteq> st \<or> j \<noteq> i"
  proof (cases "st' = st")
    case True
    define v where "v = payload_words (payloadWidth (descriptors obs ! j))"
    have dis: "3 * payloadOffsets obs ! j + 3 * v \<le> off \<or> off + 3 * w \<le> 3 * payloadOffsets obs ! j"
      using inventory_offsets(3)[OF inv i, of j] inventory_offsets(3)[OF inv j, of i] ne True i j
      by (cases "i < j") (auto simp: off_def w v_def)
    have "take v (drop o' ys) = take v (drop o' (store st obs))" if "3 * payloadOffsets obs ! j \<le> o'" "o' + v \<le> 3 * payloadOffsets obs ! j + 3 * v" for o'
      by (rule range_cong) (use f(4,5)[folded ys_def] dis that in auto)
    then show ?thesis unfolding True by (simp add: region_def Let_def obs' v_def[symmetric])
  qed (auto simp: region_def Let_def obs')
qed

definition slot_view :: "ObservationSlots \<Rightarrow> nat \<Rightarrow> bool \<times> bool \<times> bool \<times> u64 \<times> slot_content" where
  "slot_view obs i = (let s = slots obs ! i in (os_pending s, os_valid s, os_path s, os_evaluationEpoch s, content obs (os_value s)))"

definition events_view :: "ObservationSlots \<Rightarrow> (u64 \<times> ObservationDescriptor \<times> slot_content) list" where
  "events_view obs = map (\<lambda>e. (ce_epoch e, ce_descriptor e, content obs (ce_value e))) (events obs)"

definition gauges_view :: "ObservationSlots \<Rightarrow> (nat \<times> slot_content \<times> u64) list" where
  "gauges_view obs = map (\<lambda>g. (gs_stableOrdinal g, content obs (gs_value g), gs_lastUpdate g)) (gauges obs)"

lemma content_cases:
  assumes "inventory_ok obs" "i < length (slots obs)" "sv_kind v = SlotBits4 \<Longrightarrow> v = planeView obs st i w"
  shows "content obs v = (if sv_kind v = SlotBits4 then (SlotBits4, 0, w, Some (region st obs i)) else (sv_kind v, sv_bits v, sv_width v, None))"
  using content_view[OF assms(1,2), of st w] assms(3) content_scalar[of v obs] by auto

text \<open>States that differ in one slot's planes only.\<close>

lemma views_same:
  assumes inv: "obs_inv obs" and inv': "inventory_ok obs'"
    and same: "slots obs' = slots obs" "descriptors obs' = descriptors obs" "payloadOffsets obs' = payloadOffsets obs"
      "events obs' = events obs" "gauges obs' = gauges obs"
    and reg: "\<And>j. j < length (slots obs) \<Longrightarrow> region CommittedStore obs' j = region CommittedStore obs j"
  shows "events_view obs' = events_view obs" "gauges_view obs' = gauges_view obs"
    "j < length (slots obs) \<Longrightarrow> region PendingStore obs' j = region PendingStore obs j \<Longrightarrow> slot_view obs' j = slot_view obs j"
proof -
  have pv: "planeView obs' = planeView obs" by (simp add: planeView_def fun_eq_iff same)
  have vo: "views_ok obs" and io: "inventory_ok obs" using inv by (simp_all add: obs_inv_def)
  have c: "content obs' v = content obs v"
    if "j < length (slots obs)" "sv_kind v = SlotBits4 \<Longrightarrow> v = planeView obs st j w" "region st obs' j = region st obs j" for v j st w
    using content_cases[OF io that(1,2)] content_cases[OF inv', of j v st w] that pv same(1) by simp
  show "events_view obs' = events_view obs"
    unfolding events_view_def same
  proof (rule map_cong[OF refl])
    fix e assume e: "e \<in> set (events obs)"
    show "(ce_epoch e, ce_descriptor e, content obs' (ce_value e)) = (ce_epoch e, ce_descriptor e, content obs (ce_value e))"
    proof (cases "sv_kind (ce_value e) = SlotBits4")
      case True
      then obtain i where "i < length (slots obs)" "ce_value e = planeView obs CommittedStore i (payloadWidth (descriptors obs ! i))"
        using vo e by (auto simp: views_ok_def)
      then show ?thesis using c[of i "ce_value e" CommittedStore] reg by simp
    qed (simp add: content_scalar)
  qed
  show "gauges_view obs' = gauges_view obs"
    using vo by (auto simp: gauges_view_def same views_ok_def content_scalar intro!: map_cong)
  show "slot_view obs' j = slot_view obs j" if j: "j < length (slots obs)" and r: "region PendingStore obs' j = region PendingStore obs j"
    using c[OF j _ r, of "os_value (slots obs ! j)" "payloadWidth (descriptors obs ! j)"] vo j
    by (auto simp: slot_view_def same views_ok_def Let_def)
qed

text \<open>Putting a value into a slot.\<close>

definition put_slot :: "nat \<Rightarrow> ObservationSlot \<Rightarrow> ObservationSlots \<Rightarrow> ObservationSlots" where
  "put_slot i s obs = obs\<lparr>slots := (slots obs)[i := s]\<rparr>"

lemma put_slot_fields [simp]:
  "configured (put_slot i s obs) = configured obs" "eventCapacity (put_slot i s obs) = eventCapacity obs"
  "payloadOffsets (put_slot i s obs) = payloadOffsets obs" "descriptors (put_slot i s obs) = descriptors obs"
  "slots (put_slot i s obs) = (slots obs)[i := s]" "gaugeIndexBySlot (put_slot i s obs) = gaugeIndexBySlot obs"
  "events (put_slot i s obs) = events obs" "gauges (put_slot i s obs) = gauges obs" "store st (put_slot i s obs) = store st obs"
  "planeView (put_slot i s obs) = planeView obs" "plane_words (put_slot i s obs) = plane_words obs" "region st (put_slot i s obs) = region st obs"
  "content (put_slot i s obs) = content obs"
proof -
  show w: "plane_words (put_slot i s obs) = plane_words obs"
  proof
    show "plane_words (put_slot i s obs) r = plane_words obs r" for r by (cases r) (simp_all add: put_slot_def)
  qed
  show "content (put_slot i s obs) = content obs" by (simp add: content_def fun_eq_iff w)
  show "store st (put_slot i s obs) = store st obs" by (cases st) (simp_all add: put_slot_def store_def)
  then show "region st (put_slot i s obs) = region st obs" by (simp add: region_def fun_eq_iff) (simp add: put_slot_def)
qed (simp_all add: put_slot_def planeView_def fun_eq_iff)

lemma inventory_put_slot: "inventory_ok (put_slot i s obs) = inventory_ok obs"
  by (simp add: inventory_ok_def) (simp add: put_slot_def)

lemma put_slot_inv:
  assumes "obs_inv obs" "i < length (slots obs)"
    and "sv_kind (os_value s) = SlotBits4 \<Longrightarrow> os_value s = planeView obs PendingStore i (payloadWidth (descriptors obs ! i))"
  shows "obs_inv (put_slot i s obs)"
  using assms by (auto simp: obs_inv_def inventory_put_slot views_ok_def nth_list_update)

lemma put_slot_views:
  assumes "i < length (slots obs)"
  shows "events_view (put_slot i s obs) = events_view obs" "gauges_view (put_slot i s obs) = gauges_view obs"
    "slot_view (put_slot i s obs) j = (if j = i then (os_pending s, os_valid s, os_path s, os_evaluationEpoch s, content obs (os_value s)) else slot_view obs j)"
  using assms by (simp_all add: events_view_def gauges_view_def slot_view_def Let_def nth_list_update)

definition staged :: "nat \<Rightarrow> slot_content \<Rightarrow> bool \<Rightarrow> bool \<Rightarrow> u64 \<Rightarrow> ObservationSlots \<Rightarrow> ObservationSlots \<Rightarrow> bool" where
  "staged slot c valid path epoch obs obs' \<longleftrightarrow> obs_inv obs' \<and> descriptors obs' = descriptors obs \<and> eventCapacity obs' = eventCapacity obs \<and>
     events_view obs' = events_view obs \<and> gauges_view obs' = gauges_view obs \<and>
     (\<forall>j < length (slots obs). slot_view obs' j = (if j = slot then (True, valid, path, epoch, c) else slot_view obs j))"

lemma Stage_scalar:
  assumes "obs_inv obs" "slot < length (slots obs)" "\<not> os_pending (slots obs ! slot)" "sv_kind v \<noteq> SlotBits4"
  shows "\<exists>obs'. Stage slot v valid path epoch obs = (obs', True) \<and> staged slot (content obs v) valid path epoch obs obs'"
proof -
  define s where "s = \<lparr>os_pending = True, os_value = v, os_valid = valid, os_path = path, os_evaluationEpoch = epoch\<rparr>"
  have "Stage slot v valid path epoch obs = (put_slot slot s obs, True)"
    using assms by (auto simp: Stage_def obs_inv_def inventory_ok_def put_slot_def s_def)
  moreover have "staged slot (content obs v) valid path epoch obs (put_slot slot s obs)"
    using put_slot_inv[OF assms(1,2), of s] put_slot_views[OF assms(2), of s] assms(4) by (simp add: staged_def s_def)
  ultimately show ?thesis by blast
qed

lemma fill_staged:
  fixes as bs cs :: "u64 list"
  assumes inv: "obs_inv obs" and i: "slot < length (slots obs)" and w: "w = payload_words (payloadWidth (descriptors obs ! slot))"
    and len: "length as = w" "length bs = w" "length cs = w" and width: "width = payloadWidth (descriptors obs ! slot)"
  defines "obs1 \<equiv> set_store PendingStore (fold (fill3 (3 * payloadOffsets obs ! slot) w as bs cs) [0..<w] (store PendingStore obs)) obs"
  shows "staged slot (SlotBits4, 0, width, Some (as, bs, cs)) valid path epoch obs
     (put_slot slot \<lparr>os_pending = True, os_value = planeView obs PendingStore slot width, os_valid = valid, os_path = path,
        os_evaluationEpoch = epoch\<rparr> obs1)"
    "obs_inv obs1" "content obs1 (planeView obs PendingStore slot width) = (SlotBits4, 0, width, Some (as, bs, cs))"
proof -
  have io: "inventory_ok obs" "views_ok obs" using inv by (simp_all add: obs_inv_def)
  note f = fill_region[OF io(1) i w len, where st=PendingStore, folded obs1_def]
  have b: "slots obs1 = slots obs" "descriptors obs1 = descriptors obs" "payloadOffsets obs1 = payloadOffsets obs"
    "events obs1 = events obs" "gauges obs1 = gauges obs" "eventCapacity obs1 = eventCapacity obs" "planeView obs1 = planeView obs"
    by (simp_all add: obs1_def)
  show inv1: "obs_inv obs1" using inv f(1) io(2) by (simp add: obs_inv_def obs1_def views_set_store)
  note v = views_same[OF inv f(1) b(1-5) f(3)]
  show c: "content obs1 (planeView obs PendingStore slot width) = (SlotBits4, 0, width, Some (as, bs, cs))"
    using content_view[OF f(1), of slot PendingStore width] i f(2) b by simp
  show "staged slot (SlotBits4, 0, width, Some (as, bs, cs)) valid path epoch obs
     (put_slot slot \<lparr>os_pending = True, os_value = planeView obs PendingStore slot width, os_valid = valid, os_path = path,
        os_evaluationEpoch = epoch\<rparr> obs1)"
    unfolding staged_def
    using put_slot_inv[OF inv1, of slot] put_slot_views[of slot obs1] i c v f(3)[of _ PendingStore] b width by auto
qed

lemma canonical_lengths:
  assumes "canonical_content (SlotBits4, b, width, Some (as, bs, cs))"
  shows "length as = payload_words width" "length bs = payload_words width" "length cs = payload_words width"
  using assms by (auto simp: canonical_content_def)

lemma Stage_bits4:
  assumes inv: "obs_inv obs" and i: "slot < length (slots obs)" and p: "\<not> os_pending (slots obs ! slot)"
    and k: "sv_kind v = SlotBits4" "sv_bits v = 0" "sv_width v = payloadWidth (descriptors obs ! slot)"
    and can: "isCanonicalBits4 obs v" and st: "stable_source PendingStore obs v"
  shows "\<exists>obs'. Stage slot v valid path epoch obs = (obs', True) \<and> staged slot (content obs v) valid path epoch obs obs'"
proof -
  define as bs cs where "as = plane_words obs (sv_value v)" and "bs = plane_words obs (sv_known v)" and "cs = plane_words obs (sv_z v)"
  define w where "w = payload_words (payloadWidth (descriptors obs ! slot))"
  have c: "content obs v = (SlotBits4, 0, sv_width v, Some (as, bs, cs))" by (simp add: content_def k as_def bs_def cs_def)
  have len: "length as = w" "length bs = w" "length cs = w"
    using canonical_lengths[of 0 "sv_width v" as bs cs] can c k(3) by (simp_all add: isCanonicalBits4_content w_def)
  have conf: "configured obs" using inv by (simp add: obs_inv_def inventory_ok_def)
  have "Stage slot v valid path epoch obs = (put_slot slot \<lparr>os_pending = True, os_value = planeView obs PendingStore slot (sv_width v),
      os_valid = valid, os_path = path, os_evaluationEpoch = epoch\<rparr>
      (set_store PendingStore (fold (fill3 (3 * payloadOffsets obs ! slot) w as bs cs) [0..<w] (store PendingStore obs)) obs), True)"
    using conf i p k can by (simp add: Stage_def copyBits4_def Let_def copy_stable[OF st] as_def[symmetric] bs_def[symmetric] cs_def[symmetric] len put_slot_def)
  then show ?thesis using fill_staged(1)[OF inv i w_def len k(3)] c by simp
qed

lemma payload_words_kWords: "0 < w \<Longrightarrow> payload_words w = kWords w"
proof -
  assume "0 < w"
  then obtain n where "w = Suc n" by (cases w) auto
  then show ?thesis by (auto simp: payload_words_def kWords_def div_Suc mod_Suc split: if_splits)
qed

definition packed_content :: "nat \<Rightarrow> four_state \<Rightarrow> slot_content" where
  "packed_content w f = (SlotBits4, 0, w, Some (map (\<lambda>k. bits_word w (fs_value f) k AND bits_word w (fs_knownMask f) k) [0..<kWords w],
     map (bits_word w (fs_knownMask f)) [0..<kWords w], map (bits_word w (fs_zMask f)) [0..<kWords w]))"

lemma top_word:
  assumes "bits_wf w a" "k < kWords w"
  shows "bits_word w a k AND NOT (if k + 1 = kWords w \<and> w mod 64 \<noteq> 0 then push_bit (w mod 64) 1 - 1 else NOT 0) = 0"
proof (rule bit_eqI)
  fix j assume "possible_bit TYPE(64 word) j"
  then have j: "j < 64" by simp
  have "bit (a ! k) j \<Longrightarrow> 64 * k + j < w"
    using bits_wf_bit_less[OF assms(1), of "64 * k + j"] bits_wf_length[OF assms(1)] assms(2) j by (simp add: bit_bval)
  then have b: "bit (bits_word w a k) j \<Longrightarrow> 64 * k + j < w" using assms(2) by (simp add: bits_word_def)
  obtain n where n: "w = Suc n" using bits_wf_pos[OF assms(1)] by (cases w) auto
  have "k + 1 = kWords w \<Longrightarrow> w mod 64 \<noteq> 0 \<Longrightarrow> w div 64 = k" by (simp add: kWords_def n div_Suc)
  then have "64 * k + j < w \<Longrightarrow> k + 1 = kWords w \<Longrightarrow> w mod 64 \<noteq> 0 \<Longrightarrow> j < w mod 64"
    using mult_div_mod_eq[of 64 w] by linarith
  then show "bit (bits_word w a k AND NOT (if k + 1 = kWords w \<and> w mod 64 \<noteq> 0 then push_bit (w mod 64) 1 - 1 else NOT 0)) j = bit (0::u64) j"
    using b j by (auto simp: bit_and_iff bit_not_iff mask_eq_exp_minus_1[symmetric] bit_mask_iff push_bit_eq_mult)
qed

lemma packed_canonical:
  assumes f: "fs_wf w f"
  shows "canonical_content (packed_content w f)"
proof -
  note wf = fs_wfD[OF f]
  have "canonical_word w (kWords w) (map (\<lambda>k. bits_word w (fs_value f) k AND bits_word w (fs_knownMask f) k) [0..<kWords w])
     (map (bits_word w (fs_knownMask f)) [0..<kWords w]) (map (bits_word w (fs_zMask f)) [0..<kWords w]) k" if k: "k < kWords w" for k
  proof -
    have "bits_word w (fs_knownMask f) k AND bits_word w (fs_zMask f) k = 0"
    proof (rule bit_eqI)
      fix j assume "possible_bit TYPE(64 word) j"
      then have "j < 64" by simp
      then show "bit (bits_word w (fs_knownMask f) k AND bits_word w (fs_zMask f) k) j = bit (0::u64) j"
        using wf(5)[of "64 * k + j"] k bits_wf_length[OF wf(2)] bits_wf_length[OF wf(3)] by (simp add: bit_and_iff bits_word_def bit_bval)
    qed
    moreover have "(bits_word w (fs_value f) k AND bits_word w (fs_knownMask f) k) AND NOT (bits_word w (fs_knownMask f) k) = 0"
      by (rule bit_eqI) (simp add: bit_and_iff bit_not_iff)
    moreover have "((bits_word w (fs_value f) k AND bits_word w (fs_knownMask f) k) OR bits_word w (fs_knownMask f) k OR bits_word w (fs_zMask f) k)
       AND NOT (if k + 1 = kWords w \<and> w mod 64 \<noteq> 0 then push_bit (w mod 64) 1 - 1 else NOT 0) = 0"
      using top_word[OF wf(2) k] top_word[OF wf(3) k]
      by (simp only: bit_eq_iff bit_and_iff bit_or_iff bit_0_eq bot_apply) blast
    ultimately show ?thesis using k by (simp add: canonical_word_def Let_def)
  qed
  then show ?thesis using wf(4)
    by (simp add: canonical_content_def packed_content_def payload_words_kWords list_all_upt_iff)
qed

lemma StagePacked_planes:
  assumes inv: "obs_inv obs" and i: "slot < length (slots obs)" and p: "\<not> os_pending (slots obs ! slot)"
    and w: "w = payloadWidth (descriptors obs ! slot)" and f: "fs_wf w f" and n: "\<not> (w \<le> 64 \<and> fs_isFullyKnown w f)"
  shows "\<exists>obs'. StagePacked w slot f eb valid path epoch obs = (obs', True) \<and> staged slot (packed_content w f) valid path epoch obs obs'"
proof -
  define words where "words = kWords w"
  have pw: "words = payload_words (payloadWidth (descriptors obs ! slot))"
    using payload_words_kWords[OF fs_wfD(4)[OF f]] by (simp add: words_def w)
  define as bs cs where "as = map (\<lambda>k. bits_word w (fs_value f) k AND bits_word w (fs_knownMask f) k) [0..<words]"
    and "bs = map (bits_word w (fs_knownMask f)) [0..<words]" and "cs = map (bits_word w (fs_zMask f)) [0..<words]"
  have len: "length as = words" "length bs = words" "length cs = words" by (simp_all add: as_def bs_def cs_def)
  define obs1 where "obs1 = set_store PendingStore (fold (fill3 (3 * payloadOffsets obs ! slot) words as bs cs) [0..<words] (store PendingStore obs)) obs"
  note fs = fill_staged[OF inv i pw len w, folded obs1_def]
  have io: "inventory_ok obs" "inventory_ok obs1" using inv fs(2) by (simp_all add: obs_inv_def)
  have b: "slots obs1 = slots obs" "descriptors obs1 = descriptors obs" "payloadOffsets obs1 = payloadOffsets obs"
    "planeView obs1 = planeView obs" "configured obs1" using io(2) by (simp_all add: obs1_def inventory_ok_def)
  define v where "v = planeView obs PendingStore slot w"
  have c: "content obs1 v = packed_content w f" using fs(3) by (simp add: v_def packed_content_def as_def bs_def cs_def words_def)
  have k: "sv_kind v = SlotBits4" "sv_width v = w" by (simp_all add: v_def planeView_def Let_def SlotValue_Bits4_def)
  have off: "payloadOffsets obs ! Suc slot - payloadOffsets obs ! slot = words" using inventory_offsets(1)[OF io(1) i] pw by simp
  have l1: "length (plane_words obs1 (sv_value v)) = words" using c len by (simp add: content_def packed_content_def k words_def)
  have l0: "length (plane_words obs (sv_value v)) = words"
    using inventory_offsets(2)[OF io(1) i, of PendingStore] pw
    by (simp add: v_def planeView_def Let_def SlotValue_Bits4_def off plane_words_store del: plane_words.simps)
  have "fold (copy_word PendingStore (3 * payloadOffsets obs1 ! slot) words v) [0..<words] obs1 = obs1"
    using inventory_offsets(2)[OF io(2), of slot PendingStore] i pw off
    by (intro copy_self[where slot=slot and w=w]) (auto simp: v_def b)
  then have "Stage slot v valid path epoch obs1 = (put_slot slot \<lparr>os_pending = True, os_value = v, os_valid = valid, os_path = path,
        os_evaluationEpoch = epoch\<rparr> obs1, True)"
    using i p k packed_canonical[OF f] c w
    by (simp add: Stage_def b isCanonicalBits4_content copyBits4_def Let_def l1 put_slot_def) (simp add: v_def)
  moreover have conf: "configured obs" using io(1) by (simp add: inventory_ok_def)
  have pk: "fold (packed_word w (3 * payloadOffsets obs ! slot) words f) [0..<words] obs = obs1"
    by (subst packed_words) (auto simp: obs1_def as_def bs_def cs_def)
  have "StagePacked w slot f eb valid path epoch obs = Stage slot v valid path epoch obs1"
    using i p n conf unfolding StagePacked_def Let_def v_def[symmetric] l0 pk w[symmetric] by auto
  ultimately show ?thesis using fs(1)[of valid path epoch] c fs(3) by (simp add: v_def)
qed

subsection \<open>Checking the groups\<close>

definition group_start :: "ObservationDescriptor list \<Rightarrow> nat \<Rightarrow> nat" where
  "group_start ds i = i - groupIndex (ds ! i)"

definition slot_active :: "ObservationSlots \<Rightarrow> nat \<Rightarrow> bool" where
  "slot_active obs i \<longleftrightarrow> os_pending (slots obs ! i) \<and> os_valid (slots obs ! i) \<and> os_path (slots obs ! i)"

definition event_active :: "ObservationSlots \<Rightarrow> nat \<Rightarrow> bool" where
  "event_active obs i \<longleftrightarrow> slot_active obs i \<and> od_kind (descriptors obs ! i) = Event"

definition value_ok :: "ObservationSlots \<Rightarrow> nat \<Rightarrow> bool" where
  "value_ok obs i \<longleftrightarrow> (let v = os_value (slots obs ! i) in
     if od_kind (descriptors obs ! i) = Gauge then sv_kind v = SlotUnsigned else sv_kind v = SlotBits4 \<longrightarrow> isCanonicalBits4 obs v)"

text \<open>A slot agrees with the first slot of its group.\<close>

definition slot_ready :: "ObservationSlots \<Rightarrow> u64 option \<Rightarrow> nat \<Rightarrow> bool" where
  "slot_ready obs epoch i \<longleftrightarrow> (let s = slots obs ! i; s0 = slots obs ! group_start (descriptors obs) i in
     os_pending s = os_pending s0 \<and>
     (os_pending s0 \<longrightarrow> (epoch \<noteq> None \<longrightarrow> os_evaluationEpoch s = the epoch) \<and> os_path s = os_path s0 \<and>
       (os_path s0 \<longrightarrow> os_valid s = os_valid s0 \<and> (os_valid s0 \<longrightarrow> value_ok obs i))))"

lemma group_values_eq:
  assumes "\<forall>i\<in>set ix. od_kind (descriptors obs ! i) = od_kind d \<and> (od_kind d = Gauge \<longrightarrow> gaugeIndexBySlot obs ! i \<noteq> None)"
    "n \<le> eventCapacity obs"
  shows "group_values obs d ix n =
    (if (\<forall>i\<in>set ix. value_ok obs i) \<and> (od_kind d = Event \<longrightarrow> n + length ix \<le> eventCapacity obs)
     then Some (if od_kind d = Event then n + length ix else n) else None)"
  using assms
proof (induction ix arbitrary: n)
  case (Cons i ix)
  have kinds: "sv_kind v \<noteq> SlotBool \<and> sv_kind v \<noteq> SlotSigned \<and> sv_kind v \<noteq> SlotUnsigned \<longleftrightarrow> sv_kind v = SlotBits4" for v
    by (cases "sv_kind v") auto
  show ?case
  proof (cases "od_kind d")
    case Event
    then show ?thesis using Cons.IH[of n] Cons.IH[of "n + 1"] Cons.prems
      by (cases "sv_kind (os_value (slots obs ! i))") (auto simp: Let_def value_ok_def)
  next
    case Gauge
    then show ?thesis using Cons.IH[of n] Cons.prems by (auto simp: Let_def value_ok_def)
  qed
qed auto

lemma group_boundary:
  assumes sh: "\<forall>i<length ds. group_shape ds i" and start: "start < length ds" "groupIndex (ds ! start) = 0"
  defines "stop \<equiv> start + groupSize (ds ! start)"
  shows "start < stop" "stop \<le> length ds" "stop < length ds \<Longrightarrow> groupIndex (ds ! stop) = 0"
    "start \<le> i \<Longrightarrow> i < stop \<Longrightarrow> group_start ds i = start \<and> od_kind (ds ! i) = od_kind (ds ! start)"
proof -
  have s: "group_shape ds start" using sh start by simp
  show "start < stop" "stop \<le> length ds" using s start by (auto simp: group_shape_def stop_def)
  have m: "k < groupSize (ds ! start) \<Longrightarrow> groupIndex (ds ! (start + k)) = k \<and> groupSize (ds ! (start + k)) = groupSize (ds ! start) \<and>
     od_kind (ds ! (start + k)) = od_kind (ds ! start)" for k
    using s start by (auto simp: group_shape_def Let_def)
  show "group_start ds i = start \<and> od_kind (ds ! i) = od_kind (ds ! start)" if "start \<le> i" "i < stop"
    using m[of "i - start"] that by (auto simp: group_start_def stop_def)
  show "groupIndex (ds ! stop) = 0" if lt: "stop < length ds"
  proof (rule ccontr)
    assume ne: "groupIndex (ds ! stop) \<noteq> 0"
    define k where "k = groupIndex (ds ! stop)"
    have sh': "group_shape ds stop" using sh lt by simp
    then have k: "k \<le> stop" "k < groupSize (ds ! stop)" "0 < k" using ne by (auto simp: group_shape_def k_def)
    have mem: "groupIndex (ds ! (stop - k + q)) = q \<and> groupSize (ds ! (stop - k + q)) = groupSize (ds ! stop)"
      if "q < groupSize (ds ! stop)" for q using sh' that unfolding group_shape_def k_def Let_def by blast
    have "groupIndex (ds ! (stop - k + (k - 1))) = k - 1 \<and> groupSize (ds ! (stop - k + (k - 1))) = groupSize (ds ! stop)"
      using mem[of "k - 1"] k by simp
    moreover have "stop - k + (k - 1) = stop - 1" using k by simp
    ultimately have one: "groupIndex (ds ! (stop - 1)) = k - 1" "groupSize (ds ! (stop - 1)) = groupSize (ds ! stop)" by simp_all
    have pos: "0 < groupSize (ds ! start)" using s by (simp add: group_shape_def)
    then have "start + (groupSize (ds ! start) - 1) = stop - 1" by (simp add: stop_def)
    then have two: "groupIndex (ds ! (stop - 1)) = groupSize (ds ! start) - 1" "groupSize (ds ! (stop - 1)) = groupSize (ds ! start)"
      using m[of "groupSize (ds ! start) - 1"] pos by simp_all
    have "groupSize (ds ! start) - 1 = k - 1" "groupSize (ds ! start) = groupSize (ds ! stop)" using one two by simp_all
    then show False using k pos by linarith
  qed
qed

lemma check_groups_unfold:
  assumes "start < length (slots obs)"
  defines "d \<equiv> descriptors obs ! start" and "s0 \<equiv> slots obs ! start" and "ix \<equiv> [start..<start + groupSize (descriptors obs ! start)]"
    and "stop \<equiv> start + groupSize (descriptors obs ! start)"
  shows "check_groups obs epoch start n =
     (if \<not> list_ex (\<lambda>i. os_pending (slots obs ! i)) ix then check_groups obs epoch stop n
      else if \<not> list_all (\<lambda>i. os_pending (slots obs ! i)) ix then Some False
      else if list_ex (\<lambda>i. (epoch \<noteq> None \<and> os_evaluationEpoch (slots obs ! i) \<noteq> the epoch) \<or> os_path (slots obs ! i) \<noteq> os_path s0) ix
      then Some False
      else if \<not> os_path s0 then check_groups obs epoch stop n
      else if list_ex (\<lambda>i. os_valid (slots obs ! i) \<noteq> os_valid s0) ix then Some False
      else if \<not> os_valid s0 then check_groups obs epoch stop n
      else case group_values obs d ix n of None \<Rightarrow> Some False | Some m \<Rightarrow> check_groups obs epoch stop m)"
  unfolding assms(2-) using assms(1) by (subst check_groups.simps) (simp only: Let_def not_le[symmetric] if_False simp_thms)

definition group_ready :: "ObservationSlots \<Rightarrow> u64 option \<Rightarrow> nat list \<Rightarrow> ObservationSlot \<Rightarrow> bool" where
  "group_ready obs epoch ix s0 \<longleftrightarrow> (\<forall>i\<in>set ix. os_pending (slots obs ! i) = os_pending s0 \<and>
     (os_pending s0 \<longrightarrow> (epoch \<noteq> None \<longrightarrow> os_evaluationEpoch (slots obs ! i) = the epoch) \<and> os_path (slots obs ! i) = os_path s0 \<and>
     (os_path s0 \<longrightarrow> os_valid (slots obs ! i) = os_valid s0 \<and> (os_valid s0 \<longrightarrow> value_ok obs i))))"

lemma group_ready_active:
  assumes "group_ready obs epoch ix s0" "\<forall>i\<in>set ix. od_kind (descriptors obs ! i) = od_kind d"
  shows "length (filter (event_active obs) ix) = (if os_pending s0 \<and> os_path s0 \<and> os_valid s0 \<and> od_kind d = Event then length ix else 0)"
proof -
  have "event_active obs i \<longleftrightarrow> os_pending s0 \<and> os_path s0 \<and> os_valid s0 \<and> od_kind d = Event" if "i \<in> set ix" for i
    using that assms by (auto simp: group_ready_def event_active_def slot_active_def)
  then have "filter (event_active obs) ix = filter (\<lambda>_. os_pending s0 \<and> os_path s0 \<and> os_valid s0 \<and> od_kind d = Event) ix"
    by (rule filter_cong[OF refl])
  then show ?thesis by simp
qed

lemma check_groups_step:
  assumes inv: "inventory_ok obs" and st: "start < length (slots obs)" "groupIndex (descriptors obs ! start) = 0" and n: "n \<le> eventCapacity obs"
  defines "stop \<equiv> start + groupSize (descriptors obs ! start)"
  defines "m \<equiv> n + length (filter (event_active obs) [start..<stop])"
  shows "check_groups obs epoch start n =
    (if group_ready obs epoch [start..<stop] (slots obs ! start) \<and> m \<le> eventCapacity obs then check_groups obs epoch stop m else Some False)"
proof -
  define ix d s0 where "ix = [start..<stop]" and "d = descriptors obs ! start" and "s0 = slots obs ! start"
  have sh: "\<forall>i<length (descriptors obs). group_shape (descriptors obs) i" and nd: "length (slots obs) = length (descriptors obs)"
    and gi: "\<forall>i<length (descriptors obs). gaugeIndexBySlot obs ! i \<noteq> None \<longleftrightarrow> od_kind (descriptors obs ! i) = Gauge"
    using inv by (auto simp: inventory_ok_def)
  note b = group_boundary[OF sh st[unfolded nd], folded stop_def]
  have kind: "\<forall>i\<in>set ix. od_kind (descriptors obs ! i) = od_kind d"
    unfolding ix_def d_def set_upt using b(4) by (meson atLeastLessThan_iff)
  have hd: "start \<in> set ix" using b(1) by (simp add: ix_def)
  have "\<forall>i\<in>set ix. od_kind (descriptors obs ! i) = od_kind d \<and> (od_kind d = Gauge \<longrightarrow> gaugeIndexBySlot obs ! i \<noteq> None)"
  proof
    fix i assume i: "i \<in> set ix"
    then have "i < length (descriptors obs)" using b(2) by (simp add: ix_def)
    then show "od_kind (descriptors obs ! i) = od_kind d \<and> (od_kind d = Gauge \<longrightarrow> gaugeIndexBySlot obs ! i \<noteq> None)"
      using gi bspec[OF kind i] by simp
  qed
  note gv = group_values_eq[OF this n]
  note unf = check_groups_unfold[OF st(1), of epoch n, folded stop_def, folded ix_def d_def s0_def]
  note act = group_ready_active[OF _ kind, of epoch s0]
  have m: "m = n + length (filter (event_active obs) ix)" by (simp add: m_def ix_def)
  let ?goal = "check_groups obs epoch start n = (if group_ready obs epoch ix s0 \<and> m \<le> eventCapacity obs then check_groups obs epoch stop m else Some False)"
  have idle: ?goal if r: "group_ready obs epoch ix s0" and i: "\<not> (os_pending s0 \<and> os_path s0 \<and> os_valid s0)"
    and u: "check_groups obs epoch start n = check_groups obs epoch stop n" using act[OF r] i u r n m by auto
  have fails: ?goal if "\<not> group_ready obs epoch ix s0" "check_groups obs epoch start n = Some False" using that by simp
  consider (off) "\<not> list_ex (\<lambda>i. os_pending (slots obs ! i)) ix"
    | (bad) "list_ex (\<lambda>i. os_pending (slots obs ! i)) ix" "\<not> list_all (\<lambda>i. os_pending (slots obs ! i)) ix \<or>
        list_ex (\<lambda>i. (epoch \<noteq> None \<and> os_evaluationEpoch (slots obs ! i) \<noteq> the epoch) \<or> os_path (slots obs ! i) \<noteq> os_path s0) ix"
    | (on) "list_all (\<lambda>i. os_pending (slots obs ! i)) ix"
        "\<not> list_ex (\<lambda>i. (epoch \<noteq> None \<and> os_evaluationEpoch (slots obs ! i) \<noteq> the epoch) \<or> os_path (slots obs ! i) \<noteq> os_path s0) ix"
    by blast
  then have ?goal
  proof cases
    case off
    then have "\<not> os_pending s0" "group_ready obs epoch ix s0" using hd by (auto simp: group_ready_def list_ex_iff s0_def)
    then show ?thesis using idle unf off by simp
  next
    case bad
    then have "\<not> group_ready obs epoch ix s0" using hd by (auto simp: group_ready_def list_ex_iff list_all_iff s0_def)
    then show ?thesis using fails unf bad by auto
  next
    case on
    then have any: "list_ex (\<lambda>i. os_pending (slots obs ! i)) ix" and p0: "os_pending s0"
      using hd by (auto simp: list_ex_iff list_all_iff s0_def)
    have r: "group_ready obs epoch ix s0 \<longleftrightarrow> (os_path s0 \<longrightarrow> \<not> list_ex (\<lambda>i. os_valid (slots obs ! i) \<noteq> os_valid s0) ix \<and>
        (os_valid s0 \<longrightarrow> (\<forall>i\<in>set ix. value_ok obs i)))"
      using on p0 by (auto simp: group_ready_def list_ex_iff list_all_iff)
    show ?thesis
    proof (cases "os_path s0 \<and> os_valid s0 \<and> \<not> list_ex (\<lambda>i. os_valid (slots obs ! i) \<noteq> os_valid s0) ix")
      case True
      then have u: "check_groups obs epoch start n = (case group_values obs d ix n of None \<Rightarrow> Some False | Some m \<Rightarrow> check_groups obs epoch stop m)"
        using unf on any True by auto
      show ?thesis unfolding u gv using True act r p0 n m by (auto split: if_splits)
    next
      case False
      then show ?thesis using unf on any r idle fails by (cases "os_path s0") auto
    qed
  qed
  then show ?thesis by (simp add: ix_def s0_def)
qed

lemma check_groups_eq:
  assumes inv: "inventory_ok obs"
  shows "start \<le> length (slots obs) \<Longrightarrow> (start < length (slots obs) \<Longrightarrow> groupIndex (descriptors obs ! start) = 0) \<Longrightarrow> n \<le> eventCapacity obs \<Longrightarrow>
    check_groups obs epoch start n = Some ((\<forall>i. start \<le> i \<and> i < length (slots obs) \<longrightarrow> slot_ready obs epoch i) \<and>
      n + length (filter (event_active obs) [start..<length (slots obs)]) \<le> eventCapacity obs)"
proof (induction "length (slots obs) - start" arbitrary: start n rule: less_induct)
  case less
  show ?case
  proof (cases "start = length (slots obs)")
    case True
    then show ?thesis using less.prems by (subst check_groups.simps) auto
  next
    case False
    then have st: "start < length (slots obs)" "groupIndex (descriptors obs ! start) = 0" using less.prems by auto
    have nd: "length (slots obs) = length (descriptors obs)" and sh: "\<forall>i<length (descriptors obs). group_shape (descriptors obs) i"
      using inv by (auto simp: inventory_ok_def)
    define stop where "stop = start + groupSize (descriptors obs ! start)"
    note b = group_boundary[OF sh st[unfolded nd], folded stop_def]
    have split: "[start..<length (slots obs)] = [start..<stop] @ [stop..<length (slots obs)]"
      using b(1,2) nd by (metis le_add_diff_inverse less_imp_le upt_add_eq_append)
    have all: "(\<forall>i. start \<le> i \<and> i < length (slots obs) \<longrightarrow> P i) \<longleftrightarrow>
        (\<forall>i\<in>set [start..<stop]. P i) \<and> (\<forall>i. stop \<le> i \<and> i < length (slots obs) \<longrightarrow> P i)" for P
      using b(1,2) nd by auto
    have ready: "group_ready obs epoch [start..<stop] (slots obs ! start) \<longleftrightarrow> (\<forall>i\<in>set [start..<stop]. slot_ready obs epoch i)"
      using b(4) by (auto simp: group_ready_def slot_ready_def Let_def)
    define m where "m = n + length (filter (event_active obs) [start..<stop])"
    have IH: "m \<le> eventCapacity obs \<Longrightarrow> check_groups obs epoch stop m =
        Some ((\<forall>i. stop \<le> i \<and> i < length (slots obs) \<longrightarrow> slot_ready obs epoch i) \<and>
          m + length (filter (event_active obs) [stop..<length (slots obs)]) \<le> eventCapacity obs)"
      using less.hyps[of stop m] b st nd by simp
    show ?thesis
      unfolding all split check_groups_step[OF inv st less.prems(3), folded stop_def, folded m_def] ready
      using IH by (auto simp: m_def)
  qed
qed

lemma precommit_eq:
  assumes inv: "inventory_ok obs"
  shows "checkGroups obs epoch = Some ((\<forall>i < length (slots obs). slot_ready obs epoch i) \<and>
    length (filter (event_active obs) [0..<length (slots obs)]) \<le> eventCapacity obs)"
proof -
  have "configured obs" "length (slots obs) = length (descriptors obs)" and sh: "\<forall>i<length (descriptors obs). group_shape (descriptors obs) i"
    using inv by (auto simp: inventory_ok_def)
  moreover have "0 < length (slots obs) \<Longrightarrow> groupIndex (descriptors obs ! 0) = 0"
    using sh calculation(2) by (auto simp: group_shape_def)
  ultimately show ?thesis using check_groups_eq[OF inv, of 0 0] by (simp add: checkGroups_def)
qed

subsection \<open>Transfer\<close>

lemma copy_commit:
  assumes inv: "inventory_ok obs" and i: "i < length (slots obs)"
  shows "\<exists>ys. copyBits4 (planeView obs PendingStore i w) CommittedStore i obs = (set_store CommittedStore ys obs, planeView obs CommittedStore i w) \<and>
    inventory_ok (set_store CommittedStore ys obs) \<and>
    region CommittedStore (set_store CommittedStore ys obs) i = region PendingStore obs i \<and>
    (\<forall>j < length (slots obs). j \<noteq> i \<longrightarrow> region CommittedStore (set_store CommittedStore ys obs) j = region CommittedStore obs j)"
proof -
  define v where "v = planeView obs PendingStore i w"
  define words where "words = payload_words (payloadWidth (descriptors obs ! i))"
  obtain as bs cs where r: "region PendingStore obs i = (as, bs, cs)" by (metis prod_cases3)
  have c: "content obs v = (SlotBits4, 0, w, Some (as, bs, cs))" using content_view[OF inv i, of PendingStore w] r by (simp add: v_def)
  then have p: "plane_words obs (sv_value v) = as" "plane_words obs (sv_known v) = bs" "plane_words obs (sv_z v) = cs" "sv_width v = w"
    by (auto simp: content_def split: if_splits)
  have len: "length as = words" "length bs = words" "length cs = words"
    using r inventory_offsets(2)[OF inv i, of PendingStore] by (auto simp: region_def Let_def words_def)
  define ys where "ys = fold (fill3 (3 * payloadOffsets obs ! i) words as bs cs) [0..<words] (store CommittedStore obs)"
  note f = fill_region[OF inv i words_def len, where st=CommittedStore, folded ys_def]
  have "copyBits4 v CommittedStore i obs = (set_store CommittedStore ys obs, planeView obs CommittedStore i w)"
    using copy_stable[OF stable_view[of obs i w, folded v_def]] by (simp add: copyBits4_def Let_def p len ys_def)
  then show ?thesis using f r by (auto simp: v_def)
qed

definition committed_event :: "ObservationSlots \<Rightarrow> u64 \<Rightarrow> nat \<Rightarrow> CommittedEventSlot" where
  "committed_event obs epoch i = \<lparr>ce_epoch = epoch, ce_descriptor = descriptors obs ! i,
     ce_value = (let v = os_value (slots obs ! i) in
       if sv_kind v = SlotBits4 then planeView obs CommittedStore i (payloadWidth (descriptors obs ! i)) else v)\<rparr>"

definition updated_gauge :: "ObservationSlots \<Rightarrow> u64 \<Rightarrow> nat \<Rightarrow> nat \<Rightarrow> GaugeSnapshot" where
  "updated_gauge obs epoch i g = (gauges obs ! g)\<lparr>gs_value := os_value (slots obs ! i), gs_lastUpdate := epoch\<rparr>"

text \<open>The state after the transfer of the first \<open>k\<close> slots.\<close>

definition moved :: "ObservationSlots \<Rightarrow> u64 \<Rightarrow> nat \<Rightarrow> ObservationSlots \<Rightarrow> bool" where
  "moved obs epoch k obs' \<longleftrightarrow> inventory_ok obs' \<and> slots obs' = map (\<lambda>i. if i < k then empty_slot else slots obs ! i) [0..<length (slots obs)] \<and>
     descriptors obs' = descriptors obs \<and> payloadOffsets obs' = payloadOffsets obs \<and> eventCapacity obs' = eventCapacity obs \<and>
     gaugeIndexBySlot obs' = gaugeIndexBySlot obs \<and> pendingPlanes obs' = pendingPlanes obs \<and>
     events obs' = map (committed_event obs epoch) (filter (event_active obs) [0..<k]) \<and>
     (\<forall>i<k. event_active obs i \<longrightarrow> sv_kind (os_value (slots obs ! i)) = SlotBits4 \<longrightarrow> region CommittedStore obs' i = region PendingStore obs i) \<and>
     length (gauges obs') = length (gauges obs) \<and>
     (\<forall>g < length (gauges obs). gauges obs' ! g =
        (case filter (\<lambda>i. slot_active obs i \<and> gaugeIndexBySlot obs ! i = Some g) [0..<k] of
           [] \<Rightarrow> gauges obs ! g | i # _ \<Rightarrow> updated_gauge obs epoch i g))"

lemma moved_0: "inventory_ok obs \<Longrightarrow> moved obs epoch 0 (obs\<lparr>events := []\<rparr>)"
  using map_nth[of "slots obs"] by (auto simp: moved_def inventory_ok_def)

lemma region_cong: "store st obs' = store st obs \<Longrightarrow> descriptors obs' = descriptors obs \<Longrightarrow> payloadOffsets obs' = payloadOffsets obs \<Longrightarrow>
    region st obs' = region st obs"
  by (simp add: region_def fun_eq_iff)

lemma planeView_cong: "payloadOffsets obs' = payloadOffsets obs \<Longrightarrow> planeView obs' = planeView obs"
  by (simp add: planeView_def fun_eq_iff)

text \<open>One slot of the transfer, as an update of the events, the gauges and the committed planes.\<close>

lemma xfer_slot_moved:
  assumes m: "moved obs epoch k obs1" and inv: "obs_inv obs" and k: "k < length (slots obs)"
    and e: "epoch = e + 1" "e \<noteq> - 1" and ep: "os_pending (slots obs ! k) \<Longrightarrow> os_evaluationEpoch (slots obs ! k) = e"
    and room: "event_active obs k \<Longrightarrow> length (events obs1) < eventCapacity obs"
    and obs2: "obs2 = (if event_active obs k
        then (let (o', v) = (if sv_kind (os_value (slots obs ! k)) = SlotBits4 then copyBits4 (os_value (slots obs ! k)) CommittedStore k obs1
                             else (obs1, os_value (slots obs ! k)))
              in o'\<lparr>events := events o' @ [\<lparr>ce_epoch = epoch, ce_descriptor = descriptors obs ! k, ce_value = v\<rparr>]\<rparr>)
        else if slot_active obs k then (case gaugeIndexBySlot obs ! k of
             Some g \<Rightarrow> obs1\<lparr>gauges := (gauges obs1)[g := (gauges obs1 ! g)\<lparr>gs_value := os_value (slots obs ! k), gs_lastUpdate := epoch\<rparr>]\<rparr>
           | None \<Rightarrow> obs1)
        else obs1)"
  shows "xfer_slot epoch k obs1 = put_slot k empty_slot obs2"
proof -
  have s: "slots obs1 ! k = slots obs ! k" "descriptors obs1 = descriptors obs" "eventCapacity obs1 = eventCapacity obs"
    "gaugeIndexBySlot obs1 = gaugeIndexBySlot obs" using m k by (auto simp: moved_def)
  have act: "os_pending (slots obs ! k) \<and> os_valid (slots obs ! k) \<and> os_path (slots obs ! k) \<and> os_evaluationEpoch (slots obs ! k) \<noteq> - 1 \<and>
      os_evaluationEpoch (slots obs ! k) + 1 = epoch \<longleftrightarrow> slot_active obs k" using ep e by (auto simp: slot_active_def)
  have kind: "od_kind (descriptors obs ! k) = Event \<longleftrightarrow> od_kind (descriptors obs ! k) \<noteq> Gauge" by (cases "od_kind (descriptors obs ! k)") auto
  show ?thesis
    unfolding xfer_slot_def Let_def s act put_slot_def obs2 using room
    by (auto simp: event_active_def split: prod.splits option.splits)
qed

lemma moved_Suc:
  assumes m: "moved obs epoch k obs1" and inv: "obs_inv obs" and k: "k < length (slots obs)"
    and e: "epoch = e + 1" "e \<noteq> - 1" and ep: "os_pending (slots obs ! k) \<Longrightarrow> os_evaluationEpoch (slots obs ! k) = e"
    and room: "event_active obs k \<Longrightarrow> length (events obs1) < eventCapacity obs"
  shows "moved obs epoch (Suc k) (xfer_slot epoch k obs1)"
proof -
  have io: "inventory_ok obs" "views_ok obs" and io1: "inventory_ok obs1" using inv m by (simp_all add: obs_inv_def moved_def)
  have len1: "length (slots obs1) = length (slots obs)" and off1: "payloadOffsets obs1 = payloadOffsets obs"
    and pend1: "pendingPlanes obs1 = pendingPlanes obs" and desc1: "descriptors obs1 = descriptors obs" using m by (auto simp: moved_def)
  have sl: "(slots obs1)[k := empty_slot] = map (\<lambda>i. if i < Suc k then empty_slot else slots obs ! i) [0..<length (slots obs)]"
    using m k by (intro nth_equalityI) (auto simp: moved_def nth_list_update less_Suc_eq)
  have split: "filter P [0..<Suc k] = filter P [0..<k] @ (if P k then [k] else [])" for P by simp
  have ne: "gaugeIndexBySlot obs ! i = Some g \<Longrightarrow> i < k \<Longrightarrow> gaugeIndexBySlot obs ! k \<noteq> Some g" for i g
    using io(1) k by (simp add: inventory_ok_def)
  have noG: "event_active obs k \<Longrightarrow> gaugeIndexBySlot obs ! k = None"
    using io(1) k by (auto simp: inventory_ok_def event_active_def)
  note step = xfer_slot_moved[OF m inv k e ep room refl]
  consider (event) "event_active obs k" | (gauge) g where "slot_active obs k" "\<not> event_active obs k" "gaugeIndexBySlot obs ! k = Some g"
    | (none) "\<not> slot_active obs k"
  proof (cases "slot_active obs k \<and> \<not> event_active obs k")
    case True
    then have "gaugeIndexBySlot obs ! k \<noteq> None" using io(1) k by (auto simp: inventory_ok_def event_active_def) (metis ObservationKind.exhaust)+
    then show ?thesis using that True by blast
  qed (use that in \<open>auto simp: event_active_def\<close>)
  then show ?thesis
  proof cases
    case none
    then have "\<not> event_active obs k" by (simp add: event_active_def)
    then have "xfer_slot epoch k obs1 = put_slot k empty_slot obs1" using step none by simp
    then show ?thesis using m none \<open>\<not> event_active obs k\<close> sl
      by (auto simp: moved_def inventory_put_slot less_Suc_eq) (simp_all add: put_slot_def)
  next
    case (gauge g)
    define gs where "gs = (gauges obs1)[g := (gauges obs1 ! g)\<lparr>gs_value := os_value (slots obs ! k), gs_lastUpdate := epoch\<rparr>]"
    have x: "xfer_slot epoch k obs1 = put_slot k empty_slot (obs1\<lparr>gauges := gs\<rparr>)" using step gauge by (simp add: gs_def)
    have glt: "g < length (gauges obs)" using io(1) k gauge(3) by (auto simp: inventory_ok_def)
    have old: "filter (\<lambda>i. slot_active obs i \<and> gaugeIndexBySlot obs ! i = Some g) [0..<k] = []"
      using ne[of _ g] gauge(3) by (auto simp: filter_empty_conv)
    have "gauges obs1 ! g = gauges obs ! g" "length (gauges obs1) = length (gauges obs)" using m glt old by (auto simp: moved_def)
    then have new: "gs ! h = (case filter (\<lambda>i. slot_active obs i \<and> gaugeIndexBySlot obs ! i = Some h) [0..<Suc k] of
           [] \<Rightarrow> gauges obs ! h | i # _ \<Rightarrow> updated_gauge obs epoch i h)" if "h < length (gauges obs)" for h
      using m that gauge old unfolding split by (cases "h = g") (auto simp: gs_def updated_gauge_def moved_def split: list.splits)
    have inv2: "inventory_ok (obs1\<lparr>gauges := gs\<rparr>)" using io1 by (simp add: inventory_ok_def gs_def)
    have reg: "region st (obs1\<lparr>gauges := gs\<rparr>) = region st obs1" for st
      by (rule region_cong) (cases st; simp add: store_def)+
    show ?thesis using m gauge sl new inv2 unfolding x
      by (auto simp: moved_def inventory_put_slot less_Suc_eq reg) (simp_all add: put_slot_def gs_def)
  next
    case event
    define s where "s = slots obs ! k"
    define w where "w = payloadWidth (descriptors obs ! k)"
    have ce: "committed_event obs epoch k = \<lparr>ce_epoch = epoch, ce_descriptor = descriptors obs ! k,
        ce_value = (if sv_kind (os_value s) = SlotBits4 then planeView obs CommittedStore k w else os_value s)\<rparr>"
      by (simp add: committed_event_def Let_def s_def w_def)
    obtain ys where ys: "xfer_slot epoch k obs1 = put_slot k empty_slot ((set_store CommittedStore ys obs1)\<lparr>events := events obs1 @ [committed_event obs epoch k]\<rparr>)"
      "inventory_ok (set_store CommittedStore ys obs1)"
      "sv_kind (os_value s) = SlotBits4 \<Longrightarrow> region CommittedStore (set_store CommittedStore ys obs1) k = region PendingStore obs k"
      "\<forall>j < length (slots obs). j \<noteq> k \<longrightarrow> region CommittedStore (set_store CommittedStore ys obs1) j = region CommittedStore obs1 j"
    proof (cases "sv_kind (os_value s) = SlotBits4")
      case True
      then have v: "os_value s = planeView obs1 PendingStore k w"
        using io(2) k planeView_cong[OF off1] by (simp add: views_ok_def s_def w_def)
      obtain ys where c: "copyBits4 (planeView obs1 PendingStore k w) CommittedStore k obs1 = (set_store CommittedStore ys obs1, planeView obs1 CommittedStore k w)"
        "inventory_ok (set_store CommittedStore ys obs1)"
        "region CommittedStore (set_store CommittedStore ys obs1) k = region PendingStore obs1 k"
        "\<forall>j < length (slots obs1). j \<noteq> k \<longrightarrow> region CommittedStore (set_store CommittedStore ys obs1) j = region CommittedStore obs1 j"
        using copy_commit[OF io1, of k w] k len1 by auto
      have "region PendingStore obs1 = region PendingStore obs" by (rule region_cong) (simp_all add: store_def pend1 desc1 off1)
      moreover have "xfer_slot epoch k obs1 = put_slot k empty_slot ((set_store CommittedStore ys obs1)\<lparr>events := events obs1 @ [committed_event obs epoch k]\<rparr>)"
        using step event True c(1) planeView_cong[OF off1] by (simp add: v s_def[symmetric] ce)
      ultimately show ?thesis using that c len1 by metis
    next
      case False
      then have "xfer_slot epoch k obs1 = put_slot k empty_slot ((set_store CommittedStore (store CommittedStore obs1) obs1)\<lparr>events := events obs1 @ [committed_event obs epoch k]\<rparr>)"
        using step event by (simp add: s_def[symmetric] ce)
      then show ?thesis using that[of "store CommittedStore obs1"] io1 False by simp
    qed
    define obs2 where "obs2 = (set_store CommittedStore ys obs1)\<lparr>events := events obs1 @ [committed_event obs epoch k]\<rparr>"
    have inv2: "inventory_ok obs2" using ys(2) by (simp add: obs2_def inventory_ok_def)
    have reg: "region CommittedStore obs2 = region CommittedStore (set_store CommittedStore ys obs1)"
      by (rule region_cong) (simp_all add: obs2_def store_def set_store_def)
    have g: "filter (\<lambda>i. slot_active obs i \<and> gaugeIndexBySlot obs ! i = Some h) [0..<Suc k] =
        filter (\<lambda>i. slot_active obs i \<and> gaugeIndexBySlot obs ! i = Some h) [0..<k]" for h using noG[OF event] by simp
    show ?thesis unfolding ys(1) obs2_def[symmetric] moved_def put_slot_fields inventory_put_slot g reg
      using m event sl inv2 ys(3,4) k unfolding s_def
      by (auto simp: moved_def less_Suc_eq) (simp_all add: obs2_def put_slot_def set_store_def)
  qed
qed

lemma xfer_moved:
  assumes inv: "obs_inv obs" and pre: "obs_Precommit e obs = Some True" and e: "e \<noteq> - 1" and k: "k \<le> length (slots obs)"
  shows "moved obs (e + 1) k (fold (xfer_slot (e + 1)) [0..<k] (obs\<lparr>events := []\<rparr>))"
  using k
proof (induction k)
  case 0
  then show ?case using moved_0[of obs "e + 1"] inv by (simp add: obs_inv_def)
next
  case (Suc k)
  have io: "inventory_ok obs" using inv by (simp add: obs_inv_def)
  have pc: "\<forall>i < length (slots obs). slot_ready obs (Some e) i" "length (filter (event_active obs) [0..<length (slots obs)]) \<le> eventCapacity obs"
    using pre by (auto simp: obs_Precommit_def precommit_eq[OF io])
  define obs1 where "obs1 = fold (xfer_slot (e + 1)) [0..<k] (obs\<lparr>events := []\<rparr>)"
  have m: "moved obs (e + 1) k obs1" using Suc by (simp add: obs1_def)
  have k: "k < length (slots obs)" using Suc by simp
  have split: "[0..<length (slots obs)] = [0..<k] @ k # [Suc k..<length (slots obs)]"
    using k upt_add_eq_append[of 0 k "length (slots obs) - k"] upt_conv_Cons[OF k] by simp
  have "event_active obs k \<Longrightarrow> length (events obs1) < eventCapacity obs"
    using pc(2) m unfolding split by (simp add: moved_def)
  moreover have "os_pending (slots obs ! k) \<Longrightarrow> os_evaluationEpoch (slots obs ! k) = e"
    using pc(1) k by (auto simp: slot_ready_def Let_def)
  ultimately have "moved obs (e + 1) (Suc k) (xfer_slot (e + 1) k obs1)"
    by (intro moved_Suc[OF m inv k refl e]) auto
  then show ?case by (simp add: obs1_def)
qed

lemma xfer_commit:
  assumes inv: "obs_inv obs" and pre: "obs_Precommit e obs = Some True" and e: "e \<noteq> - 1"
  defines "obs' \<equiv> obs_Xfer (e + 1) obs"
  shows "obs_inv obs'" "descriptors obs' = descriptors obs" "slots obs' = map (\<lambda>_. empty_slot) (slots obs)"
    "events_view obs' = map (\<lambda>i. (e + 1, descriptors obs ! i, content obs (os_value (slots obs ! i)))) (filter (event_active obs) [0..<length (slots obs)])"
    "i < length (slots obs) \<Longrightarrow> gaugeIndexBySlot obs ! i = Some g \<Longrightarrow> gauges_view obs' ! g =
       (if slot_active obs i then (gs_stableOrdinal (gauges obs ! g), content obs (os_value (slots obs ! i)), e + 1) else gauges_view obs ! g)"
proof -
  define n where "n = length (slots obs)"
  have io: "inventory_ok obs" "views_ok obs" using inv by (simp_all add: obs_inv_def)
  have m: "moved obs (e + 1) n obs'" using xfer_moved[OF inv pre e le_refl] by (simp add: obs'_def obs_Xfer_def n_def)
  have pc: "\<forall>i < n. slot_ready obs (Some e) i" "length (filter (event_active obs) [0..<n]) \<le> eventCapacity obs"
    using pre by (auto simp: obs_Precommit_def precommit_eq[OF io(1)] n_def)
  have io': "inventory_ok obs'" and sl: "slots obs' = map (\<lambda>i. empty_slot) [0..<n]" and ds: "descriptors obs' = descriptors obs"
    and off: "payloadOffsets obs' = payloadOffsets obs" and ev: "events obs' = map (committed_event obs (e + 1)) (filter (event_active obs) [0..<n])"
    and reg: "\<And>i. i < n \<Longrightarrow> event_active obs i \<Longrightarrow> sv_kind (os_value (slots obs ! i)) = SlotBits4 \<Longrightarrow> region CommittedStore obs' i = region PendingStore obs i"
    and gl: "length (gauges obs') = length (gauges obs)" and cap: "eventCapacity obs' = eventCapacity obs"
    and gg: "\<And>g. g < length (gauges obs) \<Longrightarrow> gauges obs' ! g =
        (case filter (\<lambda>i. slot_active obs i \<and> gaugeIndexBySlot obs ! i = Some g) [0..<n] of [] \<Rightarrow> gauges obs ! g | i # _ \<Rightarrow> updated_gauge obs (e + 1) i g)"
    using m unfolding moved_def n_def by (auto cong: map_cong)
  have n': "length (slots obs') = n" by (simp add: sl)
  note pv = planeView_cong[OF off]
  have gk: "slot_active obs i \<Longrightarrow> gaugeIndexBySlot obs ! i = Some g \<Longrightarrow> i < n \<Longrightarrow> sv_kind (os_value (slots obs ! i)) = SlotUnsigned" for i g
    using pc(1) io(1) by (auto simp: slot_ready_def value_ok_def slot_active_def inventory_ok_def n_def Let_def)
  have gb: "gs \<in> set (gauges obs') \<Longrightarrow> sv_kind (gs_value gs) \<noteq> SlotBits4" for gs
  proof -
    assume "gs \<in> set (gauges obs')"
    then obtain g where g: "g < length (gauges obs)" "gs = gauges obs' ! g" using gl by (metis in_set_conv_nth)
    show ?thesis
    proof (cases "filter (\<lambda>i. slot_active obs i \<and> gaugeIndexBySlot obs ! i = Some g) [0..<n]")
      case Nil
      then show ?thesis using gg[OF g(1)] g io(2) by (simp add: views_ok_def)
    next
      case (Cons i rest)
      then have "i \<in> set (filter (\<lambda>i. slot_active obs i \<and> gaugeIndexBySlot obs ! i = Some g) [0..<n])" by simp
      then have "sv_kind (os_value (slots obs ! i)) = SlotUnsigned" using gk[of i g] by auto
      then show ?thesis using gg[OF g(1)] g Cons by (simp add: updated_gauge_def)
    qed
  qed
  have "views_ok obs'"
    unfolding views_ok_def ev n' ds pv
  proof (intro conjI allI impI ballI)
    show "i < n \<Longrightarrow> sv_kind (os_value (slots obs' ! i)) = SlotBits4 \<Longrightarrow> os_value (slots obs' ! i) = planeView obs PendingStore i (payloadWidth (descriptors obs ! i))" for i
      by (simp add: sl empty_slot_def slot_scalar_def)
    show "ev \<in> set (map (committed_event obs (e + 1)) (filter (event_active obs) [0..<n])) \<Longrightarrow> sv_kind (ce_value ev) = SlotBits4 \<Longrightarrow>
       \<exists>i<n. ce_descriptor ev = descriptors obs ! i \<and> ce_value ev = planeView obs CommittedStore i (payloadWidth (descriptors obs ! i))" for ev
      by (auto simp: committed_event_def Let_def split: if_splits)
  qed (use gb in blast)
  then show "obs_inv obs'" using io' pc(2) by (simp add: obs_inv_def ev cap)
  show "descriptors obs' = descriptors obs" "slots obs' = map (\<lambda>_. empty_slot) (slots obs)"
    using ds by (simp_all add: sl n_def map_replicate_const)
  show "events_view obs' = map (\<lambda>i. (e + 1, descriptors obs ! i, content obs (os_value (slots obs ! i)))) (filter (event_active obs) [0..<length (slots obs)])"
    unfolding events_view_def ev map_map n_def[symmetric]
  proof (rule map_cong[OF refl])
    fix i assume "i \<in> set (filter (event_active obs) [0..<n])"
    then have i: "i < n" "event_active obs i" by auto
    show "((\<lambda>e. (ce_epoch e, ce_descriptor e, content obs' (ce_value e))) \<circ> committed_event obs (e + 1)) i =
        (e + 1, descriptors obs ! i, content obs (os_value (slots obs ! i)))"
    proof (cases "sv_kind (os_value (slots obs ! i)) = SlotBits4")
      case True
      then have "os_value (slots obs ! i) = planeView obs PendingStore i (payloadWidth (descriptors obs ! i))"
        using io(2) i by (simp add: views_ok_def n_def)
      then show ?thesis
        using reg[OF i True] True content_view[OF io' i(1)[folded n'], of CommittedStore] content_view[OF io(1) i(1)[unfolded n_def], of PendingStore] pv
        by (simp add: committed_event_def)
    qed (simp add: committed_event_def content_scalar)
  qed
  show "gauges_view obs' ! g =
       (if slot_active obs i then (gs_stableOrdinal (gauges obs ! g), content obs (os_value (slots obs ! i)), e + 1) else gauges_view obs ! g)"
    if i: "i < length (slots obs)" and ig: "gaugeIndexBySlot obs ! i = Some g"
  proof -
    have g: "g < length (gauges obs)" using io(1) i ig by (auto simp: inventory_ok_def)
    have uniq: "gaugeIndexBySlot obs ! j = Some g \<Longrightarrow> j < n \<Longrightarrow> j = i" for j
      using io(1) i ig unfolding inventory_ok_def n_def by (metis linorder_neqE_nat)
    have one: "filter (\<lambda>j. j = i \<and> P) [0..<k] = (if P \<and> i < k then [i] else [])" for k P by (induction k) auto
    have "filter (\<lambda>j. slot_active obs j \<and> gaugeIndexBySlot obs ! j = Some g) [0..<n] = filter (\<lambda>j. j = i \<and> slot_active obs i) [0..<n]"
    proof (rule filter_cong[OF refl])
      fix j assume "j \<in> set [0..<n]"
      then show "(slot_active obs j \<and> gaugeIndexBySlot obs ! j = Some g) = (j = i \<and> slot_active obs i)" using uniq[of j] ig by auto
    qed
    also have "\<dots> = (if slot_active obs i then [i] else [])" using i by (simp add: one n_def)
    finally show ?thesis using gg[OF g] gl g gk[OF _ ig] i io(2)
      by (auto simp: gauges_view_def updated_gauge_def content_scalar views_ok_def n_def)
  qed
qed

lemma group_all_or_none:
  assumes inv: "obs_inv obs" and pre: "obs_Precommit e obs = Some True" and ij: "i < length (slots obs)" "j < length (slots obs)"
    and g: "group_start (descriptors obs) i = group_start (descriptors obs) j"
  shows "slot_active obs i = slot_active obs j"
proof -
  have "inventory_ok obs" using inv by (simp add: obs_inv_def)
  then have "slot_ready obs (Some e) i" "slot_ready obs (Some e) j"
    using pre ij by (auto simp: obs_Precommit_def precommit_eq)
  then show ?thesis using g by (auto simp: slot_ready_def slot_active_def Let_def)
qed

lemma assign_same: "obs_inv obs \<Longrightarrow> obs_assign obs = obs"
proof -
  assume inv: "obs_inv obs"
  then have io: "inventory_ok obs" "views_ok obs" by (simp_all add: obs_inv_def)
  have find: "i < length ds \<Longrightarrow> distinct (map stableOrdinal ds) \<Longrightarrow> find_ordinal (stableOrdinal (ds ! i)) ds = i" for i and ds :: "ObservationDescriptor list"
  proof (induction ds arbitrary: i)
    case (Cons d ds)
    then show ?case by (cases i) (auto dest: nth_mem)
  qed simp
  have w: "sv_width (planeView obs st i w) = w" "sv_kind (planeView obs st i w) = SlotBits4" for st i w
    by (simp_all add: planeView_def Let_def SlotValue_Bits4_def)
  have slot: "rebind_slot obs i (slots obs ! i) = slots obs ! i" if "i < length (slots obs)" for i
  proof (cases "sv_kind (os_value (slots obs ! i)) = SlotBits4")
    case True
    then have v: "os_value (slots obs ! i) = planeView obs PendingStore i (payloadWidth (descriptors obs ! i))"
      using io(2) that by (simp add: views_ok_def)
    show ?thesis unfolding rebind_slot_def v w by (simp add: v[symmetric])
  qed (simp add: rebind_slot_def)
  have "map (\<lambda>(index, s). rebind_slot obs index s) (enumerate 0 (slots obs)) = slots obs"
    using slot by (intro nth_equalityI) (simp_all add: nth_enumerate_eq)
  moreover have "map (rebind_event obs) (events obs) = events obs"
  proof (rule map_idI)
    fix ev assume ev: "ev \<in> set (events obs)"
    show "rebind_event obs ev = ev"
    proof (cases "sv_kind (ce_value ev) = SlotBits4")
      case True
      then obtain i where i: "i < length (slots obs)" "ce_descriptor ev = descriptors obs ! i"
        and v: "ce_value ev = planeView obs CommittedStore i (payloadWidth (descriptors obs ! i))"
        using io(2) ev by (auto simp: views_ok_def)
      have "find_ordinal (stableOrdinal (descriptors obs ! i)) (descriptors obs) = i"
        using find[of i "descriptors obs"] io(1) i(1) by (simp add: inventory_ok_def)
      then show ?thesis unfolding rebind_event_def v w i(2) by (simp add: v[symmetric])
    qed (simp add: rebind_event_def)
  qed
  ultimately show ?thesis by (simp add: obs_assign_def)
qed

subsection \<open>Properties\<close>

definition packed_value :: "nat \<Rightarrow> four_state \<Rightarrow> bool \<Rightarrow> slot_content" where
  "packed_value w f eventBool =
     (if w \<le> 64 \<and> fs_isFullyKnown w f
      then if eventBool then (SlotBool, if toBool (fs_value f) then 1 else 0, 0, None) else (SlotUnsigned, bits_value (fs_value f), 0, None)
      else packed_content w f)"

text \<open>C24.  Configuring a fresh inventory establishes the invariant: every slot lies in a complete group of
  like descriptors, ordinals are unique, and each slot owns a range of both plane stores.  Both stores
  together stay within the largest vector, so no size overflows.\<close>

theorem configure_establishes_inventory:
  assumes "Configure max_size ds cap new_slots = (obs, True)"
  shows "obs_inv obs \<and> descriptors obs = ds \<and> eventCapacity obs = cap \<and> (\<forall>i < length ds. \<not> os_pending (slots obs ! i)) \<and>
    length (pendingPlanes obs) + length (committedPlanes obs) \<le> min max_size ((2 ^ 63 - 1) div 8)"
  using Configure_inv[OF assms] by (simp add: empty_slot_def)

definition ds_example :: "ObservationDescriptor list" where
  "ds_example = [\<lparr>stableOrdinal = 0, ownerKey = 0, registrationKey = 0, siteKey = 0, od_kind = Event, groupIndex = 0, groupSize = 1, payloadWidth = 70\<rparr>,
     \<lparr>stableOrdinal = 1, ownerKey = 0, registrationKey = 0, siteKey = 1, od_kind = Gauge, groupIndex = 0, groupSize = 1, payloadWidth = 8\<rparr>]"

definition obs_example :: ObservationSlots where
  "obs_example = fst (Configure 1000 ds_example 4 new_slots)"

lemma configure_example: "Configure 1000 ds_example 4 new_slots = (obs_example, True)"
  by (simp add: obs_example_def Configure_def new_slots_def ds_example_def keys_ok_def key_less_def key_def groups_ok.simps payload_words_def
      upt_rec)

theorem configure_establishes_inventory_witness: "obs_inv obs_example \<and> descriptors obs_example = ds_example"
  using configure_establishes_inventory[OF configure_example] by blast

text \<open>C22.  Staging a packed value succeeds exactly on a free slot of that width; a refused call changes
  nothing.  A successful one records the value of that slot only: the words read back are the value masked
  to its known bits, the known mask and the high-impedance mask (or the scalar for a short known value),
  and no other staged value, committed event or gauge changes.\<close>

theorem stage_packed:
  assumes "obs_inv obs" "fs_wf w f" "StagePacked w slot f eventBool valid path epoch obs = (obs', ok)"
  shows "ok = (slot < length (slots obs) \<and> \<not> os_pending (slots obs ! slot) \<and> payloadWidth (descriptors obs ! slot) = w) \<and>
    (if ok then staged slot (packed_value w f eventBool) valid path epoch obs obs' else obs' = obs)"
proof (cases "slot < length (slots obs) \<and> \<not> os_pending (slots obs ! slot) \<and> payloadWidth (descriptors obs ! slot) = w")
  case False
  then show ?thesis using assms(3) by (auto simp: StagePacked_def split: if_splits)
next
  case True
  have "\<exists>obs'. StagePacked w slot f eventBool valid path epoch obs = (obs', True) \<and> staged slot (packed_value w f eventBool) valid path epoch obs obs'"
  proof (cases "w \<le> 64 \<and> fs_isFullyKnown w f")
    case known: True
    define v where "v = (if eventBool then SlotValue_Bool (toBool (fs_value f)) else SlotValue_Unsigned (bits_value (fs_value f)))"
    have "StagePacked w slot f eventBool valid path epoch obs = Stage slot v valid path epoch obs"
      using True known assms(1) by (auto simp: StagePacked_def v_def obs_inv_def inventory_ok_def)
    moreover have "sv_kind v \<noteq> SlotBits4" "content obs v = packed_value w f eventBool"
      using known by (simp_all add: v_def content_def packed_value_def SlotValue_Bool_def SlotValue_Unsigned_def slot_scalar_def)
    ultimately show ?thesis using Stage_scalar[OF assms(1), of slot v] True by simp
  next
    case unknown: False
    have "packed_value w f eventBool = packed_content w f" using unknown by (auto simp: packed_value_def)
    then show ?thesis using StagePacked_planes[OF assms(1) _ _ _ assms(2) unknown, of slot] True by simp
  qed
  then show ?thesis using True assms(3) by auto
qed

lemma example_slots: "obs_inv obs_example" "length (slots obs_example) = 2" "descriptors obs_example = ds_example"
  "eventCapacity obs_example = 4" "\<not> os_pending (slots obs_example ! i)" if "i < 2" for i
  using Configure_inv(1-4)[OF configure_example] that by (auto simp: ds_example_def empty_slot_def less_2_cases_iff)

theorem stage_packed_witness:
  "snd (StagePacked 70 0 (fs_unknown 70) False True True 5 obs_example) \<and>
   slot_view (fst (StagePacked 70 0 (fs_unknown 70) False True True 5 obs_example)) 0 = (True, True, True, 5, packed_content 70 (fs_unknown 70))"
proof -
  obtain obs' ok where s: "StagePacked 70 0 (fs_unknown 70) False True True 5 obs_example = (obs', ok)"
    by (cases "StagePacked 70 0 (fs_unknown 70) False True True 5 obs_example") blast
  have "ok" "staged 0 (packed_value 70 (fs_unknown 70) False) True True 5 obs_example obs'"
    using stage_packed[OF example_slots(1)[of 0] _ s] example_slots[of 0] by (simp_all add: ds_example_def)
  then show ?thesis using s example_slots[of 0] by (simp add: staged_def packed_value_def)
qed

text \<open>C23.  The group check always returns on a configured inventory, and its answer is exact: every slot
  agrees with its group on pending, epoch, path and validity, the values a group commits are of a kind the
  descriptor allows, and the active events fit the capacity.\<close>

theorem precommit_returns:
  assumes "obs_inv obs"
  shows "obs_Precommit e obs = Some ((\<forall>i < length (slots obs). slot_ready obs (Some e) i) \<and>
    length (filter (event_active obs) [0..<length (slots obs)]) \<le> eventCapacity obs)"
  using assms by (simp add: obs_Precommit_def precommit_eq obs_inv_def)

theorem precommit_returns_witness: "obs_Precommit 5 obs_example = Some True"
proof -
  have "slot_ready obs_example (Some 5) i" if "i < 2" for i
  proof -
    have "group_start ds_example i < 2" using that by (simp add: group_start_def)
    then show ?thesis using example_slots[OF that] example_slots(5)[of "group_start ds_example i"] by (simp add: slot_ready_def Let_def)
  qed
  moreover have "filter (event_active obs_example) [0..<2] = []"
    using example_slots(5) by (auto simp: filter_empty_conv event_active_def slot_active_def)
  ultimately show ?thesis using precommit_returns[OF example_slots(1)[of 0], of 5] example_slots[of 0] by simp
qed

text \<open>C6.  A transfer after a successful precommit loses nothing.  The committed events are exactly the
  active event slots in slot order, with the contents that were staged; each gauge takes its active
  staged value and the new epoch and otherwise keeps its own; all slots are free again and the invariant is
  kept.  The slots of a group are committed together or not at all.\<close>

theorem transfer_commits_staged:
  assumes "obs_inv obs" "obs_Precommit e obs = Some True" "e \<noteq> - 1"
  shows "obs_inv (obs_Xfer (e + 1) obs) \<and> slots (obs_Xfer (e + 1) obs) = map (\<lambda>_. empty_slot) (slots obs) \<and>
    events_view (obs_Xfer (e + 1) obs) =
      map (\<lambda>i. (e + 1, descriptors obs ! i, content obs (os_value (slots obs ! i)))) (filter (event_active obs) [0..<length (slots obs)]) \<and>
    (\<forall>i g. i < length (slots obs) \<longrightarrow> gaugeIndexBySlot obs ! i = Some g \<longrightarrow> gauges_view (obs_Xfer (e + 1) obs) ! g =
       (if slot_active obs i then (gs_stableOrdinal (gauges obs ! g), content obs (os_value (slots obs ! i)), e + 1) else gauges_view obs ! g)) \<and>
    (\<forall>i j. i < length (slots obs) \<longrightarrow> j < length (slots obs) \<longrightarrow> group_start (descriptors obs) i = group_start (descriptors obs) j \<longrightarrow>
       slot_active obs i = slot_active obs j)"
  by (intro conjI allI impI; (rule xfer_commit(1,3-5)[OF assms] group_all_or_none[OF assms(1,2)]; assumption?))

theorem transfer_commits_staged_witness:
  "events_view (obs_Xfer 6 (fst (StagePacked 70 0 (fs_unknown 70) False True True 5 obs_example))) =
     [(6, hd ds_example, packed_content 70 (fs_unknown 70))]"
proof -
  obtain obs where s: "StagePacked 70 0 (fs_unknown 70) False True True 5 obs_example = (obs, True)"
    "staged 0 (packed_content 70 (fs_unknown 70)) True True 5 obs_example obs"
    using StagePacked_planes[OF example_slots(1), of 0 0 70 "fs_unknown 70" False True True 5] example_slots[of 0]
    by (auto simp: ds_example_def)
  have inv: "obs_inv obs" and ds: "descriptors obs = ds_example" and cap: "eventCapacity obs = 4"
    and v: "slot_view obs 0 = (True, True, True, 5, packed_content 70 (fs_unknown 70))" "slot_view obs 1 = slot_view obs_example 1"
    using s(2) example_slots[of 0] by (simp_all add: staged_def)
  have n: "length (slots obs) = 2" using inv ds by (simp add: obs_inv_def inventory_ok_def ds_example_def)
  have p: "os_pending (slots obs ! 0)" "os_valid (slots obs ! 0)" "os_path (slots obs ! 0)" "os_evaluationEpoch (slots obs ! 0) = 5"
    "content obs (os_value (slots obs ! 0)) = packed_content 70 (fs_unknown 70)" "\<not> os_pending (slots obs ! 1)"
    using v example_slots(5)[of 1] by (simp_all add: slot_view_def Let_def)
  have two: "i < 2 \<longleftrightarrow> i = 0 \<or> i = 1" for i :: nat by auto
  have "canonical_content (packed_content 70 (fs_unknown 70))" by (rule packed_canonical) simp
  then have "value_ok obs 0" using p(5) ds by (simp add: value_ok_def isCanonicalBits4_content ds_example_def)
  then have "\<forall>i<2. slot_ready obs (Some 5) i"
    using p unfolding two by (auto simp: slot_ready_def group_start_def ds ds_example_def Let_def)
  moreover have act: "filter (event_active obs) [0..<2] = [0]"
    using p ds by (simp add: event_active_def slot_active_def ds_example_def upt_rec)
  ultimately have "obs_Precommit 5 obs = Some True" using inv n cap by (simp add: obs_Precommit_def precommit_eq obs_inv_def)
  moreover have "(5::u64) \<noteq> - 1" by simp
  ultimately have "events_view (obs_Xfer (5 + 1) obs) =
      map (\<lambda>i. (5 + 1, descriptors obs ! i, content obs (os_value (slots obs ! i)))) (filter (event_active obs) [0..<length (slots obs)])"
    using transfer_commits_staged[OF inv] by blast
  then show ?thesis using act p(5) n s(1) ds by (simp add: ds_example_def)
qed

end
