(* ===== verification/Gfsim_System.thy ===== *)
theory Gfsim_System
  imports Gfsim_Dff Gfsim_ByteMem Gfsim_Observation
begin

text \<open>
  The module lifecycle of \<^verbatim>\<open>include/gfsim/SimObj.h\<close> and \<^verbatim>\<open>include/gfsim/SimModule.h\<close> and the
  system of \<^verbatim>\<open>include/gfsim/SimSystem.h\<close> that steps a list of root modules.  The modules live in a
  world: a store of any type and the observation slots that modules stage into.  The virtual functions of the
  modules are a record \<open>sim_ops\<close>, indexed by the module, and the virtual functions that a derived system
  overrides are a record \<open>sim_virtuals\<close>.  They see the world, in whose store a derived system keeps its own
  members: an emitted \<open>Precheck\<close> leaves the source failure there that \<open>DescribeFailure\<close> returns.  A step returns \<open>None\<close> only when the group check of the
  observation slots does not return.

  The locale \<open>module_contract\<close> states what a module promises the system: \<open>Work\<close> and \<open>DiscardNext\<close>
  leave the committed state alone, and a module with nothing staged transfers nothing.  The system's lemmas
  are proved once from it.  The storage leaves of the runtime fulfil the contract; \<open>leaf\<close> is the store of
  a system made of them.
\<close>

subsection \<open>The system\<close>

datatype SimSystemState = PreBuild | Built | Ready | Failed

datatype SimStepResult = StepInvalidState | StepRunning | StepQuiescent | StepFailed

datatype SimFailurePhase = PhaseNone | PhaseBuild | PhaseEvaluate | PhaseCheck | PhaseDrive | PhaseXfer

record SimFailureInfo =
  fi_phase :: SimFailurePhase
  fi_code :: string
  fi_message :: string
  fi_instance :: string
  fi_sourceJson :: string
  fi_checkIdJson :: string

definition no_failure :: SimFailureInfo where
  "no_failure = \<lparr>fi_phase = PhaseNone, fi_code = [], fi_message = [], fi_instance = [], fi_sourceJson = [], fi_checkIdJson = []\<rparr>"

definition DescribeFailure :: "SimFailurePhase \<Rightarrow> SimFailureInfo" where
  "DescribeFailure phase = (case phase of
     PhaseBuild \<Rightarrow> no_failure\<lparr>fi_phase := phase, fi_code := ''runtime_failure'', fi_message := ''model Build failed''\<rparr>
   | PhaseEvaluate \<Rightarrow> no_failure\<lparr>fi_phase := phase, fi_code := ''runtime_failure'', fi_message := ''model evaluation failed''\<rparr>
   | PhaseCheck \<Rightarrow> no_failure\<lparr>fi_phase := phase, fi_code := ''runtime_failure'', fi_message := ''model check failed''\<rparr>
   | PhaseDrive \<Rightarrow> no_failure\<lparr>fi_phase := phase, fi_code := ''runtime_failure'', fi_message := ''model drive failed''\<rparr>
   | PhaseXfer \<Rightarrow> no_failure\<lparr>fi_phase := phase, fi_code := ''runtime_failure'', fi_message := ''model transfer failed''\<rparr>
   | PhaseNone \<Rightarrow> no_failure)"

record 's world =
  w_store :: 's
  w_obs :: ObservationSlots

record 's sim_ops =
  op_Build :: "nat \<Rightarrow> 's world \<Rightarrow> 's world \<times> exn option"
  op_Work :: "nat \<Rightarrow> 's world \<Rightarrow> 's world \<times> exn option"
  op_Xfer :: "nat \<Rightarrow> 's world \<Rightarrow> 's world"
  op_DiscardNext :: "nat \<Rightarrow> 's world \<Rightarrow> 's world"
  op_Reset :: "nat \<Rightarrow> 's world \<Rightarrow> 's world"
  op_ReportStat :: "nat \<Rightarrow> 's world \<Rightarrow> 's world"
  op_HasWork :: "nat \<Rightarrow> 's world \<Rightarrow> bool"

record 's sim_virtuals =
  vt_FinalizeBuild :: "'s world \<Rightarrow> 's world \<times> bool"
  vt_Precheck :: "'s world \<Rightarrow> 's world \<times> bool"
  vt_DescribeFailure :: "'s world \<Rightarrow> SimFailurePhase \<Rightarrow> SimFailureInfo"

record SimSystem =
  sys_roots :: "nat list"
  sys_observations :: "nat option"
  sys_state :: SimSystemState
  sys_cycle :: u64
  sys_buildCompleted :: bool
  sys_failureInfo :: SimFailureInfo

definition new_system :: SimSystem where
  "new_system = \<lparr>sys_roots = [], sys_observations = None, sys_state = PreBuild, sys_cycle = 0, sys_buildCompleted = False,
     sys_failureInfo = no_failure\<rparr>"

definition AttachObservations :: "nat \<Rightarrow> SimSystem \<Rightarrow> SimSystem \<times> bool" where
  "AttachObservations observations sys =
     (if sys_state sys \<noteq> PreBuild \<or> sys_observations sys \<noteq> None then (sys, False)
      else (sys\<lparr>sys_observations := Some observations\<rparr>, True))"

definition HasObservations :: "nat \<Rightarrow> SimSystem \<Rightarrow> bool" where
  "HasObservations observations sys = (sys_observations sys = Some observations)"

definition AddModule :: "nat \<Rightarrow> SimSystem \<Rightarrow> SimSystem \<times> bool" where
  "AddModule module sys =
     (if sys_state sys \<noteq> PreBuild \<or> module \<in> set (sys_roots sys) then (sys, False)
      else (sys\<lparr>sys_roots := sys_roots sys @ [module]\<rparr>, True))"

definition discardAll :: "'s sim_ops \<Rightarrow> SimSystem \<Rightarrow> 's world \<Rightarrow> 's world" where
  "discardAll ops sys w =
     (let w = fold (op_DiscardNext ops) (sys_roots sys) w
      in if sys_observations sys \<noteq> None then w\<lparr>w_obs := obs_DiscardNext (w_obs w)\<rparr> else w)"

definition sys_fail :: "'s sim_ops \<Rightarrow> 's sim_virtuals \<Rightarrow> SimFailurePhase \<Rightarrow> SimSystem \<Rightarrow> 's world \<Rightarrow> SimSystem \<times> 's world" where
  "sys_fail ops vt phase sys w =
     (let w = discardAll ops sys w
      in (sys\<lparr>sys_failureInfo := vt_DescribeFailure vt w phase, sys_state := Failed\<rparr>, w))"

text \<open>A loop over the modules that stops at the first exception.\<close>

fun each_module :: "(nat \<Rightarrow> 's world \<Rightarrow> 's world \<times> exn option) \<Rightarrow> nat list \<Rightarrow> 's world \<Rightarrow> 's world \<times> exn option" where
  "each_module f [] w = (w, None)"
| "each_module f (m # ms) w = (case f m w of (w', None) \<Rightarrow> each_module f ms w' | (w', Some e) \<Rightarrow> (w', Some e))"

definition sys_Build :: "'s sim_ops \<Rightarrow> 's sim_virtuals \<Rightarrow> SimSystem \<Rightarrow> 's world \<Rightarrow> SimSystem \<times> 's world" where
  "sys_Build ops vt sys w =
     (if sys_state sys \<noteq> PreBuild then (sys, w)
      else case each_module (op_Build ops) (sys_roots sys) w of
             (w, Some e) \<Rightarrow> sys_fail ops vt PhaseBuild sys w
           | (w, None) \<Rightarrow>
               (case vt_FinalizeBuild vt w of (w, ok) \<Rightarrow>
                  if \<not> ok then sys_fail ops vt PhaseBuild sys w
                  else (sys\<lparr>sys_buildCompleted := True, sys_state := Built\<rparr>, w)))"

definition sys_Work :: "'s sim_ops \<Rightarrow> SimSystem \<Rightarrow> 's world \<Rightarrow> 's world \<times> exn option" where
  "sys_Work ops sys w = each_module (op_Work ops) (sys_roots sys) w"

definition sys_Xfer :: "'s sim_ops \<Rightarrow> 's sim_virtuals \<Rightarrow> SimSystem \<Rightarrow> 's world \<Rightarrow> (SimSystem \<times> 's world \<times> bool) option" where
  "sys_Xfer ops vt sys w =
     (if sys_state sys = Failed then Some (sys, discardAll ops sys w, False)
      else case vt_Precheck vt w of (w, accepted) \<Rightarrow>
        case (if sys_observations sys \<noteq> None then obs_Precommit (sys_cycle sys) (w_obs w) else Some True) of
          None \<Rightarrow> None
        | Some precommit \<Rightarrow>
            if \<not> (accepted \<and> precommit)
            then let w = discardAll ops sys w
                 in Some (sys\<lparr>sys_failureInfo := vt_DescribeFailure vt w PhaseCheck, sys_state := Failed\<rparr>, w, False)
            else let w = fold (op_Xfer ops) (sys_roots sys) w;
                     sys = sys\<lparr>sys_cycle := sys_cycle sys + 1\<rparr>;
                     w = (if sys_observations sys \<noteq> None then w\<lparr>w_obs := obs_Xfer (sys_cycle sys) (w_obs w)\<rparr> else w)
                 in Some (sys, w, True))"

definition sys_Step :: "'s sim_ops \<Rightarrow> 's sim_virtuals \<Rightarrow> SimSystem \<Rightarrow> 's world \<Rightarrow> (SimSystem \<times> 's world \<times> SimStepResult) option" where
  "sys_Step ops vt sys w =
     (if sys_state sys = Failed then Some (sys, w, StepFailed)
      else if sys_state sys \<noteq> Ready then Some (sys, w, StepInvalidState)
      else if \<not> list_ex (\<lambda>m. op_HasWork ops m w) (sys_roots sys) then Some (sys, w, StepQuiescent)
      else if sys_cycle sys = - 1
      then (case sys_fail ops vt PhaseEvaluate sys w of (sys, w) \<Rightarrow> Some (sys, w, StepFailed))
      else case (case sys_Work ops sys w of
                   (w, None) \<Rightarrow> (sys, w)
                 | (w, Some e) \<Rightarrow> (sys\<lparr>sys_failureInfo := vt_DescribeFailure vt w PhaseEvaluate, sys_state := Failed\<rparr>, w)) of
        (sys, w) \<Rightarrow>
          (case sys_Xfer ops vt sys w of
             None \<Rightarrow> None
           | Some (sys, w, ok) \<Rightarrow> Some (sys, w, if ok then StepRunning else StepFailed)))"

definition sys_Reset :: "'s sim_ops \<Rightarrow> SimSystem \<Rightarrow> 's world \<Rightarrow> SimSystem \<times> 's world" where
  "sys_Reset ops sys w =
     (if sys_state sys \<noteq> Built \<and> sys_state sys \<noteq> Ready \<and> \<not> (sys_state sys = Failed \<and> sys_buildCompleted sys) then (sys, w)
      else let w = discardAll ops sys w;
               w = fold (op_Reset ops) (sys_roots sys) w;
               w = fold (op_Xfer ops) (sys_roots sys) w;
               w = (if sys_observations sys \<noteq> None then w\<lparr>w_obs := obs_Reset (w_obs w)\<rparr> else w)
           in (sys\<lparr>sys_cycle := 0, sys_failureInfo := no_failure, sys_state := Ready\<rparr>, w))"

definition sys_ReportStat :: "'s sim_ops \<Rightarrow> SimSystem \<Rightarrow> 's world \<Rightarrow> 's world" where
  "sys_ReportStat ops sys w = fold (op_ReportStat ops) (sys_roots sys) w"

subsection \<open>What a module promises\<close>

text \<open>\<open>committed\<close> is the part of the world that a failed step must not change, and \<open>clean m\<close> says that
  module \<open>m\<close> has nothing staged.\<close>

definition obs_committed :: "ObservationSlots \<Rightarrow> (u64 \<times> ObservationDescriptor \<times> slot_content) list \<times> (nat \<times> slot_content \<times> u64) list" where
  "obs_committed obs = (events_view obs, gauges_view obs)"

lemma content_DiscardNext: "content (obs_DiscardNext obs) = content obs"
proof -
  have "plane_words (obs_DiscardNext obs) r = plane_words obs r" for r by (cases r) (simp_all add: obs_DiscardNext_def)
  then show ?thesis by (simp add: content_def fun_eq_iff)
qed

lemma obs_DiscardNext_facts:
  shows "obs_committed (obs_DiscardNext obs) = obs_committed obs" "obs_inv obs \<Longrightarrow> obs_inv (obs_DiscardNext obs)"
    "i < length (slots obs) \<Longrightarrow> \<not> os_pending (slots (obs_DiscardNext obs) ! i)"
proof -
  show "obs_committed (obs_DiscardNext obs) = obs_committed obs"
    by (simp add: obs_committed_def events_view_def gauges_view_def content_DiscardNext) (simp add: obs_DiscardNext_def)
  show "i < length (slots obs) \<Longrightarrow> \<not> os_pending (slots (obs_DiscardNext obs) ! i)" by (simp add: obs_DiscardNext_def empty_slot_def)
  have "planeView (obs_DiscardNext obs) = planeView obs" by (rule planeView_cong) (simp add: obs_DiscardNext_def)
  then show "obs_inv (obs_DiscardNext obs)" if "obs_inv obs"
    using that by (auto simp: obs_inv_def views_ok_def inventory_ok_def obs_DiscardNext_def empty_slot_def slot_scalar_def)
qed

lemma obs_Reset_inv: "obs_inv obs \<Longrightarrow> obs_inv (obs_Reset obs)"
proof -
  assume "obs_inv obs"
  then have i: "obs_inv (obs_DiscardNext obs)" by (rule obs_DiscardNext_facts(2))
  have "planeView (obs_Reset obs) = planeView (obs_DiscardNext obs)" by (rule planeView_cong) (simp add: obs_Reset_def Let_def)
  then show ?thesis using i
    by (auto simp: obs_inv_def views_ok_def inventory_ok_def obs_Reset_def Let_def SlotValue_Unsigned_def slot_scalar_def)
qed

text \<open>After a failed step the committed part is as before and nothing is staged.\<close>

definition rolled_back :: "('s \<Rightarrow> 'c) \<Rightarrow> (nat \<Rightarrow> 's \<Rightarrow> bool) \<Rightarrow> SimSystem \<Rightarrow> 's world \<Rightarrow> 's world \<Rightarrow> bool" where
  "rolled_back committed clean sys w w' \<longleftrightarrow> committed (w_store w') = committed (w_store w) \<and> (\<forall>m\<in>set (sys_roots sys). clean m (w_store w')) \<and>
     (obs_inv (w_obs w) \<longrightarrow> obs_inv (w_obs w') \<and> obs_committed (w_obs w') = obs_committed (w_obs w))"

locale module_contract =
  fixes ops :: "'s sim_ops" and vt :: "'s sim_virtuals" and committed :: "'s \<Rightarrow> 'c" and clean :: "nat \<Rightarrow> 's \<Rightarrow> bool"
  assumes work_committed: "committed (w_store (fst (op_Work ops m w))) = committed (w_store w)"
    and work_obs: "obs_inv (w_obs w) \<Longrightarrow> obs_inv (w_obs (fst (op_Work ops m w))) \<and>
      obs_committed (w_obs (fst (op_Work ops m w))) = obs_committed (w_obs w)"
    and discard_committed: "committed (w_store (op_DiscardNext ops m w)) = committed (w_store w)"
    and discard_obs: "w_obs (op_DiscardNext ops m w) = w_obs w"
    and discard_clean: "clean m (w_store (op_DiscardNext ops m w))"
    and discard_keeps: "clean n (w_store w) \<Longrightarrow> clean n (w_store (op_DiscardNext ops m w))"
    and xfer_obs: "w_obs (op_Xfer ops m w) = w_obs w"
    and xfer_clean: "clean m (w_store w) \<Longrightarrow> committed (w_store (op_Xfer ops m w)) = committed (w_store w)"
    and reset_obs: "w_obs (op_Reset ops m w) = w_obs w"
    and precheck_committed: "committed (w_store (fst (vt_Precheck vt w))) = committed (w_store w) \<and> w_obs (fst (vt_Precheck vt w)) = w_obs w"
begin

lemma each_work:
  "each_module (op_Work ops) ms w = (w', e) \<Longrightarrow> committed (w_store w') = committed (w_store w) \<and>
     (obs_inv (w_obs w) \<longrightarrow> obs_inv (w_obs w') \<and> obs_committed (w_obs w') = obs_committed (w_obs w))"
proof (induction ms arbitrary: w)
  case (Cons m ms)
  obtain w1 e1 where w1: "op_Work ops m w = (w1, e1)" by (cases "op_Work ops m w")
  then have "committed (w_store w1) = committed (w_store w)" "obs_inv (w_obs w) \<Longrightarrow> obs_inv (w_obs w1) \<and> obs_committed (w_obs w1) = obs_committed (w_obs w)"
    using work_committed[of m w] work_obs[of w m] by simp_all
  then show ?case using Cons.IH[of w1] Cons.prems w1 by (cases e1) auto
qed simp

lemma discard_all:
  "committed (w_store (fold (op_DiscardNext ops) ms w)) = committed (w_store w) \<and> w_obs (fold (op_DiscardNext ops) ms w) = w_obs w \<and>
   (\<forall>m. m \<in> set ms \<or> clean m (w_store w) \<longrightarrow> clean m (w_store (fold (op_DiscardNext ops) ms w)))"
proof (induction ms arbitrary: w)
  case (Cons m ms)
  show ?case using Cons.IH[of "op_DiscardNext ops m w"] discard_committed[of m w] discard_obs[of m w] discard_clean[of m w] discard_keeps[of _ w m]
    by auto
qed simp

lemma fold_obs: "w_obs (fold (op_Xfer ops) ms w) = w_obs w" "w_obs (fold (op_Reset ops) ms w) = w_obs w"
  by (induction ms arbitrary: w) (simp_all add: xfer_obs reset_obs)

lemma discardAll_rolls_back:
  assumes "committed (w_store w1) = committed (w_store w)" "obs_inv (w_obs w) \<Longrightarrow> obs_inv (w_obs w1) \<and> obs_committed (w_obs w1) = obs_committed (w_obs w)"
  shows "rolled_back committed clean sys w (discardAll ops sys w1)"
  using assms discard_all[of "sys_roots sys" w1] obs_DiscardNext_facts(1,2)
  by (auto simp: rolled_back_def discardAll_def Let_def)

lemma step_outcome:
  assumes st: "sys_Step ops vt sys w = Some (sys', w', r)" and ready: "sys_state sys = Ready"
  shows "case r of
      StepInvalidState \<Rightarrow> False
    | StepQuiescent \<Rightarrow> sys' = sys \<and> w' = w
    | StepFailed \<Rightarrow> sys_state sys' = Failed \<and> sys_cycle sys' = sys_cycle sys \<and> rolled_back committed clean sys w w'
    | StepRunning \<Rightarrow> sys_state sys' = Ready \<and> sys_cycle sys \<noteq> - 1 \<and> sys_cycle sys' = sys_cycle sys + 1 \<and>
        (\<exists>w1 w2. each_module (op_Work ops) (sys_roots sys) w = (w1, None) \<and> vt_Precheck vt w1 = (w2, True) \<and>
          w_store w' = w_store (fold (op_Xfer ops) (sys_roots sys) w2) \<and>
          w_obs w' = (if sys_observations sys = None then w_obs w2 else obs_Xfer (sys_cycle sys + 1) (w_obs w2)) \<and>
          (sys_observations sys \<noteq> None \<longrightarrow> obs_Precommit (sys_cycle sys) (w_obs w2) = Some True))"
proof -
  consider (quiet) "\<not> list_ex (\<lambda>m. op_HasWork ops m w) (sys_roots sys)"
    | (over) "list_ex (\<lambda>m. op_HasWork ops m w) (sys_roots sys)" "sys_cycle sys = - 1"
    | (work) "list_ex (\<lambda>m. op_HasWork ops m w) (sys_roots sys)" "sys_cycle sys \<noteq> - 1" by blast
  then show ?thesis
  proof cases
    case quiet
    then show ?thesis using st ready by (simp add: sys_Step_def)
  next
    case over
    then show ?thesis using st ready discardAll_rolls_back[of w w sys] by (auto simp: sys_Step_def sys_fail_def Let_def)
  next
    case work
    obtain w1 e where w1: "each_module (op_Work ops) (sys_roots sys) w = (w1, e)" by (cases "each_module (op_Work ops) (sys_roots sys) w")
    note ew = each_work[OF w1]
    show ?thesis
    proof (cases e)
      case (Some x)
      then have "rolled_back committed clean sys w (discardAll ops sys w1)" using discardAll_rolls_back[of w1 w sys] ew by blast
      moreover have "discardAll ops (sys\<lparr>sys_failureInfo := i, sys_state := Failed\<rparr>) w1 = discardAll ops sys w1" for i by (simp add: discardAll_def)
      ultimately show ?thesis using st ready work w1 Some by (auto simp: sys_Step_def sys_Work_def sys_Xfer_def)
    next
      case None
      obtain w2 acc where w2: "vt_Precheck vt w1 = (w2, acc)" by (cases "vt_Precheck vt w1")
      have pre: "committed (w_store w2) = committed (w_store w)" "w_obs w2 = w_obs w1" using precheck_committed[of w1] ew w2 by auto
      have rb: "rolled_back committed clean sys w (discardAll ops sys w2)" using discardAll_rolls_back[of w2 w sys] pre ew by simp
      show ?thesis using st ready work w1 None w2 rb
        by (auto simp: sys_Step_def sys_Work_def sys_Xfer_def Let_def fold_obs split: if_splits option.splits)
    qed
  qed
qed

lemma step_returns:
  assumes "obs_inv (w_obs w)"
  shows "\<exists>r. sys_Step ops vt sys w = Some r"
proof -
  obtain w1 e where w1: "sys_Work ops sys w = (w1, e)" by (cases "sys_Work ops sys w")
  then have "obs_inv (w_obs w1)" using each_work[of "sys_roots sys" w w1 e] assms by (simp add: sys_Work_def)
  moreover obtain w2 acc where w2: "vt_Precheck vt w1 = (w2, acc)" by (cases "vt_Precheck vt w1")
  moreover have "w_obs w2 = w_obs w1" using precheck_committed[of w1] w2 by simp
  ultimately have "\<exists>b. obs_Precommit (sys_cycle sys) (w_obs w2) = Some b" by (simp add: obs_Precommit_def precommit_eq obs_inv_def)
  then show ?thesis using w1 w2 by (cases e) (auto simp: sys_Step_def sys_fail_def sys_Xfer_def Let_def)
qed

end

subsection \<open>Systems of storage leaves\<close>

datatype leaf =
    LModule
  | LDffe "four_state dffe"
  | LDff "four_state dff"
  | LSync mem_params sync_mem
  | LSyncDp mem_params sync_mem_dp
  | LByte bm_params byte_mem

fun leaf_Work :: "leaf \<Rightarrow> leaf \<times> exn option" where
  "leaf_Work LModule = (LModule, None)"
| "leaf_Work (LDffe m) = (case dffe_Work m of (m', e) \<Rightarrow> (LDffe m', e))"
| "leaf_Work (LDff m) = (case dff_Work m of (m', e) \<Rightarrow> (LDff m', e))"
| "leaf_Work (LSync P m) = (case sync_mem_Work P m of (m', e) \<Rightarrow> (LSync P m', e))"
| "leaf_Work (LSyncDp P m) = (case sync_mem_dp_Work P m of (m', e) \<Rightarrow> (LSyncDp P m', e))"
| "leaf_Work (LByte P m) = (case byte_mem_Work P m of (m', e) \<Rightarrow> (LByte P m', e))"

fun leaf_Xfer :: "leaf \<Rightarrow> leaf" where
  "leaf_Xfer LModule = LModule"
| "leaf_Xfer (LDffe m) = LDffe (dffe_Xfer m)"
| "leaf_Xfer (LDff m) = LDff (dff_Xfer m)"
| "leaf_Xfer (LSync P m) = LSync P (sync_mem_Xfer P m)"
| "leaf_Xfer (LSyncDp P m) = LSyncDp P (sync_mem_dp_Xfer P m)"
| "leaf_Xfer (LByte P m) = LByte P (byte_mem_Xfer P m)"

fun leaf_DiscardNext :: "leaf \<Rightarrow> leaf" where
  "leaf_DiscardNext LModule = LModule"
| "leaf_DiscardNext (LDffe m) = LDffe (dffe_DiscardNext m)"
| "leaf_DiscardNext (LDff m) = LDff (dff_DiscardNext m)"
| "leaf_DiscardNext (LSync P m) = LSync P (sync_mem_DiscardNext P m)"
| "leaf_DiscardNext (LSyncDp P m) = LSyncDp P (sync_mem_dp_DiscardNext P m)"
| "leaf_DiscardNext (LByte P m) = LByte P (byte_mem_DiscardNext P m)"

fun leaf_Reset :: "leaf \<Rightarrow> leaf" where
  "leaf_Reset LModule = LModule"
| "leaf_Reset (LDffe m) = LDffe (dffe_Reset m)"
| "leaf_Reset (LDff m) = LDff (dff_Reset m)"
| "leaf_Reset (LSync P m) = LSync P (sync_mem_Reset P m)"
| "leaf_Reset (LSyncDp P m) = LSyncDp P (sync_mem_dp_Reset P m)"
| "leaf_Reset (LByte P m) = LByte P (byte_mem_Reset P m)"

fun leaf_HasWork :: "leaf \<Rightarrow> bool" where
  "leaf_HasWork LModule = False"
| "leaf_HasWork _ = True"

definition at_leaf :: "(leaf \<Rightarrow> leaf) \<Rightarrow> nat \<Rightarrow> leaf list world \<Rightarrow> leaf list world" where
  "at_leaf f i w = w\<lparr>w_store := (w_store w)[i := f (w_store w ! i)]\<rparr>"

definition leaf_ops :: "leaf list sim_ops" where
  "leaf_ops = \<lparr>op_Build = (\<lambda>i w. (w, None)),
     op_Work = (\<lambda>i w. (at_leaf (fst \<circ> leaf_Work) i w, if i < length (w_store w) then snd (leaf_Work (w_store w ! i)) else None)),
     op_Xfer = at_leaf leaf_Xfer, op_DiscardNext = at_leaf leaf_DiscardNext, op_Reset = at_leaf leaf_Reset,
     op_ReportStat = (\<lambda>i w. w), op_HasWork = (\<lambda>i w. i < length (w_store w) \<and> leaf_HasWork (w_store w ! i))\<rparr>"

definition plain_system :: "('s world \<Rightarrow> bool) \<Rightarrow> 's sim_virtuals" where
  "plain_system check = \<lparr>vt_FinalizeBuild = (\<lambda>w. (w, True)), vt_Precheck = (\<lambda>w. (w, check w)), vt_DescribeFailure = (\<lambda>_. DescribeFailure)\<rparr>"

datatype leaf_view = VModule | VReg "four_state dffe_current" four_state | VMem mem_current "four_state list" | VByte bm_current

fun leaf_committed :: "leaf \<Rightarrow> leaf_view" where
  "leaf_committed LModule = VModule"
| "leaf_committed (LDffe m) = VReg (dffe_cur m) (dffe_q m)"
| "leaf_committed (LDff m) = VReg (dff_cur m) (dff_q m)"
| "leaf_committed (LSync P m) = VMem (sm_current m) [sm_rdata m, sm_rlive m]"
| "leaf_committed (LSyncDp P m) = VMem (md_current m) [md_rdata0 m, md_rdata1 m, md_rlive0 m, md_rlive1 m]"
| "leaf_committed (LByte P m) = VByte (bm_cur m)"

fun leaf_clean :: "leaf \<Rightarrow> bool" where
  "leaf_clean LModule = True"
| "leaf_clean (LDffe m) = (\<not> dp_valid (dffe_pend m))"
| "leaf_clean (LDff m) = (\<not> dp_valid (dff_pend m))"
| "leaf_clean (LSync P m) = (\<not> mp_valid (sm_pending m))"
| "leaf_clean (LSyncDp P m) = (\<not> mp_valid (md_pending m))"
| "leaf_clean (LByte P m) = (\<not> bp_valid (bm_pend m))"

lemma dffe_outs: "k_work dffe_kernel c i p out = (p', out', e) \<Longrightarrow> out' = out" "k_work dff_kernel c j p out = (p', out', e) \<Longrightarrow> out' = out"
  by (auto simp: dffe_kernel_def dff_kernel_def dffe_work_def Let_def split: if_splits)

lemma leaf_Work_committed: "leaf_committed (fst (leaf_Work l)) = leaf_committed l"
proof (cases l)
  case (LDffe m)
  then show ?thesis using dffe_outs(1) by (auto simp: dffe_Work_def split: prod.splits)
next
  case (LDff m)
  then show ?thesis using dffe_outs(2) by (auto simp: dff_Work_def split: prod.splits)
next
  case (LSync P m)
  then show ?thesis 
    by (auto simp: sync_mem_Work_def sync_mem_set_outs_def sync_mem_outs_def split: prod.splits dest!: mem_work_outs)
next
  case (LSyncDp P m)
  then show ?thesis 
    by (auto simp: sync_mem_dp_Work_def sync_mem_dp_set_outs_def sync_mem_dp_outs_def split: prod.splits dest!: mem_work_outs)
next
  case (LByte P m)
  then show ?thesis by (simp add: byte_mem_Work_def case_prod_beta)
qed simp

lemma leaf_Discard: "leaf_committed (leaf_DiscardNext l) = leaf_committed l" "leaf_clean (leaf_DiscardNext l)"
  by (cases l; simp add: dffe_lk.discard_invalid dff_lk.discard_invalid mem_lk.discard_invalid bm_lk.discard_invalid dffe_DiscardNext_def dff_DiscardNext_def sync_mem_DiscardNext_def sync_mem_dp_DiscardNext_def byte_mem_DiscardNext_def)+

lemma leaf_Xfer_clean: "leaf_clean l \<Longrightarrow> leaf_committed (leaf_Xfer l) = leaf_committed l"
  by (cases l) (simp_all add: dffe_lk.xfer_invalid dff_lk.xfer_invalid mem_lk.xfer_invalid bm_lk.xfer_invalid dffe_Xfer_def dff_Xfer_def sync_mem_Xfer_def sync_mem_dp_Xfer_def byte_mem_Xfer_def
      sync_mem_set_outs_def sync_mem_outs_def sync_mem_dp_set_outs_def sync_mem_dp_outs_def)

lemma at_leaf_fields [simp]:
  "w_obs (at_leaf f i w) = w_obs w" "length (w_store (at_leaf f i w)) = length (w_store w)"
  "j < length (w_store w) \<Longrightarrow> w_store (at_leaf f i w) ! j = (if j = i then f (w_store w ! j) else w_store w ! j)"
  by (simp_all add: at_leaf_def nth_list_update)

lemma map_at_leaf: "(\<And>l. g (f l) = g l) \<Longrightarrow> map g (w_store (at_leaf f i w)) = map g (w_store w)"
  by (rule nth_equalityI) simp_all

interpretation leaves: module_contract leaf_ops "plain_system check" "map leaf_committed" "\<lambda>i s. i < length s \<longrightarrow> leaf_clean (s ! i)" for check
proof unfold_locales
  fix m n :: nat and w :: "leaf list world"
  show "map leaf_committed (w_store (fst (op_Work leaf_ops m w))) = map leaf_committed (w_store w)"
    by (simp add: leaf_ops_def map_at_leaf leaf_Work_committed)
  show "obs_inv (w_obs w) \<Longrightarrow> obs_inv (w_obs (fst (op_Work leaf_ops m w))) \<and> obs_committed (w_obs (fst (op_Work leaf_ops m w))) = obs_committed (w_obs w)"
    by (simp add: leaf_ops_def)
  show "map leaf_committed (w_store (op_DiscardNext leaf_ops m w)) = map leaf_committed (w_store w)"
    by (simp add: leaf_ops_def map_at_leaf leaf_Discard)
  show "m < length (w_store (op_DiscardNext leaf_ops m w)) \<longrightarrow> leaf_clean (w_store (op_DiscardNext leaf_ops m w) ! m)"
    by (simp add: leaf_ops_def leaf_Discard)
  show "n < length (w_store w) \<longrightarrow> leaf_clean (w_store w ! n) \<Longrightarrow>
      n < length (w_store (op_DiscardNext leaf_ops m w)) \<longrightarrow> leaf_clean (w_store (op_DiscardNext leaf_ops m w) ! n)"
    by (simp add: leaf_ops_def leaf_Discard)
  show "m < length (w_store w) \<longrightarrow> leaf_clean (w_store w ! m) \<Longrightarrow> map leaf_committed (w_store (op_Xfer leaf_ops m w)) = map leaf_committed (w_store w)"
    by (intro nth_equalityI) (auto simp: leaf_ops_def leaf_Xfer_clean)
qed (simp_all add: leaf_ops_def plain_system_def)

text \<open>What a running step does to each leaf.\<close>

definition leaf_step :: "leaf \<Rightarrow> exn + leaf" where
  "leaf_step l = (case leaf_Work l of (l', None) \<Rightarrow> Inr (leaf_Xfer l') | (_, Some e) \<Rightarrow> Inl e)"

lemma works_leaves:
  "each_module (op_Work leaf_ops) ms w = (w', None) \<Longrightarrow> distinct ms \<Longrightarrow> length (w_store w') = length (w_store w) \<and>
   (\<forall>j < length (w_store w). if j \<in> set ms then snd (leaf_Work (w_store w ! j)) = None \<and> w_store w' ! j = fst (leaf_Work (w_store w ! j))
      else w_store w' ! j = w_store w ! j)"
proof (induction ms arbitrary: w)
  case (Cons m ms)
  define w1 where "w1 = at_leaf (fst \<circ> leaf_Work) m w"
  have n: "m < length (w_store w) \<Longrightarrow> snd (leaf_Work (w_store w ! m)) = None" "each_module (op_Work leaf_ops) ms w1 = (w', None)"
    using Cons.prems(1) by (auto simp: leaf_ops_def w1_def split: option.splits if_splits)
  note IH = Cons.IH[OF n(2)]
  show ?case using IH n(1) Cons.prems(2) by (auto simp: w1_def)
qed simp

lemma xfers_leaves:
  "distinct ms \<Longrightarrow> length (w_store (fold (op_Xfer leaf_ops) ms w)) = length (w_store w) \<and>
   (\<forall>j < length (w_store w). w_store (fold (op_Xfer leaf_ops) ms w) ! j = (if j \<in> set ms then leaf_Xfer (w_store w ! j) else w_store w ! j))"
proof (induction ms arbitrary: w)
  case (Cons m ms)
  then show ?case using Cons.IH[of "at_leaf leaf_Xfer m w"] by (auto simp: leaf_ops_def)
qed simp

subsection \<open>Life cycle\<close>

text \<open>The public calls of a system, and the states they can lead to.  Between two calls the environment may
  change the modules' pins and stores in any way.\<close>

datatype sys_call = CallAttach nat | CallAdd nat | CallBuild | CallStep | CallReset | CallReportStat

fun sys_exec :: "'s sim_ops \<Rightarrow> 's sim_virtuals \<Rightarrow> sys_call \<Rightarrow> SimSystem \<Rightarrow> 's world \<Rightarrow> (SimSystem \<times> 's world) option" where
  "sys_exec ops vt (CallAttach obs) sys w = Some (fst (AttachObservations obs sys), w)"
| "sys_exec ops vt (CallAdd m) sys w = Some (fst (AddModule m sys), w)"
| "sys_exec ops vt CallBuild sys w = Some (sys_Build ops vt sys w)"
| "sys_exec ops vt CallStep sys w = map_option (\<lambda>(sys', w', r). (sys', w')) (sys_Step ops vt sys w)"
| "sys_exec ops vt CallReset sys w = Some (sys_Reset ops sys w)"
| "sys_exec ops vt CallReportStat sys w = Some (sys, sys_ReportStat ops sys w)"

inductive sys_reachable :: "'s sim_ops \<Rightarrow> 's sim_virtuals \<Rightarrow> SimSystem \<Rightarrow> 's world \<Rightarrow> bool" for ops vt where
  start: "sys_reachable ops vt new_system w"
| drive: "sys_reachable ops vt sys w \<Longrightarrow> sys_reachable ops vt sys w'"
| call: "sys_reachable ops vt sys w \<Longrightarrow> sys_exec ops vt c sys w = Some (sys', w') \<Longrightarrow> sys_reachable ops vt sys' w'"

fun failure_phases :: "bool \<Rightarrow> SimFailurePhase set" where
  "failure_phases True = {PhaseEvaluate, PhaseCheck}"
| "failure_phases False = {PhaseBuild}"

definition lifecycle_ok :: "'s sim_virtuals \<Rightarrow> SimSystem \<Rightarrow> bool" where
  "lifecycle_ok vt sys \<longleftrightarrow> distinct (sys_roots sys) \<and>
     (case sys_state sys of
        PreBuild \<Rightarrow> \<not> sys_buildCompleted sys \<and> sys_cycle sys = 0 \<and> sys_failureInfo sys = no_failure
      | Built \<Rightarrow> sys_buildCompleted sys \<and> sys_cycle sys = 0 \<and> sys_failureInfo sys = no_failure
      | Ready \<Rightarrow> sys_buildCompleted sys \<and> sys_failureInfo sys = no_failure
      | Failed \<Rightarrow> (\<exists>w. sys_failureInfo sys \<in> vt_DescribeFailure vt w ` failure_phases (sys_buildCompleted sys)) \<and>
          (sys_buildCompleted sys \<or> sys_cycle sys = 0))"

lemma build_lifecycle:
  assumes "lifecycle_ok vt sys"
  shows "lifecycle_ok vt (fst (sys_Build ops vt sys w))"
proof -
  have "lifecycle_ok vt (fst (sys_fail ops vt PhaseBuild sys w1))" if "sys_state sys = PreBuild" for w1
    using assms that by (auto simp: lifecycle_ok_def sys_fail_def Let_def)
  then show ?thesis using assms
    by (cases "sys_state sys") (simp_all add: sys_Build_def lifecycle_ok_def split: option.split prod.split)
qed

lemma xfer_lifecycle:
  assumes "sys_Xfer ops vt sys w = Some (sys', w', ok)" "lifecycle_ok vt sys" "sys_state sys \<in> {Ready, Failed}" "sys_buildCompleted sys"
  shows "lifecycle_ok vt sys'"
  using assms by (auto simp: lifecycle_ok_def sys_Xfer_def Let_def split: option.splits prod.splits if_splits)

lemma step_lifecycle:
  assumes "sys_Step ops vt sys w = Some (sys', w', r)" "lifecycle_ok vt sys"
  shows "lifecycle_ok vt sys'"
proof (cases "sys_state sys = Ready \<and> list_ex (\<lambda>m. op_HasWork ops m w) (sys_roots sys) \<and> sys_cycle sys \<noteq> - 1")
  case False
  then have "sys' = sys \<or> sys_state sys = Ready \<and> (\<exists>w. sys' = sys\<lparr>sys_failureInfo := vt_DescribeFailure vt w PhaseEvaluate, sys_state := Failed\<rparr>)"
    using assms(1) by (auto simp: sys_Step_def sys_fail_def Let_def split: if_splits)
  then show ?thesis using assms(2) by (auto simp: lifecycle_ok_def)
next
  case True
  obtain w1 e where w1: "sys_Work ops sys w = (w1, e)" by (cases "sys_Work ops sys w")
  define s1 where "s1 = (if e = None then sys else sys\<lparr>sys_failureInfo := vt_DescribeFailure vt w1 PhaseEvaluate, sys_state := Failed\<rparr>)"
  have "lifecycle_ok vt s1" "sys_state s1 \<in> {Ready, Failed}" "sys_buildCompleted s1" using assms(2) True by (auto simp: s1_def lifecycle_ok_def)
  moreover obtain ok where "sys_Xfer ops vt s1 w1 = Some (sys', w', ok)"
    using assms(1) True w1 by (cases e) (auto simp: sys_Step_def s1_def split: option.splits)
  ultimately show ?thesis by (rule xfer_lifecycle[rotated])
qed

lemma reset_lifecycle: "lifecycle_ok vt sys \<Longrightarrow> lifecycle_ok vt (fst (sys_Reset ops sys w))"
  by (cases "sys_state sys") (auto simp: lifecycle_ok_def sys_Reset_def Let_def)

lemma attach_lifecycle: "lifecycle_ok vt sys \<Longrightarrow> lifecycle_ok vt (fst (AttachObservations obs sys))"
  by (cases "sys_state sys \<noteq> PreBuild \<or> sys_observations sys \<noteq> None") (simp_all add: lifecycle_ok_def AttachObservations_def)

lemma add_lifecycle: "lifecycle_ok vt sys \<Longrightarrow> lifecycle_ok vt (fst (AddModule m sys))"
  by (cases "sys_state sys \<noteq> PreBuild \<or> m \<in> set (sys_roots sys)") (simp_all add: lifecycle_ok_def AddModule_def)

lemma exec_lifecycle: "sys_exec ops vt c sys w = Some (sys', w') \<Longrightarrow> lifecycle_ok vt sys \<Longrightarrow> lifecycle_ok vt sys'"
  using attach_lifecycle[of vt sys] add_lifecycle[of vt sys] build_lifecycle[of vt sys ops w] step_lifecycle[of ops vt sys w] reset_lifecycle[of vt sys ops w]
  by (cases c) auto

text \<open>The failure that a call leaves behind.  A failed check, an exhausted cycle counter and a failed Build are described
  after the staged state is discarded, an exception of Work before.\<close>

definition recorded_failure :: "'s sim_ops \<Rightarrow> 's sim_virtuals \<Rightarrow> sys_call \<Rightarrow> SimSystem \<Rightarrow> 's world \<Rightarrow> 's world \<Rightarrow> SimFailureInfo" where
  "recorded_failure ops vt c sys w w' =
     (if c = CallBuild then vt_DescribeFailure vt w' PhaseBuild
      else if sys_cycle sys = - 1 then vt_DescribeFailure vt w' PhaseEvaluate
      else case sys_Work ops sys w of
             (w1, Some e) \<Rightarrow> vt_DescribeFailure vt w1 PhaseEvaluate
           | (w1, None) \<Rightarrow> vt_DescribeFailure vt w' PhaseCheck)"

lemma xfer_records:
  "sys_Xfer ops vt sys w = Some (sys', w', ok) \<Longrightarrow> sys_state sys \<noteq> Failed \<Longrightarrow> sys_state sys' = Failed \<Longrightarrow>
   sys_failureInfo sys' = vt_DescribeFailure vt w' PhaseCheck"
  by (auto simp: sys_Xfer_def Let_def split: if_splits option.splits prod.splits)

lemma step_records:
  assumes st: "sys_Step ops vt sys w = Some (sys', w', r)" and "sys_state sys \<noteq> Failed" "sys_state sys' = Failed"
  shows "sys_failureInfo sys' = recorded_failure ops vt CallStep sys w w'"
proof (cases "sys_state sys = Ready \<and> list_ex (\<lambda>m. op_HasWork ops m w) (sys_roots sys) \<and> sys_cycle sys \<noteq> - 1")
  case False
  then show ?thesis using assms by (auto simp: sys_Step_def sys_fail_def recorded_failure_def Let_def split: if_splits)
next
  case True
  obtain w1 e where w1: "sys_Work ops sys w = (w1, e)" by (cases "sys_Work ops sys w")
  show ?thesis
  proof (cases e)
    case None
    then obtain ok where "sys_Xfer ops vt sys w1 = Some (sys', w', ok)" using st True w1 by (auto simp: sys_Step_def split: option.splits)
    from xfer_records[OF this assms(2,3)] show ?thesis using True w1 None by (simp add: recorded_failure_def)
  next
    case (Some x)
    then show ?thesis using st True w1 by (auto simp: sys_Step_def sys_Xfer_def recorded_failure_def)
  qed
qed

lemma exec_records:
  assumes "sys_exec ops vt c sys w = Some (sys', w')" "sys_state sys \<noteq> Failed" "sys_state sys' = Failed"
  shows "(c = CallBuild \<or> c = CallStep) \<and> sys_failureInfo sys' = recorded_failure ops vt c sys w w'"
proof (cases c)
  case CallBuild
  then show ?thesis using assms
    by (auto simp: sys_Build_def sys_fail_def recorded_failure_def Let_def split: if_splits option.splits prod.splits)
next
  case CallStep
  then show ?thesis using assms step_records[of ops vt sys w] by auto
qed (use assms in \<open>auto simp: AttachObservations_def AddModule_def sys_Reset_def Let_def split: if_splits\<close>)

text \<open>C19.  Whatever the order of the calls to AttachObservations, AddModule, Build, Step, Reset and ReportStat, and whatever the
  modules and the derived system do, a SimSystem has no module twice; it is Built or Ready only after a completed Build, with no
  failure recorded; cycle is zero until the first Reset; and it is Failed with a description of the phase that failed: Build when
  the build did not complete, Evaluate or Check otherwise.  Only Build and Step lead into Failed, and the failure then recorded is
  what DescribeFailure makes of the derived system's state at that moment: in a step whose roots all worked, of the Check phase
  once the staged state is discarded, so with what Precheck left behind.\<close>
theorem lifecycle_invariant:
  assumes "sys_reachable ops vt sys w"
  shows "lifecycle_ok vt sys \<and>
    (\<forall>c sys' w'. sys_exec ops vt c sys w = Some (sys', w') \<and> sys_state sys \<noteq> Failed \<and> sys_state sys' = Failed \<longrightarrow>
       (c = CallBuild \<or> c = CallStep) \<and> sys_failureInfo sys' = recorded_failure ops vt c sys w w')"
proof (intro conjI)
  show "lifecycle_ok vt sys"
    using assms by induction (simp add: lifecycle_ok_def new_system_def, assumption, rule exec_lifecycle)
qed (use exec_records in blast)

text \<open>A system of one enabled register, clocked from low to high.\<close>

definition counter_leaf :: "bool \<Rightarrow> u64 \<Rightarrow> u64 \<Rightarrow> leaf" where
  "counter_leaf clk d q = LDffe \<lparr>dffe_clk = fs_bool clk, dffe_rst = fs_bool False, dffe_en = fs_bool True, dffe_d = fs_known 8 [d],
     dffe_init = fs_known 8 [0], dffe_q = fs_known 8 [q], dffe_cur = \<lparr>dc_q = fs_known 8 [q], dc_clock = False\<rparr>,
     dffe_pend = \<lparr>dp_q = fs_known 8 [0], dp_clock = False, dp_valid = False\<rparr>\<rparr>"

definition one_register :: "leaf list world" where
  "one_register = \<lparr>w_store = [counter_leaf True 7 3], w_obs = new_slots\<rparr>"

definition one_root :: SimSystem where
  "one_root = \<lparr>sys_roots = [0], sys_observations = None, sys_state = Ready, sys_cycle = 4, sys_buildCompleted = True,
     sys_failureInfo = no_failure\<rparr>"

text \<open>A derived system of the emitted kind: Precheck keeps the failure of a source check in the system's own member, and
  DescribeFailure returns it.\<close>

definition checked_ops :: "SimFailureInfo sim_ops" where
  "checked_ops = \<lparr>op_Build = (\<lambda>i w. (w, None)), op_Work = (\<lambda>i w. (w, None)), op_Xfer = (\<lambda>i w. w), op_DiscardNext = (\<lambda>i w. w),
     op_Reset = (\<lambda>i w. w), op_ReportStat = (\<lambda>i w. w), op_HasWork = (\<lambda>i w. True)\<rparr>"

definition checked_system :: "SimFailureInfo \<Rightarrow> SimFailureInfo sim_virtuals" where
  "checked_system source = \<lparr>vt_FinalizeBuild = (\<lambda>w. (w, True)), vt_Precheck = (\<lambda>w. (w\<lparr>w_store := source\<rparr>, fi_code source = [])),
     vt_DescribeFailure = (\<lambda>w phase. if phase = PhaseCheck \<and> fi_code (w_store w) \<noteq> [] then w_store w else DescribeFailure phase)\<rparr>"

definition source_check :: SimFailureInfo where
  "source_check = no_failure\<lparr>fi_phase := PhaseCheck, fi_code := ''check_failed'', fi_instance := ''root''\<rparr>"

definition checked_ready :: "SimSystem \<times> SimFailureInfo world" where
  "checked_ready = sys_Reset checked_ops (fst (sys_Build checked_ops (checked_system source_check) (fst (AddModule 0 new_system))
     \<lparr>w_store = no_failure, w_obs = new_slots\<rparr>)) \<lparr>w_store = no_failure, w_obs = new_slots\<rparr>"

lemma checked_ready_reachable: "sys_reachable checked_ops (checked_system source_check) (fst checked_ready) (snd checked_ready)"
proof -
  let ?w = "\<lparr>w_store = no_failure, w_obs = new_slots\<rparr>"
  have "sys_reachable checked_ops (checked_system source_check) (fst (AddModule 0 new_system)) ?w"
    by (rule sys_reachable.call[OF sys_reachable.start, where c = "CallAdd 0"]) simp
  then have "sys_reachable checked_ops (checked_system source_check)
      (fst (sys_Build checked_ops (checked_system source_check) (fst (AddModule 0 new_system)) ?w))
      (snd (sys_Build checked_ops (checked_system source_check) (fst (AddModule 0 new_system)) ?w))"
    by (rule sys_reachable.call[where c = CallBuild]) simp
  then have "sys_reachable checked_ops (checked_system source_check)
      (fst (sys_Build checked_ops (checked_system source_check) (fst (AddModule 0 new_system)) ?w)) ?w"
    by (rule sys_reachable.drive)
  then show ?thesis by (rule sys_reachable.call[where c = CallReset]) (simp add: checked_ready_def)
qed

theorem lifecycle_invariant_witness:
  "\<exists>sys' w'. sys_Step checked_ops (checked_system source_check) (fst checked_ready) (snd checked_ready) = Some (sys', w', StepFailed) \<and>
     lifecycle_ok (checked_system source_check) (fst checked_ready) \<and> sys_state sys' = Failed \<and> sys_failureInfo sys' = source_check"
proof -
  note defs = checked_ready_def checked_system_def checked_ops_def source_check_def sys_Reset_def sys_Build_def discardAll_def AddModule_def new_system_def
  have "\<exists>sys' w'. sys_Step checked_ops (checked_system source_check) (fst checked_ready) (snd checked_ready) = Some (sys', w', StepFailed) \<and>
      sys_state (fst checked_ready) = Ready \<and> sys_state sys' = Failed \<and> w_store w' = source_check"
    by (simp add: defs sys_Step_def sys_Work_def sys_Xfer_def)
  then obtain sys' w' where st: "sys_Step checked_ops (checked_system source_check) (fst checked_ready) (snd checked_ready) = Some (sys', w', StepFailed)"
    "sys_state (fst checked_ready) = Ready" "sys_state sys' = Failed" "w_store w' = source_check" by blast
  have "recorded_failure checked_ops (checked_system source_check) CallStep (fst checked_ready) (snd checked_ready) w' = source_check"
    using st(4) by (simp add: recorded_failure_def sys_Work_def defs)
  then show ?thesis using lifecycle_invariant[OF checked_ready_reachable] st by (auto dest: spec[of _ CallStep])
qed

subsection \<open>A step of a system of leaves\<close>

lemma leaf_HasWork_iff: "leaf_HasWork l \<longleftrightarrow> l \<noteq> LModule"
  by (cases l) simp_all

text \<open>C2.  Step on a Ready system of storage leaves is atomic.  It is Quiescent, changing nothing, when no root has work; when it
  fails (the cycle counter is at its maximum, a root's Work throws, Precheck or the observation precommit rejects) the committed
  state of every leaf and the committed observations are as before, nothing stays staged and the cycle does not move; when it
  runs, every root has committed exactly its own Work and Xfer, leaves that are not roots are untouched, and the cycle counter
  goes up by one without wrapping.\<close>
theorem system_step_atomic:
  assumes st: "sys_Step leaf_ops (plain_system check) sys w = Some (sys', w', r)" and ready: "sys_state sys = Ready"
    and roots: "distinct (sys_roots sys)" "set (sys_roots sys) \<subseteq> {..<length (w_store w)}"
  shows "case r of
      StepInvalidState \<Rightarrow> False
    | StepQuiescent \<Rightarrow> sys' = sys \<and> w' = w \<and> (\<forall>j\<in>set (sys_roots sys). w_store w ! j = LModule)
    | StepFailed \<Rightarrow> sys_state sys' = Failed \<and> sys_cycle sys' = sys_cycle sys \<and>
        rolled_back (map leaf_committed) (\<lambda>i s. i < length s \<longrightarrow> leaf_clean (s ! i)) sys w w'
    | StepRunning \<Rightarrow> sys_state sys' = Ready \<and> unat (sys_cycle sys') = unat (sys_cycle sys) + 1 \<and> length (w_store w') = length (w_store w) \<and>
        (\<forall>j < length (w_store w). if j \<in> set (sys_roots sys) then leaf_step (w_store w ! j) = Inr (w_store w' ! j) else w_store w' ! j = w_store w ! j)"
proof (cases r)
  case StepQuiescent
  have "sys' = sys \<and> w' = w" using leaves.step_outcome[OF st ready] StepQuiescent by simp
  moreover have "\<not> list_ex (\<lambda>m. op_HasWork leaf_ops m w) (sys_roots sys)"
    using st ready StepQuiescent by (auto simp: sys_Step_def split: if_splits option.splits prod.splits)
  ultimately show ?thesis using StepQuiescent roots(2) by (auto simp: leaf_ops_def leaf_HasWork_iff list_ex_iff subset_iff)
next
  case StepRunning
  have cyc: "sys_cycle sys \<noteq> - 1" "sys_cycle sys' = sys_cycle sys + 1" "sys_state sys' = Ready" using leaves.step_outcome[OF st ready] StepRunning by simp_all
  obtain w1 where w1: "each_module (op_Work leaf_ops) (sys_roots sys) w = (w1, None)"
    and w': "w_store w' = w_store (fold (op_Xfer leaf_ops) (sys_roots sys) w1)"
    using leaves.step_outcome[OF st ready] StepRunning by (auto simp: plain_system_def)
  have "unat (sys_cycle sys') = unat (sys_cycle sys) + 1" using cyc by (metis Suc_eq_plus1 add.commute add_eq_0_iff unatSuc)
  then show ?thesis using cyc StepRunning works_leaves[OF w1 roots(1)] xfers_leaves[OF roots(1), of w1]
    by (auto simp: w' leaf_step_def split: option.splits prod.splits)
qed (use leaves.step_outcome[OF st ready] in simp_all)

theorem system_step_atomic_witness:
  "\<exists>sys' w'. sys_Step leaf_ops (plain_system (\<lambda>_. True)) one_root one_register = Some (sys', w', StepRunning) \<and>
     unat (sys_cycle sys') = 5 \<and> leaf_step (counter_leaf True 7 3) = Inr (w_store w' ! 0)"
proof -
  have "case sys_Step leaf_ops (plain_system (\<lambda>_. True)) one_root one_register of Some (_, _, r) \<Rightarrow> r = StepRunning | None \<Rightarrow> False"
    by code_simp
  then obtain sys' w' where st: "sys_Step leaf_ops (plain_system (\<lambda>_. True)) one_root one_register = Some (sys', w', StepRunning)"
    by (auto split: option.splits)
  show ?thesis using system_step_atomic[OF st] st by (simp add: one_root_def one_register_def)
qed

lemma folds_leaves:
  "distinct ms \<Longrightarrow> length (w_store (fold (at_leaf f) ms w)) = length (w_store w) \<and> w_obs (fold (at_leaf f) ms w) = w_obs w \<and>
   (\<forall>j < length (w_store w). w_store (fold (at_leaf f) ms w) ! j = (if j \<in> set ms then f (w_store w ! j) else w_store w ! j))"
proof (induction ms arbitrary: w)
  case (Cons m ms)
  then show ?case using Cons.IH[of "at_leaf f m w"] by auto
qed simp

text \<open>C20.  A system that was built once recovers by Reset from every state, a failed step included: it is Ready at cycle zero with no
  failure, every root holds the transfer of its reset, the observations are reset, and the next Step returns a result that is not
  InvalidState.\<close>
theorem system_reset_recovers:
  assumes built: "sys_state sys \<noteq> PreBuild" "sys_buildCompleted sys" and roots: "distinct (sys_roots sys)" and obs: "obs_inv (w_obs w)"
    and rs: "sys_Reset leaf_ops sys w = (sys', w')"
  shows "sys_state sys' = Ready \<and> sys_cycle sys' = 0 \<and> sys_failureInfo sys' = no_failure \<and> sys_roots sys' = sys_roots sys \<and>
    (\<forall>j < length (w_store w). w_store w' ! j = (if j \<in> set (sys_roots sys) then leaf_Xfer (leaf_Reset (leaf_DiscardNext (w_store w ! j))) else w_store w ! j)) \<and>
    w_obs w' = (if sys_observations sys = None then w_obs w else obs_Reset (obs_DiscardNext (w_obs w))) \<and> obs_inv (w_obs w') \<and>
    (\<exists>sys'' w'' r. sys_Step leaf_ops (plain_system check) sys' w' = Some (sys'', w'', r) \<and> r \<noteq> StepInvalidState)"
proof -
  define w1 where "w1 = discardAll leaf_ops sys w"
  define w2 where "w2 = fold (at_leaf leaf_Xfer) (sys_roots sys) (fold (at_leaf leaf_Reset) (sys_roots sys) w1)"
  have ops: "op_Xfer leaf_ops = at_leaf leaf_Xfer" "op_Reset leaf_ops = at_leaf leaf_Reset" "op_DiscardNext leaf_ops = at_leaf leaf_DiscardNext"
    by (simp_all add: leaf_ops_def)
  have "sys_state sys = Built \<or> sys_state sys = Ready \<or> sys_state sys = Failed" using built(1) by (cases "sys_state sys") auto
  then have sys': "sys' = sys\<lparr>sys_cycle := 0, sys_failureInfo := no_failure, sys_state := Ready\<rparr>"
    and w': "w' = (if sys_observations sys \<noteq> None then w2\<lparr>w_obs := obs_Reset (w_obs w2)\<rparr> else w2)"
    using rs built(2) unfolding sys_Reset_def Let_def w1_def[symmetric] ops w2_def[symmetric] by (auto split: if_splits)
  note F = folds_leaves[OF roots]
  have leaves1: "length (w_store w1) = length (w_store w)" "w_obs w1 = (if sys_observations sys \<noteq> None then obs_DiscardNext (w_obs w) else w_obs w)"
    "\<forall>j < length (w_store w). w_store w1 ! j = (if j \<in> set (sys_roots sys) then leaf_DiscardNext (w_store w ! j) else w_store w ! j)"
    using F[of leaf_DiscardNext w] by (simp_all add: w1_def discardAll_def ops Let_def)
  have leaves2: "\<forall>j < length (w_store w). w_store w2 ! j = (if j \<in> set (sys_roots sys) then leaf_Xfer (leaf_Reset (leaf_DiscardNext (w_store w ! j))) else w_store w ! j)"
    "w_obs w2 = w_obs w1"
    using leaves1 F[of leaf_Reset w1] F[of leaf_Xfer "fold (at_leaf leaf_Reset) (sys_roots sys) w1"] by (simp_all add: w2_def)
  have w_obs': "w_obs w' = (if sys_observations sys = None then w_obs w else obs_Reset (obs_DiscardNext (w_obs w)))"
    using leaves1(2) leaves2(2) by (simp add: w')
  then have inv': "obs_inv (w_obs w')" using obs obs_Reset_inv obs_DiscardNext_facts(2) by auto
  then obtain sys'' w'' r where s: "sys_Step leaf_ops (plain_system check) sys' w' = Some (sys'', w'', r)"
    using leaves.step_returns[of w' check sys'] by (metis prod_cases3)
  have "r \<noteq> StepInvalidState" using leaves.step_outcome[OF s] sys' by (auto split: SimStepResult.splits)
  moreover have "w_store w' = w_store w2" by (simp add: w')
  ultimately show ?thesis using sys' leaves2(1) w_obs' inv' s by auto
qed

theorem system_reset_recovers_witness:
  "\<exists>sys' w'. sys_Reset leaf_ops (one_root\<lparr>sys_state := Failed, sys_observations := Some 0\<rparr>) (one_register\<lparr>w_obs := obs_example\<rparr>) = (sys', w') \<and>
     sys_state sys' = Ready \<and> w_obs w' = obs_Reset (obs_DiscardNext obs_example) \<and>
     w_store w' ! 0 = leaf_Xfer (leaf_Reset (leaf_DiscardNext (counter_leaf True 7 3)))"
proof -
  obtain sys' w' where r: "sys_Reset leaf_ops (one_root\<lparr>sys_state := Failed, sys_observations := Some 0\<rparr>) (one_register\<lparr>w_obs := obs_example\<rparr>) = (sys', w')"
    by (metis surj_pair)
  show ?thesis using system_reset_recovers[OF _ _ _ _ r, of "\<lambda>_. True"] example_slots(1)[of 0] r by (simp add: one_root_def one_register_def)
qed

end
