(* ===== verification/Gfsim_WorkExecutor.thy ===== *)
theory Gfsim_WorkExecutor
  imports Gfsim_Prelude
begin

text \<open>
  The work executor of \<^verbatim>\<open>include/gfsim/WorkExecutor.h\<close>: a pool of threads that runs a batch of
  callbacks, each on its own instance.  A store maps every instance to its state, and a callback is a
  function on the state of its instance that may throw.

  A thread of \<open>workerLoop\<close> goes through the program points of \<open>worker_pc\<close>: it wants the mutex to evaluate
  the predicate of its wait, it is blocked on \<open>workReady_\<close>, it runs a callback with the mutex released, it wants
  the mutex to store the callback's exception, or it has left the loop.  \<open>thread_step\<close> is what it does until it next
  releases the mutex, and is \<open>None\<close> for a thread that is blocked or gone.  The thread that called \<open>run\<close> is
  \<open>we_caller\<close>: not in a batch, blocked on \<open>complete_\<close>, woken, or past its wait.  Only a notification or a spurious
  wake-up takes a thread off a condition variable.  A schedule lists who is given the processor, in order, with the
  spurious wake-ups; it drives the batch of \<open>run\<close> until the caller is past its wait.

  \<open>runMutex_\<close> admits one call of \<open>run\<close> or one destructor at a time, so there is one caller.  The argument
  \<open>nested\<close> of \<open>executor_run\<close> says whether the calling thread has \<open>active_ == this\<close>: then \<open>run\<close> is called
  from a callback of this pool and works serially.

  The lemmas show that every schedule that completes a batch leaves the store, and rethrows the exception, of
  \<open>runSerial\<close>; that no wake-up is lost, so that every fair schedule completes the batch, without any help of
  spurious wake-ups; and that the destructor joins every thread.
\<close>

subsection \<open>Work items and the serial run\<close>

record 's WorkItem =
  wi_instance :: nat
  wi_work :: "('s \<Rightarrow> 's \<times> exn option) option"

type_synonym 's store = "nat \<Rightarrow> 's"

definition wi_call :: "'s WorkItem \<Rightarrow> 's store \<Rightarrow> 's store \<times> exn option" where
  "wi_call item store = (case the (wi_work item) (store (wi_instance item)) of (v, e) \<Rightarrow> (store(wi_instance item := v), e))"

fun serial_loop :: "'s WorkItem list \<Rightarrow> exn option \<Rightarrow> 's store \<Rightarrow> 's store \<times> exn option" where
  "serial_loop [] first store = (store, first)"
| "serial_loop (item # items) first store =
     (case wi_call item store of (store, e) \<Rightarrow> serial_loop items (if first = None then e else first) store)"

definition runSerial :: "'s WorkItem list \<Rightarrow> 's store \<Rightarrow> 's store \<times> exn option" where
  "runSerial items store = serial_loop items None store"

subsection \<open>The pool\<close>

datatype 's worker_pc = PcLock | PcBlocked | PcWork nat "'s WorkItem" | PcStore nat "exn option" | PcExit

datatype caller_pc = CallerAway | CallerBlocked | CallerWoken | CallerDone

record 's WorkExecutor =
  we_workers :: nat
  we_threads :: "'s worker_pc list"
  we_caller :: caller_pc
  we_items :: "'s WorkItem list"
  we_errors :: "exn option list"
  we_next :: nat
  we_pending :: nat
  we_stop :: bool

fun woken :: "'s worker_pc \<Rightarrow> 's worker_pc" where
  "woken PcBlocked = PcLock"
| "woken pc = pc"

definition workReady_notify_all :: "'s WorkExecutor \<Rightarrow> 's WorkExecutor" where
  "workReady_notify_all ex = ex\<lparr>we_threads := map woken (we_threads ex)\<rparr>"

definition complete_notify_one :: "'s WorkExecutor \<Rightarrow> 's WorkExecutor" where
  "complete_notify_one ex = ex\<lparr>we_caller := (if we_caller ex = CallerBlocked then CallerWoken else we_caller ex)\<rparr>"

text \<open>The head of the loop of \<open>workerLoop\<close>: the predicate of the wait, the return on stop and the claim of an item.\<close>

definition worker_wait :: "nat \<Rightarrow> 's WorkExecutor \<Rightarrow> 's WorkExecutor" where
  "worker_wait t ex =
     (if we_stop ex then ex\<lparr>we_threads := (we_threads ex)[t := PcExit]\<rparr>
      else if we_next ex < length (we_items ex)
      then ex\<lparr>we_next := we_next ex + 1, we_threads := (we_threads ex)[t := PcWork (we_next ex) (we_items ex ! we_next ex)]\<rparr>
      else ex\<lparr>we_threads := (we_threads ex)[t := PcBlocked]\<rparr>)"

text \<open>The end of its body: the exception is stored, the last item notifies the caller.\<close>

definition worker_store :: "nat \<Rightarrow> exn option \<Rightarrow> 's WorkExecutor \<Rightarrow> 's WorkExecutor" where
  "worker_store index e ex =
     (let ex = ex\<lparr>we_errors := (we_errors ex)[index := e], we_pending := we_pending ex - 1\<rparr>
      in if we_pending ex = 0 then complete_notify_one ex else ex)"

definition thread_step :: "nat \<Rightarrow> 's WorkExecutor \<times> 's store \<Rightarrow> ('s WorkExecutor \<times> 's store) option" where
  "thread_step t s = (case s of (ex, store) \<Rightarrow>
     if \<not> t < length (we_threads ex) then None
     else case we_threads ex ! t of
       PcLock \<Rightarrow> Some (worker_wait t ex, store)
     | PcBlocked \<Rightarrow> None
     | PcWork index item \<Rightarrow>
         (case wi_call item store of (store, e) \<Rightarrow> Some (ex\<lparr>we_threads := (we_threads ex)[t := PcStore index e]\<rparr>, store))
     | PcStore index e \<Rightarrow> Some (worker_wait t (worker_store index e ex), store)
     | PcExit \<Rightarrow> None)"

text \<open>The caller evaluates the predicate of its wait.\<close>

definition caller_wait :: "'s WorkExecutor \<Rightarrow> 's WorkExecutor" where
  "caller_wait ex = ex\<lparr>we_caller := (if we_pending ex = 0 then CallerDone else CallerBlocked)\<rparr>"

text \<open>One entry of a schedule: a worker or the caller is given the processor, or wakes up spuriously.\<close>

datatype turn = TurnWorker nat | TurnCaller | SpuriousWorker nat | SpuriousCaller

fun pool_turn :: "turn \<Rightarrow> 's WorkExecutor \<times> 's store \<Rightarrow> 's WorkExecutor \<times> 's store" where
  "pool_turn (TurnWorker t) s = (case thread_step t s of None \<Rightarrow> s | Some s' \<Rightarrow> s')"
| "pool_turn TurnCaller (ex, store) = (if we_caller ex = CallerWoken then caller_wait ex else ex, store)"
| "pool_turn (SpuriousWorker t) (ex, store) = (ex\<lparr>we_threads := (we_threads ex)[t := woken (we_threads ex ! t)]\<rparr>, store)"
| "pool_turn SpuriousCaller (ex, store) = (complete_notify_one ex, store)"

fun exited :: "'s worker_pc \<Rightarrow> bool" where
  "exited PcExit = True"
| "exited _ = False"

text \<open>\<open>stopAndJoin\<close> notifies after it has released the mutex, so the threads may run in between.  It returns when all have left.\<close>

definition stopAndJoin :: "turn list \<Rightarrow> turn list \<Rightarrow> 's WorkExecutor \<times> 's store \<Rightarrow> ('s WorkExecutor \<times> 's store) option" where
  "stopAndJoin between sched s =
     (case fold pool_turn between ((fst s)\<lparr>we_stop := True\<rparr>, snd s) of (ex, store) \<Rightarrow>
        let s = fold pool_turn sched (workReady_notify_all ex, store)
        in if list_all exited (we_threads (fst s)) then Some s else None)"

text \<open>\<open>spawn i\<close> is the exception, if any, that starting thread \<open>i\<close> throws; the threads started before it are joined.\<close>

definition new_executor :: "(nat \<Rightarrow> exn option) \<Rightarrow> nat \<Rightarrow> exn + 's WorkExecutor" where
  "new_executor spawn workers =
     (if workers = 0 then Inl (InvalidArgument ''WorkExecutor workers must be positive'')
      else let ex = \<lparr>we_workers = workers, we_threads = [], we_caller = CallerAway, we_items = [], we_errors = [], we_next = 0,
                we_pending = 0, we_stop = False\<rparr>
      in if workers = 1 then Inr ex
      else case find (\<lambda>i. spawn i \<noteq> None) [0..<workers] of
        Some i \<Rightarrow> Inl (the (spawn i))
      | None \<Rightarrow> Inr (ex\<lparr>we_threads := replicate workers PcLock\<rparr>))"

definition begin_batch :: "'s WorkItem list \<Rightarrow> 's WorkExecutor \<Rightarrow> 's WorkExecutor" where
  "begin_batch items ex =
     (let ex = ex\<lparr>we_errors := replicate (length items) None, we_items := items, we_next := 0, we_pending := length items\<rparr>;
          ex = workReady_notify_all ex
      in caller_wait ex)"

fun drive :: "turn list \<Rightarrow> 's WorkExecutor \<times> 's store \<Rightarrow> 's WorkExecutor \<times> 's store" where
  "drive [] s = s"
| "drive (u # us) s = (if we_caller (fst s) = CallerDone then s else drive us (pool_turn u s))"

fun first_error :: "exn option list \<Rightarrow> exn option" where
  "first_error [] = None"
| "first_error (e # es) = (if e \<noteq> None then e else first_error es)"

definition executor_run ::
    "turn list \<Rightarrow> bool \<Rightarrow> 's WorkItem list \<Rightarrow> 's WorkExecutor \<Rightarrow> 's store \<Rightarrow> ('s WorkExecutor \<times> 's store \<times> exn option) option" where
  "executor_run sched nested items ex store =
     (if list_ex (\<lambda>item. wi_work item = None) items then Some (ex, store, Some (InvalidArgument ''WorkExecutor task needs a Work callback''))
      else if nested then (case runSerial items store of (store, e) \<Rightarrow> Some (ex, store, e))
      else if we_workers ex = 1 then (case runSerial items store of (store, e) \<Rightarrow> Some (ex, store, e))
      else if items = [] then Some (ex, store, None)
      else case drive sched (begin_batch items ex, store) of (ex, store) \<Rightarrow>
        if we_caller ex = CallerDone then Some (ex\<lparr>we_items := [], we_caller := CallerAway\<rparr>, store, first_error (we_errors ex))
        else None)"

subsection \<open>The batch invariant\<close>

lemma length_filter_update:
  "i < length xs \<Longrightarrow> length (filter P (xs[i := x])) + (if P (xs ! i) then 1 else 0) = length (filter P xs) + (if P x then 1 else 0)"
proof (induction xs arbitrary: i)
  case (Cons y ys)
  then show ?case by (cases i) auto
qed simp

fun pc_index :: "'s worker_pc \<Rightarrow> nat option" where
  "pc_index (PcWork i item) = Some i"
| "pc_index (PcStore i e) = Some i"
| "pc_index _ = None"

definition item_post :: "'s WorkItem \<Rightarrow> 's store \<Rightarrow> 's" where
  "item_post item store = fst (the (wi_work item) (store (wi_instance item)))"

definition item_error :: "'s WorkItem \<Rightarrow> 's store \<Rightarrow> exn option" where
  "item_error item store = snd (the (wi_work item) (store (wi_instance item)))"

fun pc_ok :: "'s WorkItem list \<Rightarrow> 's store \<Rightarrow> 's store \<Rightarrow> 's worker_pc \<Rightarrow> bool" where
  "pc_ok items store0 store (PcWork i item) \<longleftrightarrow> item = items ! i \<and> store (wi_instance item) = store0 (wi_instance item)"
| "pc_ok items store0 store (PcStore i e) \<longleftrightarrow> e = item_error (items ! i) store0 \<and> store (wi_instance (items ! i)) = item_post (items ! i) store0"
| "pc_ok items store0 store PcLock \<longleftrightarrow> True"
| "pc_ok items store0 store PcBlocked \<longleftrightarrow> True"
| "pc_ok items store0 store PcExit \<longleftrightarrow> False"

definition busy :: "'s WorkExecutor \<Rightarrow> nat \<Rightarrow> nat \<Rightarrow> bool" where
  "busy ex t i \<longleftrightarrow> t < length (we_threads ex) \<and> pc_index (we_threads ex ! t) = Some i"

definition batch_inv :: "'s WorkItem list \<Rightarrow> 's store \<Rightarrow> 's WorkExecutor \<times> 's store \<Rightarrow> bool" where
  "batch_inv items store0 s \<longleftrightarrow> (case s of (ex, store) \<Rightarrow>
     we_items ex = items \<and> \<not> we_stop ex \<and> we_next ex \<le> length items \<and> length (we_errors ex) = length items \<and>
     (\<forall>t < length (we_threads ex). pc_ok items store0 store (we_threads ex ! t)) \<and>
     (\<forall>t i. busy ex t i \<longrightarrow> i < we_next ex) \<and>
     (\<forall>t u i. busy ex t i \<longrightarrow> busy ex u i \<longrightarrow> t = u) \<and>
     (\<forall>i < we_next ex. (\<forall>t. \<not> busy ex t i) \<longrightarrow> we_errors ex ! i = item_error (items ! i) store0 \<and> store (wi_instance (items ! i)) = item_post (items ! i) store0) \<and>
     (\<forall>i. we_next ex \<le> i \<longrightarrow> i < length items \<longrightarrow> store (wi_instance (items ! i)) = store0 (wi_instance (items ! i))) \<and>
     (\<forall>a. a \<notin> wi_instance ` set items \<longrightarrow> store a = store0 a) \<and>
     we_pending ex + we_next ex = length items + length (filter (\<lambda>pc. pc_index pc \<noteq> None) (we_threads ex)))"

lemma batch_invD:
  assumes "batch_inv items store0 (ex, store)"
  shows "we_items ex = items" "\<not> we_stop ex" "we_next ex \<le> length items" "length (we_errors ex) = length items"
    "t < length (we_threads ex) \<Longrightarrow> pc_ok items store0 store (we_threads ex ! t)"
    "busy ex t i \<Longrightarrow> i < we_next ex" "busy ex t i \<Longrightarrow> busy ex u i \<Longrightarrow> t = u"
    "we_pending ex + we_next ex = length items + length (filter (\<lambda>pc. pc_index pc \<noteq> None) (we_threads ex))"
  using assms by (auto simp: batch_inv_def)

definition fresh_items :: "'s WorkItem list \<Rightarrow> bool" where
  "fresh_items items \<longleftrightarrow> list_all (\<lambda>item. wi_work item \<noteq> None) items \<and> distinct (map wi_instance items)"

lemma fresh_instances: "fresh_items items \<Longrightarrow> i < length items \<Longrightarrow> j < length items \<Longrightarrow> wi_instance (items ! i) = wi_instance (items ! j) \<longleftrightarrow> i = j"
  by (auto simp: fresh_items_def distinct_conv_nth)

lemma busy_update:
  "t < length (we_threads ex) \<Longrightarrow> we_threads ex' = (we_threads ex)[t := pc] \<Longrightarrow> busy ex' u i \<longleftrightarrow> (if u = t then pc_index pc = Some i else busy ex u i)"
  by (auto simp: busy_def nth_list_update)

lemma step_take:
  assumes inv: "batch_inv items store0 (ex, store)" and t: "t < length (we_threads ex)" "we_threads ex ! t = PcLock" and n: "we_next ex < length items"
    and ex': "ex' = ex\<lparr>we_next := we_next ex + 1, we_threads := (we_threads ex)[t := PcWork (we_next ex) (items ! we_next ex)]\<rparr>"
  shows "batch_inv items store0 (ex', store)"
proof -
  note bu = busy_update[OF t(1), of ex' "PcWork (we_next ex) (items ! we_next ex)"]
  have b: "busy ex' u i \<longleftrightarrow> (if u = t then i = we_next ex else busy ex u i)" for u i using bu ex' by auto
  have lt: "busy ex u i \<Longrightarrow> i < we_next ex" for u i using inv by (simp add: batch_inv_def)
  have nb: "\<not> busy ex t i" for i using t by (simp add: busy_def)
  have len: "length (filter (\<lambda>pc. pc_index pc \<noteq> None) (we_threads ex')) = length (filter (\<lambda>pc. pc_index pc \<noteq> None) (we_threads ex)) + 1"
    using length_filter_update[OF t(1), of "\<lambda>pc. pc_index pc \<noteq> None" "PcWork (we_next ex) (items ! we_next ex)"] t by (simp add: ex')
  have nx: "we_next ex' = we_next ex + 1" by (simp add: ex')
  have done': "(\<forall>u. \<not> busy ex' u i) \<Longrightarrow> i < we_next ex' \<Longrightarrow> i < we_next ex \<and> (\<forall>u. \<not> busy ex u i)" for i
    unfolding b nx using nb by (metis Suc_eq_plus1 less_Suc_eq)
  show ?thesis unfolding batch_inv_def prod.case
  proof (intro conjI allI impI)
    fix u i assume "busy ex' u i"
    then show "i < we_next ex'" using lt[of u i] by (auto simp: b nx split: if_splits)
  next
    fix u v i assume "busy ex' u i" "busy ex' v i"
    then show "u = v" using lt[of u i] lt[of v i] inv by (auto simp: b batch_inv_def split: if_splits)
  next
    fix i assume "i < we_next ex'" "\<forall>u. \<not> busy ex' u i"
    from done'[OF this(2,1)] show "we_errors ex' ! i = item_error (items ! i) store0" "store (wi_instance (items ! i)) = item_post (items ! i) store0"
      using inv by (auto simp: batch_inv_def ex')
  next
    fix u assume "u < length (we_threads ex')"
    then show "pc_ok items store0 store (we_threads ex' ! u)" using inv n t(1) by (cases "u = t") (simp_all add: batch_inv_def ex')
  next
    show "we_pending ex' + we_next ex' = length items + length (filter (\<lambda>pc. pc_index pc \<noteq> None) (we_threads ex'))"
      using inv unfolding len by (simp add: batch_inv_def ex')
  qed (use inv n in \<open>auto simp: batch_inv_def ex'\<close>)
qed

lemma step_work:
  assumes inv: "batch_inv items store0 (ex, store)" and fr: "fresh_items items" and t: "t < length (we_threads ex)" "we_threads ex ! t = PcWork k item"
    and call: "wi_call item store = (store', e)" and ex': "ex' = ex\<lparr>we_threads := (we_threads ex)[t := PcStore k e]\<rparr>"
  shows "batch_inv items store0 (ex', store')"
proof -
  have b: "busy ex' u i \<longleftrightarrow> busy ex u i" for u i using busy_update[OF t(1), of ex' "PcStore k e" u i] t by (auto simp: ex' busy_def)
  have k: "busy ex t k" using t by (simp add: busy_def)
  have pc: "pc_ok items store0 store (we_threads ex ! t)" using batch_invD(5)[OF inv t(1)] .
  then have item: "item = items ! k" "store (wi_instance item) = store0 (wi_instance item)" unfolding t(2) by auto
  have kn: "k < we_next ex" "k < length items" using batch_invD(3,6)[OF inv] k by (meson order_less_le_trans)+
  have store': "store' = store(wi_instance (items ! k) := item_post (items ! k) store0)" "e = item_error (items ! k) store0"
    using call item by (auto simp: wi_call_def item_post_def item_error_def split: prod.splits)
  have other: "store' (wi_instance (items ! i)) = store (wi_instance (items ! i))" if "i < length items" "i \<noteq> k" for i
    using fresh_instances[OF fr that(1) kn(2)] that by (simp add: store')
  have len: "length (filter (\<lambda>pc. pc_index pc \<noteq> None) (we_threads ex')) = length (filter (\<lambda>pc. pc_index pc \<noteq> None) (we_threads ex))"
    using length_filter_update[OF t(1), of "\<lambda>pc. pc_index pc \<noteq> None" "PcStore k e"] t by (simp add: ex')
  have idx: "i < length items" if "busy ex u i" for u i using batch_invD(3,6)[OF inv] that by (meson order_less_le_trans)
  have only: "u = t" if "busy ex u k" for u using batch_invD(7)[OF inv that k] .
  show ?thesis unfolding batch_inv_def prod.case
  proof (intro conjI allI impI)
    fix u assume u: "u < length (we_threads ex')"
    then have ok: "pc_ok items store0 store (we_threads ex ! u)" using batch_invD(5)[OF inv, of u] by (simp add: ex')
    show "pc_ok items store0 store' (we_threads ex' ! u)"
    proof (cases "u = t")
      case True
      then show ?thesis using t by (simp add: ex' store')
    next
      case False
      have "busy ex u i \<Longrightarrow> i \<noteq> k \<and> i < length items" for i using only False idx by blast
      then show ?thesis using ok False u other by (cases "we_threads ex ! u") (auto simp: ex' busy_def)
    qed
  next
    fix i assume i: "i < we_next ex'" "\<forall>u. \<not> busy ex' u i"
    then have "i \<noteq> k" "i < length items" using k batch_invD(3)[OF inv] unfolding b by (auto simp: ex')
    then show "we_errors ex' ! i = item_error (items ! i) store0" "store' (wi_instance (items ! i)) = item_post (items ! i) store0"
      using inv i other[of i] unfolding b by (auto simp: batch_inv_def ex')
  next
    fix i assume "we_next ex' \<le> i" "i < length items"
    then show "store' (wi_instance (items ! i)) = store0 (wi_instance (items ! i))" using inv kn other[of i] by (auto simp: batch_inv_def ex')
  next
    fix a assume "a \<notin> wi_instance ` set items"
    then show "store' a = store0 a" using inv kn by (auto simp: batch_inv_def store')
  next
    show "we_pending ex' + we_next ex' = length items + length (filter (\<lambda>pc. pc_index pc \<noteq> None) (we_threads ex'))"
      using inv unfolding len by (simp add: batch_inv_def ex')
  next
    fix u i assume "busy ex' u i"
    then show "i < we_next ex'" using batch_invD(6)[OF inv] unfolding b by (auto simp: ex')
  next
    fix u v i assume "busy ex' u i" "busy ex' v i"
    then show "u = v" using batch_invD(7)[OF inv] unfolding b by blast
  qed (use inv in \<open>auto simp: batch_inv_def ex'\<close>)
qed

lemma step_store:
  assumes inv: "batch_inv items store0 (ex, store)" and t: "t < length (we_threads ex)" "we_threads ex ! t = PcStore k e"
    and ex': "ex' = ex\<lparr>we_errors := (we_errors ex)[k := e], we_pending := we_pending ex - 1, we_threads := (we_threads ex)[t := PcLock]\<rparr>"
  shows "batch_inv items store0 (ex', store)"
proof -
  have b: "busy ex' u i \<longleftrightarrow> u \<noteq> t \<and> busy ex u i" for u i using busy_update[OF t(1), of ex' PcLock u i] by (auto simp: ex')
  have k: "busy ex t k" using t by (simp add: busy_def)
  have pc: "pc_ok items store0 store (we_threads ex ! t)" using batch_invD(5)[OF inv t(1)] .
  have kn: "k < length items" "length (we_errors ex) = length items" using batch_invD(3,4,6)[OF inv] k by (meson order_less_le_trans)+
  let ?P = "\<lambda>pc. pc_index pc \<noteq> None"
  have len: "length (filter ?P (we_threads ex')) + 1 = length (filter ?P (we_threads ex))"
    using length_filter_update[OF t(1), of ?P PcLock] t by (simp add: ex')
  have pend: "we_pending ex + we_next ex = length items + length (filter ?P (we_threads ex))" "we_next ex \<le> length items"
    using batch_invD(3,8)[OF inv] by simp_all
  show ?thesis unfolding batch_inv_def prod.case
  proof (intro conjI allI impI)
    fix i assume i: "i < we_next ex'" "\<forall>u. \<not> busy ex' u i"
    have "i = k \<or> (\<forall>u. \<not> busy ex u i)" using i(2) k t unfolding b by (auto simp: busy_def)
    then show "we_errors ex' ! i = item_error (items ! i) store0" "store (wi_instance (items ! i)) = item_post (items ! i) store0"
      using inv i(1) pc t kn by (auto simp: batch_inv_def ex' nth_list_update)
  next
    show "we_pending ex' + we_next ex' = length items + length (filter ?P (we_threads ex'))"
      using pend len by (simp add: ex')
  next
    fix u i assume "busy ex' u i"
    then show "i < we_next ex'" using batch_invD(6)[OF inv] unfolding b by (auto simp: ex')
  next
    fix u v i assume "busy ex' u i" "busy ex' v i"
    then show "u = v" using batch_invD(7)[OF inv] unfolding b by blast
  next
    fix u assume "u < length (we_threads ex')"
    then show "pc_ok items store0 store (we_threads ex' ! u)" using inv t(1) by (cases "u = t") (simp_all add: batch_inv_def ex')
  qed (use inv in \<open>auto simp: batch_inv_def ex'\<close>)
qed

fun pc_left :: "'s worker_pc \<Rightarrow> nat" where
  "pc_left (PcWork i item) = 2"
| "pc_left (PcStore i e) = 1"
| "pc_left _ = 0"

definition steps_left :: "'s WorkExecutor \<times> 's store \<Rightarrow> nat" where
  "steps_left s = 3 * (length (we_items (fst s)) - we_next (fst s)) + sum_list (map pc_left (we_threads (fst s)))"

lemma sum_list_update': "i < length xs \<Longrightarrow> sum_list (map f (xs[i := x])) + f (xs ! i) = sum_list (map f xs) + (f x :: nat)"
proof (induction xs arbitrary: i)
  case (Cons y ys)
  then show ?case by (cases i) auto
qed simp

text \<open>Who waits: no worker is blocked while an item is left, and the caller is not blocked once nothing is pending.\<close>

definition waits_ok :: "'s WorkExecutor \<Rightarrow> bool" where
  "waits_ok ex \<longleftrightarrow> (we_next ex < length (we_items ex) \<longrightarrow> PcBlocked \<notin> set (we_threads ex)) \<and>
     we_caller ex \<noteq> CallerAway \<and> (we_caller ex = CallerBlocked \<longrightarrow> we_pending ex \<noteq> 0) \<and> (we_caller ex = CallerDone \<longrightarrow> we_pending ex = 0)"

definition run_inv :: "'s WorkItem list \<Rightarrow> 's store \<Rightarrow> 's WorkExecutor \<times> 's store \<Rightarrow> bool" where
  "run_inv items store0 s \<longleftrightarrow> batch_inv items store0 s \<and> waits_ok (fst s)"

fun waiting :: "'s worker_pc \<Rightarrow> bool" where
  "waiting PcLock = True"
| "waiting PcBlocked = True"
| "waiting _ = False"

lemma waiting_facts [simp]: "waiting (woken pc) = waiting pc" "waiting pc \<Longrightarrow> pc_index pc = None" "waiting pc \<Longrightarrow> pc_left pc = 0"
  "\<not> waiting pc \<Longrightarrow> woken pc = pc" "PcBlocked \<noteq> woken pc"
  by (cases pc; simp)+

text \<open>The batch invariant does not see who waits.\<close>

definition same_work :: "'s worker_pc \<Rightarrow> 's worker_pc \<Rightarrow> bool" where
  "same_work pc pc' \<longleftrightarrow> pc' = pc \<or> waiting pc \<and> waiting pc'"

lemma same_work_facts:
  assumes "list_all2 same_work pcs pcs'"
  shows "length pcs' = length pcs" "map pc_index pcs' = map pc_index pcs" "map pc_left pcs' = map pc_left pcs"
  using assms by (induction, auto simp: same_work_def)

lemma same_work_refl: "list_all2 same_work pcs pcs" "list_all2 same_work pcs (map woken pcs)"
    "waiting (pcs ! t) \<Longrightarrow> waiting pc \<Longrightarrow> list_all2 same_work pcs (pcs[t := pc])" "list_all2 same_work pcs (pcs[t := woken (pcs ! t)])"
proof -
  have w: "same_work pc (woken pc)" for pc :: "'a worker_pc" by (cases pc) (simp_all add: same_work_def)
  show "list_all2 same_work pcs pcs" "list_all2 same_work pcs (map woken pcs)" using w by (simp_all add: list_all2_conv_all_nth same_work_def)
  show "waiting (pcs ! t) \<Longrightarrow> waiting pc \<Longrightarrow> list_all2 same_work pcs (pcs[t := pc])"
    by (cases "t < length pcs") (auto simp: list_all2_conv_all_nth same_work_def nth_list_update)
  show "list_all2 same_work pcs (pcs[t := woken (pcs ! t)])"
    using w by (cases "t < length pcs") (auto simp: list_all2_conv_all_nth same_work_def nth_list_update)
qed

lemma batch_inv_waits:
  assumes inv: "batch_inv items store0 (ex, store)" and w: "list_all2 same_work (we_threads ex) (we_threads ex')"
    and same: "we_items ex' = we_items ex" "we_stop ex' = we_stop ex" "we_next ex' = we_next ex" "we_errors ex' = we_errors ex"
      "we_pending ex' = we_pending ex"
  shows "batch_inv items store0 (ex', store)"
proof -
  note F = same_work_facts[OF w]
  have idx: "pc_index (we_threads ex' ! t) = pc_index (we_threads ex ! t)" if "t < length (we_threads ex)" for t
    using arg_cong[OF F(2), of "\<lambda>xs. xs ! t"] that F(1) by simp
  then have b: "busy ex' t i \<longleftrightarrow> busy ex t i" for t i using F(1) by (auto simp: busy_def)
  have cnt: "length (filter (\<lambda>pc. pc_index pc \<noteq> None) pcs) = length (filter (\<lambda>i. i \<noteq> None) (map pc_index pcs))" for pcs :: "'a worker_pc list"
    by (simp add: filter_map comp_def)
  have n: "length (filter (\<lambda>pc. pc_index pc \<noteq> None) (we_threads ex')) = length (filter (\<lambda>pc. pc_index pc \<noteq> None) (we_threads ex))"
    unfolding cnt F(2) ..
  have pc: "pc_ok items store0 store (we_threads ex' ! t)" if "t < length (we_threads ex')" for t
    using batch_invD(5)[OF inv, of t] list_all2_nthD2[OF w that] that F(1) by (cases "we_threads ex' ! t") (auto simp: same_work_def)
  show ?thesis using inv pc unfolding batch_inv_def prod.case b same n by blast
qed

lemma pending_steps:
  assumes "batch_inv items store0 s"
  shows "we_pending (fst s) = 0 \<longleftrightarrow> steps_left s = 0"
proof -
  obtain ex store where s: "s = (ex, store)" by (cases s)
  note D = batch_invD[OF assms[unfolded s]]
  have "pc_left pc = 0 \<longleftrightarrow> pc_index pc = None" for pc :: "'a worker_pc" by (cases pc) simp_all
  then have "filter (\<lambda>pc. pc_index pc \<noteq> None) (we_threads ex) = [] \<longleftrightarrow> sum_list (map pc_left (we_threads ex)) = 0"
    by (auto simp: filter_empty_conv)
  then show ?thesis using D(1,3,8) by (auto simp: s steps_left_def)
qed

text \<open>The head of the loop claims the next item, or blocks when there is none.\<close>

definition moves_to :: "'s WorkItem list \<Rightarrow> 's store \<Rightarrow> 's WorkExecutor \<times> 's store \<Rightarrow> 's WorkExecutor \<times> 's store \<Rightarrow> bool" where
  "moves_to items store0 s s' \<longleftrightarrow> run_inv items store0 s' \<and> steps_left s' \<le> steps_left s \<and>
     length (we_threads (fst s')) = length (we_threads (fst s)) \<and> we_workers (fst s') = we_workers (fst s)"

lemma moves_trans: "moves_to items store0 s1 s2 \<Longrightarrow> moves_to items store0 s2 s3 \<Longrightarrow> moves_to items store0 s1 s3"
  by (auto simp: moves_to_def)

lemma moves_waits:
  assumes "run_inv items store0 (ex, store)" "list_all2 same_work (we_threads ex) (we_threads ex')" "waits_ok ex'"
    "we_items ex' = we_items ex" "we_stop ex' = we_stop ex" "we_next ex' = we_next ex" "we_errors ex' = we_errors ex"
    "we_pending ex' = we_pending ex" "we_workers ex' = we_workers ex"
  shows "moves_to items store0 (ex, store) (ex', store) \<and> steps_left (ex', store) = steps_left (ex, store)"
  using batch_inv_waits[of items store0 ex store ex'] same_work_facts[OF assms(2)] assms
  by (simp add: moves_to_def run_inv_def steps_left_def)

lemma worker_wait_inv:
  assumes inv: "run_inv items store0 (ex, store)" and t: "t < length (we_threads ex)" "we_threads ex ! t = PcLock"
  shows "moves_to items store0 (ex, store) (worker_wait t ex, store)"
    "we_next ex < length items \<Longrightarrow> steps_left (worker_wait t ex, store) < steps_left (ex, store)"
proof -
  have bi: "batch_inv items store0 (ex, store)" and wo: "waits_ok ex" using inv by (simp_all add: run_inv_def)
  have it: "we_items ex = items" "\<not> we_stop ex" using batch_invD(1,2)[OF bi] by simp_all
  define pc where "pc = PcWork (we_next ex) (items ! we_next ex)"
  have take: "moves_to items store0 (ex, store) (worker_wait t ex, store) \<and> steps_left (worker_wait t ex, store) < steps_left (ex, store)"
    if n: "we_next ex < length items"
  proof -
    have w: "worker_wait t ex = ex\<lparr>we_next := we_next ex + 1, we_threads := (we_threads ex)[t := pc]\<rparr>" using it n by (simp add: worker_wait_def pc_def)
    have "waits_ok (worker_wait t ex)"
      using wo n it t set_update_subset_insert[of "we_threads ex" t pc] by (auto simp: waits_ok_def w pc_def)
    moreover have "steps_left (worker_wait t ex, store) < steps_left (ex, store)"
      using sum_list_update'[OF t(1), of pc_left pc] t n it by (simp add: steps_left_def w pc_def)
    ultimately show ?thesis using step_take[OF bi t n refl] by (simp add: moves_to_def run_inv_def w pc_def)
  qed
  then show "we_next ex < length items \<Longrightarrow> steps_left (worker_wait t ex, store) < steps_left (ex, store)" by blast
  have "moves_to items store0 (ex, store) (worker_wait t ex, store)" if n: "\<not> we_next ex < length items"
  proof -
    have w: "worker_wait t ex = ex\<lparr>we_threads := (we_threads ex)[t := PcBlocked]\<rparr>" using it n by (simp add: worker_wait_def)
    have "list_all2 same_work (we_threads ex) ((we_threads ex)[t := PcBlocked])" using t by (intro same_work_refl(3)) simp_all
    moreover have "waits_ok (worker_wait t ex)" using wo n it by (simp add: waits_ok_def w)
    ultimately show ?thesis using moves_waits[OF inv, of "worker_wait t ex"] by (simp add: w)
  qed
  with take show "moves_to items store0 (ex, store) (worker_wait t ex, store)" by blast
qed

lemma worker_store_inv:
  assumes inv: "run_inv items store0 (ex, store)" and t: "t < length (we_threads ex)" "we_threads ex ! t = PcStore k e"
    and ex1: "ex1 = (worker_store k e ex)\<lparr>we_threads := (we_threads ex)[t := PcLock]\<rparr>"
  shows "moves_to items store0 (ex, store) (ex1, store)" "steps_left (ex1, store) < steps_left (ex, store)"
proof -
  have bi: "batch_inv items store0 (ex, store)" and wo: "waits_ok ex" using inv by (simp_all add: run_inv_def)
  define ex2 where "ex2 = ex\<lparr>we_errors := (we_errors ex)[k := e], we_pending := we_pending ex - 1, we_threads := (we_threads ex)[t := PcLock]\<rparr>"
  have same: "we_threads ex1 = we_threads ex2" "we_items ex1 = we_items ex2" "we_stop ex1 = we_stop ex2" "we_next ex1 = we_next ex2"
    "we_errors ex1 = we_errors ex2" "we_pending ex1 = we_pending ex2" "we_workers ex1 = we_workers ex"
    by (simp_all add: ex1 ex2_def worker_store_def complete_notify_one_def Let_def)
  have b1: "batch_inv items store0 (ex1, store)"
    using batch_inv_waits[OF step_store[OF bi t ex2_def], of ex1] same by (simp add: same_work_refl(1))
  have "waits_ok ex1" using wo set_update_subset_insert[of "we_threads ex" t PcLock]
    by (auto simp: waits_ok_def ex1 worker_store_def complete_notify_one_def Let_def)
  moreover show less: "steps_left (ex1, store) < steps_left (ex, store)"
    using sum_list_update'[OF t(1), of pc_left PcLock] t same by (simp add: steps_left_def ex2_def)
  ultimately show "moves_to items store0 (ex, store) (ex1, store)"
    using b1 same by (simp add: moves_to_def run_inv_def ex2_def)
qed

lemma worker_wait_overwrites:
  "worker_wait t (ex\<lparr>we_threads := (we_threads ex)[t := pc]\<rparr>) = worker_wait t ex"
  by (simp add: worker_wait_def)

text \<open>A worker that runs a callback, stores its result or finds an item brings the batch closer to its end.\<close>

definition can_move :: "'s WorkExecutor \<Rightarrow> nat \<Rightarrow> bool" where
  "can_move ex t \<longleftrightarrow> t < length (we_threads ex) \<and>
     (pc_index (we_threads ex ! t) \<noteq> None \<or> we_threads ex ! t = PcLock \<and> we_next ex < length (we_items ex))"

lemma thread_step_inv:
  assumes inv: "run_inv items store0 s" and fr: "fresh_items items" and st: "thread_step t s = Some s'"
  shows "moves_to items store0 s s' \<and> (can_move (fst s) t \<longrightarrow> steps_left s' < steps_left s)"
proof -
  obtain ex store where s: "s = (ex, store)" by (cases s)
  have t: "t < length (we_threads ex)" using st by (auto simp: thread_step_def s split: if_splits)
  have bi: "batch_inv items store0 (ex, store)" and wo: "waits_ok ex" and it: "we_items ex = items"
    using inv batch_invD(1)[of items store0 ex store] by (simp_all add: run_inv_def s)
  show ?thesis
  proof (cases "we_threads ex ! t")
    case PcLock
    then have "s' = (worker_wait t ex, store)" using st t by (simp add: thread_step_def s)
    then show ?thesis using worker_wait_inv[OF inv[unfolded s] t PcLock] PcLock by (auto simp: can_move_def s it)
  next
    case (PcWork k item)
    obtain store' e where c: "wi_call item store = (store', e)" by (cases "wi_call item store")
    define ex1 where "ex1 = ex\<lparr>we_threads := (we_threads ex)[t := PcStore k e]\<rparr>"
    have "waits_ok ex1" using wo set_update_subset_insert[of "we_threads ex" t "PcStore k e"] by (auto simp: waits_ok_def ex1_def)
    moreover have "s' = (ex1, store')" using st t PcWork c by (simp add: thread_step_def s ex1_def)
    ultimately show ?thesis using step_work[OF bi fr t PcWork c ex1_def] sum_list_update'[OF t, of pc_left "PcStore k e"] PcWork
      by (simp add: moves_to_def run_inv_def steps_left_def s ex1_def)
  next
    case (PcStore k e)
    define ex1 where "ex1 = (worker_store k e ex)\<lparr>we_threads := (we_threads ex)[t := PcLock]\<rparr>"
    have th: "we_threads (worker_store k e ex) = we_threads ex" by (simp add: worker_store_def complete_notify_one_def Let_def)
    note S = worker_store_inv[OF inv[unfolded s] t PcStore ex1_def]
    have l: "t < length (we_threads ex1)" "we_threads ex1 ! t = PcLock" using t by (simp_all add: ex1_def)
    have "worker_wait t (worker_store k e ex) = worker_wait t ex1"
      using worker_wait_overwrites[of t "worker_store k e ex" PcLock] by (simp add: ex1_def th)
    then have s': "s' = (worker_wait t ex1, store)" using st t PcStore by (simp add: thread_step_def s)
    have "moves_to items store0 (ex1, store) s'" unfolding s' by (rule worker_wait_inv(1)[OF _ l]) (use S(1) in \<open>simp add: moves_to_def\<close>)
    then show ?thesis using moves_trans[OF S(1)] S(2) by (auto simp: s moves_to_def)
  qed (use st t in \<open>simp_all add: thread_step_def s\<close>)
qed

subsection \<open>Completion\<close>

lemma batch_progress:
  assumes inv: "run_inv items store0 s" and p: "steps_left s \<noteq> 0" "we_threads (fst s) \<noteq> []"
  shows "\<exists>t. can_move (fst s) t"
proof (rule ccontr)
  assume no: "\<nexists>t. can_move (fst s) t"
  obtain ex store where s: "s = (ex, store)" by (cases s)
  have bi: "batch_inv items store0 (ex, store)" and wo: "waits_ok ex" using inv by (simp_all add: run_inv_def s)
  note D = batch_invD[OF bi]
  have none: "pc_index pc = None" if "pc \<in> set (we_threads ex)" for pc using no that by (auto simp: can_move_def s in_set_conv_nth)
  then have "filter (\<lambda>pc. pc_index pc \<noteq> None) (we_threads ex) = []" by (simp add: filter_empty_conv)
  moreover have "we_pending ex \<noteq> 0" using pending_steps[OF bi] p(1) by (simp add: s)
  ultimately have n: "we_next ex < length items" using D(3,8) by simp
  have z: "0 < length (we_threads ex)" using p(2) by (simp add: s)
  have "we_threads ex ! 0 = PcLock"
    using none[OF nth_mem[OF z]] D(5)[OF z] wo n D(1) nth_mem[OF z] by (cases "we_threads ex ! 0") (auto simp: waits_ok_def)
  then show False using no n z D(1) by (auto simp: can_move_def s)
qed

lemma pool_turn_inv:
  assumes inv: "run_inv items store0 s" and fr: "fresh_items items"
  shows "moves_to items store0 s (pool_turn u s)"
proof (cases u)
  case (TurnWorker t)
  have "moves_to items store0 s s" using inv by (simp add: moves_to_def)
  then show ?thesis using thread_step_inv[OF assms, of t] by (auto simp: TurnWorker split: option.split)
next
  case TurnCaller
  obtain ex store where s: "s = (ex, store)" by (cases s)
  have "waits_ok (fst (pool_turn u s))" using inv by (auto simp: run_inv_def waits_ok_def s TurnCaller caller_wait_def)
  then show ?thesis using moves_waits[OF inv[unfolded s], of "fst (pool_turn u s)"] by (simp add: same_work_refl(1) s TurnCaller caller_wait_def)
next
  case (SpuriousWorker t)
  obtain ex store where s: "s = (ex, store)" by (cases s)
  have "waits_ok (fst (pool_turn u s))"
    using inv set_update_subset_insert[of "we_threads ex" t "woken (we_threads ex ! t)"] by (auto simp: run_inv_def waits_ok_def s SpuriousWorker)
  then show ?thesis using moves_waits[OF inv[unfolded s], of "fst (pool_turn u s)"] same_work_refl(4)[of "we_threads ex" t] by (simp add: s SpuriousWorker)
next
  case SpuriousCaller
  obtain ex store where s: "s = (ex, store)" by (cases s)
  have "waits_ok (fst (pool_turn u s))" using inv by (auto simp: run_inv_def waits_ok_def s SpuriousCaller complete_notify_one_def)
  then show ?thesis using moves_waits[OF inv[unfolded s], of "fst (pool_turn u s)"] by (simp add: same_work_refl(1) s SpuriousCaller complete_notify_one_def)
qed

lemma drive_inv:
  assumes "run_inv items store0 s" "fresh_items items"
  shows "moves_to items store0 s (drive sched s)"
  using assms(1)
proof (induction sched arbitrary: s)
  case Nil
  then show ?case by (simp add: moves_to_def)
next
  case (Cons u us)
  have m: "moves_to items store0 s (pool_turn u s)" using pool_turn_inv[OF Cons.prems assms(2)] .
  then have "moves_to items store0 (pool_turn u s) (drive us (pool_turn u s))" using Cons.IH by (simp add: moves_to_def)
  then show ?case using moves_trans[OF m] Cons.prems by (simp add: moves_to_def)
qed

lemma drive_done: "we_caller (fst s) = CallerDone \<Longrightarrow> drive sched s = s"
  by (cases sched) simp_all

lemma drive_append: "drive (xs @ ys) s = drive ys (drive xs s)"
  by (induction xs arbitrary: s) (simp_all add: drive_done)

text \<open>A worker that can move still can until it does, whatever the others do: nobody takes the mutex away for good.\<close>

lemma turn_moves:
  assumes inv: "run_inv items store0 s" and fr: "fresh_items items" and m: "can_move (fst s) t"
  shows "steps_left (pool_turn (TurnWorker t) s) < steps_left s"
    "u \<noteq> TurnWorker t \<Longrightarrow> steps_left (pool_turn u s) < steps_left s \<or> can_move (fst (pool_turn u s)) t"
proof -
  obtain ex store where s: "s = (ex, store)" by (cases s)
  have t: "t < length (we_threads ex)" using m by (simp add: can_move_def s)
  have "thread_step t s \<noteq> None" using m by (cases "we_threads ex ! t") (auto simp: can_move_def thread_step_def s split: prod.split)
  then obtain s' where "thread_step t s = Some s'" by blast
  then show "steps_left (pool_turn (TurnWorker t) s) < steps_left s" using thread_step_inv[OF inv fr] m by simp
  show "steps_left (pool_turn u s) < steps_left s \<or> can_move (fst (pool_turn u s)) t" if "u \<noteq> TurnWorker t"
  proof (cases u)
    case (TurnWorker v)
    show ?thesis
    proof (cases "thread_step v s")
      case (Some s')
      show ?thesis
      proof (cases "can_move ex v")
        case True
        then show ?thesis using thread_step_inv[OF inv fr Some] Some TurnWorker by (simp add: s)
      next
        case False
        have v: "v < length (we_threads ex)" "we_threads ex ! v = PcLock" "\<not> we_next ex < length (we_items ex)"
          using Some False by (cases "we_threads ex ! v"; auto simp: thread_step_def can_move_def s split: if_splits)+
        moreover have "\<not> we_stop ex" using inv batch_invD(2)[of items store0 ex store] by (simp add: run_inv_def s)
        ultimately have "s' = (ex\<lparr>we_threads := (we_threads ex)[v := PcBlocked]\<rparr>, store)" using Some by (simp add: thread_step_def s worker_wait_def)
        then show ?thesis using m Some TurnWorker that by (auto simp: can_move_def s)
      qed
    qed (use m TurnWorker in simp)
  next
    case (SpuriousWorker v)
    then show ?thesis using m by (cases "v = t"; cases "we_threads ex ! t") (auto simp: can_move_def s)
  qed (use m in \<open>auto simp: can_move_def s caller_wait_def complete_notify_one_def\<close>)
qed

lemma mover_not_done: "run_inv items store0 s \<Longrightarrow> steps_left s \<noteq> 0 \<Longrightarrow> we_caller (fst s) \<noteq> CallerDone"
  using pending_steps[of items store0 s] by (auto simp: run_inv_def waits_ok_def)

lemma drive_round:
  assumes "run_inv items store0 s" "fresh_items items" "can_move (fst s) t" "TurnWorker t \<in> set sched"
  shows "steps_left (drive sched s) < steps_left s"
  using assms(1,3,4)
proof (induction sched arbitrary: s)
  case (Cons u us)
  note T = turn_moves[OF Cons.prems(1) assms(2) Cons.prems(2)]
  have run: "run_inv items store0 (pool_turn u s)" "steps_left (pool_turn u s) \<le> steps_left s"
    using pool_turn_inv[OF Cons.prems(1) assms(2), of u] by (simp_all add: moves_to_def)
  have rest: "steps_left (drive us (pool_turn u s)) \<le> steps_left (pool_turn u s)" using drive_inv[OF run(1) assms(2), of us] by (simp add: moves_to_def)
  have nd: "we_caller (fst s) \<noteq> CallerDone" using mover_not_done[OF Cons.prems(1)] T(1) by simp
  show ?case
  proof (cases "u = TurnWorker t \<or> steps_left (pool_turn u s) < steps_left s")
    case True
    then show ?thesis using T(1) rest nd by auto
  next
    case False
    then have "can_move (fst (pool_turn u s)) t" "TurnWorker t \<in> set us" using T(2)[of u] Cons.prems(3) by auto
    then show ?thesis using Cons.IH[OF run(1)] run(2) nd by simp
  qed
qed simp

text \<open>Once nothing is pending the caller has been notified, and its turn ends the batch.\<close>

lemma drive_returns:
  assumes "run_inv items store0 s" "fresh_items items" "steps_left s = 0" "TurnCaller \<in> set sched"
  shows "we_caller (fst (drive sched s)) = CallerDone"
  using assms(1,3,4)
proof (induction sched arbitrary: s)
  case (Cons u us)
  have p: "we_pending (fst s) = 0" using Cons.prems(1,2) pending_steps[of items store0 s] by (simp add: run_inv_def)
  show ?case
  proof (cases "we_caller (fst s) = CallerDone \<or> u = TurnCaller")
    case True
    have "we_caller (fst s) = CallerDone \<or> we_caller (fst s) = CallerWoken"
      using Cons.prems(1) p by (cases "we_caller (fst s)") (auto simp: run_inv_def waits_ok_def)
    then have "we_caller (fst s) = CallerDone \<or> we_caller (fst (pool_turn u s)) = CallerDone" using True p by (cases s) (auto simp: caller_wait_def)
    then show ?thesis by (auto simp: drive_done)
  next
    case False
    have "moves_to items store0 s (pool_turn u s)" using pool_turn_inv[OF Cons.prems(1) assms(2)] .
    then have "we_caller (fst (drive us (pool_turn u s))) = CallerDone" using Cons.IH[of "pool_turn u s"] Cons.prems False by (auto simp: moves_to_def)
    then show ?thesis using False by simp
  qed
qed simp

definition fair_round :: "nat \<Rightarrow> turn list \<Rightarrow> bool" where
  "fair_round workers r \<longleftrightarrow> TurnCaller \<in> set r \<and> (\<forall>t < workers. TurnWorker t \<in> set r)"

lemma fair_completes:
  assumes "run_inv items store0 s" "fresh_items items" "we_threads (fst s) \<noteq> []" "steps_left s < length rounds"
    "list_all (fair_round (length (we_threads (fst s)))) rounds"
  shows "we_caller (fst (drive (concat rounds) s)) = CallerDone"
  using assms(1,3-5)
proof (induction rounds arbitrary: s)
  case (Cons r rounds)
  have fair: "fair_round (length (we_threads (fst s))) r" using Cons.prems(4) by simp
  note D = drive_inv[OF Cons.prems(1) assms(2), of r]
  show ?case
  proof (cases "steps_left s = 0")
    case True
    then show ?thesis using drive_returns[OF Cons.prems(1) assms(2), of r] fair by (simp add: drive_append drive_done fair_round_def)
  next
    case False
    obtain t where t: "can_move (fst s) t" using batch_progress[OF Cons.prems(1) False Cons.prems(2)] by blast
    then have less: "steps_left (drive r s) < steps_left s"
      using drive_round[OF Cons.prems(1) assms(2) t, of r] fair by (simp add: fair_round_def can_move_def)
    have "we_threads (fst (drive r s)) \<noteq> []" using D Cons.prems(2) by (metis length_0_conv moves_to_def)
    then have "we_caller (fst (drive (concat rounds) (drive r s))) = CallerDone"
      using Cons.IH[of "drive r s"] D less Cons.prems(3,4) by (simp add: moves_to_def)
    then show ?thesis by (simp add: drive_append)
  qed
qed simp

subsection \<open>Agreement with the serial run\<close>

lemma serial_loop_spec:
  "fresh_items items \<Longrightarrow> serial_loop items first store = (store', e) \<Longrightarrow>
     e = (if first \<noteq> None then first else first_error (map (\<lambda>item. item_error item store) items)) \<and>
     (\<forall>item\<in>set items. store' (wi_instance item) = item_post item store) \<and> (\<forall>a. a \<notin> wi_instance ` set items \<longrightarrow> store' a = store a)"
proof (induction items arbitrary: first store)
  case (Cons item items)
  define store1 where "store1 = store(wi_instance item := item_post item store)"
  have fr: "fresh_items items" "wi_instance item \<notin> wi_instance ` set items" using Cons.prems(1) by (auto simp: fresh_items_def)
  have call: "wi_call item store = (store1, item_error item store)" by (simp add: wi_call_def item_post_def item_error_def store1_def split: prod.split)
  have same: "item_error it store1 = item_error it store \<and> item_post it store1 = item_post it store" if "it \<in> set items" for it
  proof -
    have "wi_instance it \<noteq> wi_instance item" using that fr(2) by (metis imageI)
    then show ?thesis by (simp add: item_error_def item_post_def store1_def)
  qed
  then have maps: "map (\<lambda>it. item_error it store1) items = map (\<lambda>it. item_error it store) items" by simp
  have "serial_loop items (if first = None then item_error item store else first) store1 = (store', e)" using Cons.prems(2) call by simp
  note IH = Cons.IH[OF fr(1) this]
  have "e = (if first \<noteq> None then first else first_error (map (\<lambda>item. item_error item store) (item # items)))"
    using IH unfolding maps by auto
  moreover have "store' (wi_instance item) = item_post item store" using IH fr(2) by (simp add: store1_def)
  moreover have "store' (wi_instance it) = item_post it store" if "it \<in> set items" for it using IH same[OF that] that by simp
  moreover have "store' a = store a" if "a \<notin> wi_instance ` set (item # items)" for a using IH that by (simp add: store1_def)
  ultimately show ?case by simp
qed (simp add: fresh_items_def)

lemma batch_done:
  assumes inv: "batch_inv items store0 (ex, store)" and fr: "fresh_items items" and p: "we_pending ex = 0"
  shows "runSerial items store0 = (store, first_error (we_errors ex))" "list_all waiting (we_threads ex)"
proof -
  note D = batch_invD[OF inv]
  have n: "we_next ex = length items" "filter (\<lambda>pc. pc_index pc \<noteq> None) (we_threads ex) = []" using D(3,8) p by simp_all
  have nb: "\<not> busy ex t i" for t i using n(2) nth_mem[of t "we_threads ex"] by (auto simp: busy_def filter_empty_conv)
  have fin: "we_errors ex ! i = item_error (items ! i) store0 \<and> store (wi_instance (items ! i)) = item_post (items ! i) store0" if "i < length items" for i
    using inv nb that n(1) by (simp add: batch_inv_def)
  have errs: "we_errors ex = map (\<lambda>item. item_error item store0) items" by (rule nth_equalityI) (use D(4) fin in simp_all)
  obtain store' e where r: "serial_loop items None store0 = (store', e)" by (cases "serial_loop items None store0")
  note S = serial_loop_spec[OF fr r]
  have "store' a = store a" for a
  proof (cases "a \<in> wi_instance ` set items")
    case True
    then obtain i where "i < length items" "a = wi_instance (items ! i)" by (auto simp: in_set_conv_nth)
    then show ?thesis using S fin by simp
  next
    case False
    then show ?thesis using S inv by (simp add: batch_inv_def)
  qed
  then show "runSerial items store0 = (store, first_error (we_errors ex))" using S r errs by (simp add: runSerial_def fun_eq_iff)
  have "waiting (we_threads ex ! t)" if "t < length (we_threads ex)" for t
    using D(5)[OF that] nb[of t] that by (cases "we_threads ex ! t") (auto simp: busy_def)
  then show "list_all waiting (we_threads ex)" by (simp add: list_all_length)
qed

text \<open>Between two calls of \<open>run\<close> every worker waits for an item, blocked or about to look.\<close>

definition pool_idle :: "'s WorkExecutor \<Rightarrow> bool" where
  "pool_idle ex \<longleftrightarrow> \<not> we_stop ex \<and> we_items ex = [] \<and> we_caller ex = CallerAway \<and> we_workers ex \<noteq> 0 \<and>
     length (we_threads ex) = (if we_workers ex = 1 then 0 else we_workers ex) \<and> list_all waiting (we_threads ex)"

lemma new_executor_idle: "new_executor spawn workers = Inr ex \<Longrightarrow> pool_idle ex \<and> we_workers ex = workers"
  by (auto simp: new_executor_def pool_idle_def Let_def list_all_length split: if_splits option.splits)

lemma woken_idle: "list_all waiting pcs \<Longrightarrow> map woken pcs = replicate (length pcs) PcLock"
proof -
  have "waiting pc \<Longrightarrow> woken pc = PcLock" for pc :: "'a worker_pc" by (cases pc) simp_all
  then show "list_all waiting pcs \<Longrightarrow> map woken pcs = replicate (length pcs) PcLock" by (simp add: list_eq_iff_nth_eq list_all_length)
qed

lemma begin_inv:
  assumes "pool_idle ex" "we_workers ex \<noteq> 1" "items \<noteq> []"
  shows "run_inv items store (begin_batch items ex, store)" "steps_left (begin_batch items ex, store) = 3 * length items"
    "length (we_threads (begin_batch items ex)) = we_workers ex" "we_workers (begin_batch items ex) = we_workers ex"
proof -
  have "we_threads (begin_batch items ex) = replicate (we_workers ex) PcLock"
    using assms woken_idle[of "we_threads ex"] by (simp add: begin_batch_def workReady_notify_all_def caller_wait_def Let_def pool_idle_def)
  moreover have "we_items (begin_batch items ex) = items" "we_next (begin_batch items ex) = 0" "we_pending (begin_batch items ex) = length items"
    "we_errors (begin_batch items ex) = replicate (length items) None" "\<not> we_stop (begin_batch items ex)"
    "we_caller (begin_batch items ex) = CallerBlocked" and w: "we_workers (begin_batch items ex) = we_workers ex"
    using assms by (simp_all add: begin_batch_def workReady_notify_all_def caller_wait_def Let_def pool_idle_def)
  ultimately show "run_inv items store (begin_batch items ex, store)" "steps_left (begin_batch items ex, store) = 3 * length items"
    "length (we_threads (begin_batch items ex)) = we_workers ex"
    using assms(3) by (auto simp: run_inv_def batch_inv_def waits_ok_def busy_def steps_left_def map_replicate_const sum_list_replicate)
  show "we_workers (begin_batch items ex) = we_workers ex" by (rule w)
qed

text \<open>C3.  Running a batch on the pool is equivalent to running it serially.  For any number of workers and any interleaving of the
  threads that completes the batch, spurious wake-ups included, every callback has run exactly once on its own instance, the
  exception that run rethrows is the one of the lowest item index, as in runSerial, and the pool is idle again.  A missing callback
  is refused before anything runs.\<close>
theorem executor_run_serial:
  assumes idle: "pool_idle ex" and inst: "distinct (map wi_instance items)"
    and run: "executor_run sched nested items ex store = Some (ex', store', e)"
  shows "pool_idle ex' \<and>
    (if list_ex (\<lambda>item. wi_work item = None) items
     then store' = store \<and> e = Some (InvalidArgument ''WorkExecutor task needs a Work callback'')
     else runSerial items store = (store', e))"
proof (cases "list_ex (\<lambda>item. wi_work item = None) items \<or> nested \<or> we_workers ex = 1 \<or> items = []")
  case True
  then show ?thesis using run idle by (auto simp: executor_run_def runSerial_def split: if_splits prod.splits)
next
  case False
  then have fr: "fresh_items items" using inst by (auto simp: fresh_items_def list_ex_iff list_all_iff)
  obtain ex1 store1 where d: "drive sched (begin_batch items ex, store) = (ex1, store1)" by (cases "drive sched (begin_batch items ex, store)")
  have p: "we_caller ex1 = CallerDone" "ex' = ex1\<lparr>we_items := [], we_caller := CallerAway\<rparr>" "store' = store1" "e = first_error (we_errors ex1)"
    using run False d by (auto simp: executor_run_def split: if_splits)
  have w: "we_workers ex \<noteq> 1" "items \<noteq> []" using False by blast+
  have "moves_to items store (begin_batch items ex, store) (ex1, store1)" using drive_inv[OF begin_inv(1)[OF idle w] fr, of store sched] d by simp
  then have inv: "batch_inv items store (ex1, store1)" "waits_ok ex1" "length (we_threads ex1) = we_workers ex" "we_workers ex1 = we_workers ex"
    using begin_inv(3,4)[OF idle w] by (simp_all add: moves_to_def run_inv_def)
  have z: "we_pending ex1 = 0" using inv(2) p(1) by (simp add: waits_ok_def)
  have "pool_idle ex'" using batch_done(2)[OF inv(1) fr z] inv(3,4) batch_invD(2)[OF inv(1)] idle False by (simp add: pool_idle_def p(2))
  then show ?thesis using batch_done(1)[OF inv(1) fr z] p False by auto
qed

definition add_item :: "nat \<Rightarrow> nat \<Rightarrow> nat WorkItem" where
  "add_item i k = \<lparr>wi_instance = i, wi_work = Some (\<lambda>n. if n = 0 then (n, Some (OutOfRange ''zero'')) else (n + k, None))\<rparr>"

text \<open>Two workers, one blocked from an earlier batch.\<close>

definition pool2 :: "nat WorkExecutor" where
  "pool2 = \<lparr>we_workers = 2, we_threads = [PcLock, PcBlocked], we_caller = CallerAway, we_items = [], we_errors = [], we_next = 0,
     we_pending = 0, we_stop = False\<rparr>"

lemma pool2_idle: "pool_idle pool2"
  by (simp add: pool_idle_def pool2_def)

theorem executor_run_serial_witness:
  "\<exists>ex' store'. executor_run [TurnWorker 1, SpuriousCaller, TurnWorker 0, TurnCaller, TurnWorker 0, TurnWorker 1, TurnWorker 0, TurnWorker 1, TurnCaller]
     False [add_item 0 5, add_item 1 7] pool2 (\<lambda>i. if i = 0 then 0 else 2) =
     Some (ex', store', Some (OutOfRange ''zero'')) \<and> store' 1 = 9 \<and> pool_idle ex'"
proof -
  let ?items = "[add_item 0 5, add_item 1 7]" and ?store = "\<lambda>i. if i = 0 then 0 else 2 :: nat"
  let ?sched = "[TurnWorker 1, SpuriousCaller, TurnWorker 0, TurnCaller, TurnWorker 0, TurnWorker 1, TurnWorker 0, TurnWorker 1, TurnCaller]"
  obtain ex' store' e where run: "executor_run ?sched False ?items pool2 ?store = Some (ex', store', e)"
    by (simp add: executor_run_def begin_batch_def pool2_def add_item_def thread_step_def wi_call_def worker_wait_def worker_store_def
        complete_notify_one_def workReady_notify_all_def caller_wait_def)
  have "pool_idle ex' \<and> runSerial ?items ?store = (store', e)"
    using executor_run_serial[OF pool2_idle _ run] by (simp add: add_item_def)
  moreover have "e = Some (OutOfRange ''zero'')" "store' 1 = 9" using calculation by (auto simp: runSerial_def wi_call_def add_item_def)
  ultimately show ?thesis using run by blast
qed

text \<open>C14.  No wake-up of the pool is lost.  A call of run on an idle pool, whose workers may all be blocked on workReady_, returns under
  every fair schedule: after one round more than three per item, where a round gives every worker and the caller the processor at
  least once, in any order and mixed with anything else.  A blocked thread moves only when it is notified, so this needs the
  notification of the workers that starts the batch and the one of the caller when the last item is stored; spurious wake-ups
  neither help nor hinder.\<close>
theorem executor_run_completes:
  assumes idle: "pool_idle ex" and inst: "distinct (map wi_instance items)"
    and fair: "3 * length items < length rounds" "list_all (fair_round (we_workers ex)) rounds"
  shows "\<exists>ex' store' e. executor_run (concat rounds) nested items ex store = Some (ex', store', e)"
proof (cases "list_ex (\<lambda>item. wi_work item = None) items \<or> nested \<or> we_workers ex = 1 \<or> items = []")
  case True
  then show ?thesis by (auto simp: executor_run_def split: prod.splits)
next
  case False
  then have fr: "fresh_items items" using inst by (auto simp: fresh_items_def list_ex_iff list_all_iff)
  have w: "we_workers ex \<noteq> 1" "items \<noteq> []" using False by blast+
  have "we_threads (begin_batch items ex) \<noteq> []" using begin_inv(3)[OF idle w] idle by (auto simp: pool_idle_def)
  then have "we_caller (fst (drive (concat rounds) (begin_batch items ex, store))) = CallerDone"
    using fair_completes[OF begin_inv(1)[OF idle w] fr, of store rounds] begin_inv(2)[OF idle w, of store] begin_inv(3)[OF idle w] fair by simp
  then show ?thesis using False by (auto simp: executor_run_def split: prod.splits)
qed

theorem executor_run_completes_witness:
  "\<exists>ex' store' e. executor_run (concat (replicate 7 [TurnWorker 1, TurnCaller, TurnWorker 0])) False [add_item 0 5, add_item 1 7] pool2 (\<lambda>i. 2) =
     Some (ex', store', e)"
proof (rule executor_run_completes[OF pool2_idle])
  show "list_all (fair_round (we_workers pool2)) (replicate 7 [TurnWorker 1, TurnCaller, TurnWorker 0])"
    by (auto simp: pool2_def less_2_cases_iff fair_round_def list_all_length)
qed (simp_all add: add_item_def)

subsection \<open>Stopping\<close>

text \<open>While the pool stops, a thread waits or has left, and leaves at its turn unless it is blocked.\<close>

definition stopping :: "'s WorkExecutor \<times> 's store \<Rightarrow> bool" where
  "stopping s \<longleftrightarrow> we_stop (fst s) \<and> list_all (\<lambda>pc. waiting pc \<or> exited pc) (we_threads (fst s))"

definition stop_move :: "'s worker_pc \<Rightarrow> 's worker_pc \<Rightarrow> bool" where
  "stop_move pc pc' \<longleftrightarrow> pc' = pc \<or> pc = PcLock \<and> pc' = PcExit \<or> pc = PcBlocked \<and> pc' = PcLock"

lemma stop_moves:
  assumes "list_all2 stop_move pcs pcs'"
  shows "length pcs' = length pcs" "list_all (\<lambda>pc. waiting pc \<or> exited pc) pcs \<Longrightarrow> list_all (\<lambda>pc. waiting pc \<or> exited pc) pcs'"
    "PcBlocked \<notin> set pcs \<Longrightarrow> PcBlocked \<notin> set pcs'" "t < length pcs \<Longrightarrow> exited (pcs ! t) \<Longrightarrow> exited (pcs' ! t)"
proof -
  show "length pcs' = length pcs" using assms by (simp add: list_all2_lengthD)
  show "list_all (\<lambda>pc. waiting pc \<or> exited pc) pcs \<Longrightarrow> list_all (\<lambda>pc. waiting pc \<or> exited pc) pcs'" "PcBlocked \<notin> set pcs \<Longrightarrow> PcBlocked \<notin> set pcs'"
    using assms by (induction, auto simp: stop_move_def)
  show "t < length pcs \<Longrightarrow> exited (pcs ! t) \<Longrightarrow> exited (pcs' ! t)" using list_all2_nthD[OF assms, of t] by (auto simp: stop_move_def)
qed

lemma stop_move_update:
  assumes "stop_move (pcs ! t) pc"
  shows "list_all2 stop_move pcs (pcs[t := pc])"
  using assms by (cases "t < length pcs") (auto simp: list_all2_conv_all_nth stop_move_def nth_list_update)

lemma stopping_turn:
  assumes "stopping s"
  shows "we_stop (fst (pool_turn u s)) \<and> snd (pool_turn u s) = snd s \<and> list_all2 stop_move (we_threads (fst s)) (we_threads (fst (pool_turn u s)))"
    "t < length (we_threads (fst s)) \<Longrightarrow> PcBlocked \<notin> set (we_threads (fst s)) \<Longrightarrow> exited (we_threads (fst (pool_turn (TurnWorker t) s)) ! t)"
proof -
  obtain ex store where s: "s = (ex, store)" by (cases s)
  have st: "we_stop ex" and ok: "v < length (we_threads ex) \<Longrightarrow> waiting (we_threads ex ! v) \<or> exited (we_threads ex ! v)" for v
    using assms by (simp_all add: stopping_def s list_all_length)
  have turn: "pool_turn (TurnWorker v) s =
      (if v < length (we_threads ex) \<and> we_threads ex ! v = PcLock then (ex\<lparr>we_threads := (we_threads ex)[v := PcExit]\<rparr>, store) else s)" for v
    using ok[of v] st by (cases "we_threads ex ! v") (auto simp: thread_step_def worker_wait_def s)
  have refl: "list_all2 stop_move pcs pcs" for pcs :: "'a worker_pc list" by (simp add: list_all2_conv_all_nth stop_move_def)
  show "we_stop (fst (pool_turn u s)) \<and> snd (pool_turn u s) = snd s \<and> list_all2 stop_move (we_threads (fst s)) (we_threads (fst (pool_turn u s)))"
  proof (cases u)
    case (TurnWorker v)
    have "list_all2 stop_move (we_threads ex) ((we_threads ex)[v := PcExit])" if "we_threads ex ! v = PcLock"
      by (rule stop_move_update) (simp add: that stop_move_def)
    then show ?thesis unfolding TurnWorker turn using st by (simp add: s refl)
  next
    case (SpuriousWorker v)
    have "list_all2 stop_move (we_threads ex) ((we_threads ex)[v := woken (we_threads ex ! v)])"
      by (rule stop_move_update) (cases "we_threads ex ! v"; simp add: stop_move_def)
    then show ?thesis using st by (simp add: s SpuriousWorker)
  qed (simp_all add: s st refl caller_wait_def complete_notify_one_def)
  show "exited (we_threads (fst (pool_turn (TurnWorker t) s)) ! t)" if "t < length (we_threads (fst s))" "PcBlocked \<notin> set (we_threads (fst s))"
    using that ok[of t] nth_mem[of t "we_threads ex"] unfolding turn by (cases "we_threads ex ! t") (simp_all add: s)
qed

lemma stopping_turns:
  assumes "stopping s"
  shows "stopping (fold pool_turn sched s) \<and> snd (fold pool_turn sched s) = snd s \<and>
    length (we_threads (fst (fold pool_turn sched s))) = length (we_threads (fst s)) \<and>
    (\<forall>t < length (we_threads (fst s)). PcBlocked \<notin> set (we_threads (fst s)) \<and> TurnWorker t \<in> set sched \<or> exited (we_threads (fst s) ! t) \<longrightarrow>
       exited (we_threads (fst (fold pool_turn sched s)) ! t))"
  using assms
proof (induction sched arbitrary: s)
  case (Cons u us)
  define s1 where "s1 = pool_turn u s"
  note T = stopping_turn(1)[OF Cons.prems, of u, folded s1_def]
  note M = stop_moves[OF conjunct2[OF conjunct2[OF T]]]
  have st: "stopping s1" using T M(2) Cons.prems by (simp add: stopping_def)
  have "exited (we_threads (fst s1) ! t) \<or> PcBlocked \<notin> set (we_threads (fst s1)) \<and> TurnWorker t \<in> set us"
    if "t < length (we_threads (fst s))" "PcBlocked \<notin> set (we_threads (fst s)) \<and> TurnWorker t \<in> set (u # us) \<or> exited (we_threads (fst s) ! t)" for t
    using that stopping_turn(2)[OF Cons.prems, of t] M(3) M(4)[of t] by (cases "u = TurnWorker t") (auto simp: s1_def)
  then show ?case using Cons.IH[OF st] T M(1) unfolding fold_simps s1_def[symmetric] by metis
qed simp

text \<open>C15.  The destructor of an idle pool returns: every worker, also one blocked on workReady_, leaves its loop once it has been given
  the processor after the notification, whatever ran between the request to stop and the notification.  No callback runs.\<close>
theorem executor_stop_joins:
  assumes idle: "pool_idle ex" and fair: "\<forall>t < we_workers ex. TurnWorker t \<in> set sched"
  shows "\<exists>ex'. stopAndJoin between sched (ex, store) = Some (ex', store) \<and> list_all exited (we_threads ex')"
proof -
  let ?s = "(ex\<lparr>we_stop := True\<rparr>, store)"
  obtain ex1 store1 where r: "fold pool_turn between ?s = (ex1, store1)" by (cases "fold pool_turn between ?s")
  have "stopping ?s" using idle by (auto simp: pool_idle_def stopping_def list_all_length)
  note B = stopping_turns[OF this, of between, unfolded r]
  define ex2 where "ex2 = workReady_notify_all ex1"
  have "waiting (woken pc) \<or> exited (woken pc) \<longleftrightarrow> waiting pc \<or> exited pc" for pc :: "'a worker_pc" by (cases pc) simp_all
  then have "stopping (ex2, store1)" using B by (simp add: stopping_def ex2_def workReady_notify_all_def list_all_length)
  note S = stopping_turns[OF this, of sched]
  have nb: "PcBlocked \<notin> set (we_threads ex2)" by (auto simp: ex2_def workReady_notify_all_def)
  have len: "length (we_threads ex2) \<le> we_workers ex" using B idle by (simp add: ex2_def workReady_notify_all_def pool_idle_def)
  have "list_all exited (we_threads (fst (fold pool_turn sched (ex2, store1))))"
    unfolding list_all_length using S nb len fair by auto
  moreover have "snd (fold pool_turn sched (ex2, store1)) = store" using S B by simp
  ultimately show ?thesis using r by (cases "fold pool_turn sched (ex2, store1)") (simp add: stopAndJoin_def Let_def ex2_def[symmetric])
qed

theorem executor_stop_joins_witness:
  "\<exists>ex'. stopAndJoin [TurnWorker 0] [TurnWorker 0, TurnWorker 1] (pool2, \<lambda>i. 2) = Some (ex', \<lambda>i. 2) \<and> list_all exited (we_threads ex')"
proof (rule executor_stop_joins[OF pool2_idle])
  show "\<forall>t < we_workers pool2. TurnWorker t \<in> set [TurnWorker 0, TurnWorker 1]" by (auto simp: pool2_def less_2_cases_iff)
qed

end
