(* ===== verification/Gfsim_Config.thy ===== *)
theory Gfsim_Config
  imports Gfsim_Prelude "HOL-Library.List_Lexorder" "HOL-Library.Char_ord"
begin

text \<open>
  The model configuration of \<^verbatim>\<open>include/gfsim/model_input.h\<close> and \<^verbatim>\<open>runtime/model_input.cpp\<close>: the check
  that a byte string is UTF-8, the parser of the configuration document and its canonical printer.  A byte is a
  \<open>char\<close>; the state of the \<open>Parser\<close> class, an input and a cursor that only moves forward, is the rest of the
  input.  The ordered map of the limits is an association list in increasing order of its keys, which is the
  order in which the code visits it.  Decimal output and \<open>std::from_chars\<close> are written out.

  The lemmas show that the UTF-8 check accepts exactly the encodings of sequences of Unicode scalar values, and
  that the parser accepts exactly the empty document and the canonical documents, each as the limits it prints.
\<close>

subsection \<open>UTF-8\<close>

unbundle bit_operations_syntax

definition byte :: "char \<Rightarrow> nat" where
  "byte c = of_char c"

text \<open>The continuation bytes of one code point: the code point and the rest of the input.\<close>

fun utf8_tail :: "nat \<Rightarrow> nat \<Rightarrow> string \<Rightarrow> (nat \<times> string) option" where
  "utf8_tail 0 codePoint input = Some (codePoint, input)"
| "utf8_tail (Suc n) codePoint [] = None"
| "utf8_tail (Suc n) codePoint (c # input) =
     (if byte c AND 0xc0 \<noteq> 0x80 then None else utf8_tail n (push_bit 6 codePoint OR (byte c AND 0x3f)) input)"

lemma utf8_tail_length: "utf8_tail n cp input = Some (cp', rest) \<Longrightarrow> length rest + n = length input"
  by (induction n cp input rule: utf8_tail.induct) (auto split: if_splits)

definition utf8_lead :: "nat \<Rightarrow> (nat \<times> nat \<times> nat) option" where
  "utf8_lead lead =
     (if lead AND 0xe0 = 0xc0 then Some (1, lead AND 0x1f, 0x80)
      else if lead AND 0xf0 = 0xe0 then Some (2, lead AND 0x0f, 0x800)
      else if lead AND 0xf8 = 0xf0 then Some (3, lead AND 0x07, 0x10000)
      else None)"

function isValidUtf8 :: "string \<Rightarrow> bool" where
  "isValidUtf8 [] = True"
| "isValidUtf8 (c # input) =
     (if byte c < 0x80 then isValidUtf8 input
      else case utf8_lead (byte c) of
        None \<Rightarrow> False
      | Some (continuationCount, codePoint, minimum) \<Rightarrow>
          (case utf8_tail continuationCount codePoint input of
             None \<Rightarrow> False
           | Some (codePoint, input') \<Rightarrow>
               if codePoint < minimum \<or> codePoint > 0x10ffff \<or> (codePoint \<ge> 0xd800 \<and> codePoint \<le> 0xdfff) then False
               else isValidUtf8 input'))"
  by pat_completeness auto
termination
  by (relation "measure length") (auto dest!: utf8_tail_length)

subsection \<open>The parser\<close>

definition take_token :: "string \<Rightarrow> string \<Rightarrow> string option" where
  "take_token token s = (if take (length token) s = token then Some (drop (length token) s) else None)"

definition parser_null :: "string \<Rightarrow> string option" where
  "parser_null s = take_token ''null'' s"

definition is_digit :: "char \<Rightarrow> bool" where
  "is_digit c \<longleftrightarrow> 48 \<le> byte c \<and> byte c \<le> 57"

text \<open>\<open>std::from_chars\<close> on a string of digits; the value must fit the type.\<close>

definition decimal_value :: "string \<Rightarrow> nat" where
  "decimal_value ds = foldl (\<lambda>n c. 10 * n + (byte c - 48)) 0 ds"

definition from_chars :: "string \<Rightarrow> u64 option" where
  "from_chars ds = (if decimal_value ds < 2 ^ 64 then Some (of_nat (decimal_value ds)) else None)"

definition unsignedInteger :: "string \<Rightarrow> (u64 \<times> string) option" where
  "unsignedInteger s =
     (let ds = takeWhile is_digit s; rest = dropWhile is_digit s
      in if ds = [] \<or> (length ds > 1 \<and> hd ds = CHR ''0'') then None
         else map_option (\<lambda>v. (v, rest)) (from_chars ds))"

definition dquote :: char where "dquote = CHR 0x22"
definition backslash :: char where "backslash = CHR 0x5C"

definition unescape :: "char \<Rightarrow> char option" where
  "unescape c =
     (if c = dquote \<or> c = backslash \<or> c = CHR ''/'' then Some c
      else if c = CHR ''b'' then Some (CHR 0x08) else if c = CHR ''f'' then Some (CHR 0x0C)
      else if c = CHR ''n'' then Some (CHR 0x0A) else if c = CHR ''r'' then Some (CHR 0x0D)
      else if c = CHR ''t'' then Some (CHR 0x09) else None)"

fun string_loop :: "string \<Rightarrow> string \<Rightarrow> (string \<times> string) option" where
  "string_loop result [] = None"
| "string_loop result (c # s) =
     (if c = dquote then Some (result, s)
      else if byte c < 0x20 then None
      else if c \<noteq> backslash then string_loop (result @ [c]) s
      else case s of
        [] \<Rightarrow> None
      | d # s' \<Rightarrow> (case unescape d of None \<Rightarrow> None | Some x \<Rightarrow> string_loop (result @ [x]) s'))"

definition parser_string :: "string \<Rightarrow> (string \<times> string) option" where
  "parser_string s = (case take_token [dquote] s of None \<Rightarrow> None | Some s' \<Rightarrow> string_loop [] s')"

definition optionalUnsigned :: "string \<Rightarrow> (u64 option \<times> string) option" where
  "optionalUnsigned s = (case parser_null s of
     Some s' \<Rightarrow> Some (None, s')
   | None \<Rightarrow> map_option (\<lambda>(v, s'). (Some v, s')) (unsignedInteger s))"

subsection \<open>The canonical printer\<close>

definition quote_char :: "char \<Rightarrow> string option" where
  "quote_char c =
     (if c = dquote then Some [backslash, dquote] else if c = backslash then Some [backslash, backslash]
      else if c = CHR 0x08 then Some [backslash, CHR ''b''] else if c = CHR 0x0C then Some [backslash, CHR ''f'']
      else if c = CHR 0x0A then Some [backslash, CHR ''n''] else if c = CHR 0x0D then Some [backslash, CHR ''r'']
      else if c = CHR 0x09 then Some [backslash, CHR ''t'']
      else if byte c < 0x20 then None else Some [c])"

fun quote_loop :: "string \<Rightarrow> string \<Rightarrow> string" where
  "quote_loop output [] = output @ [dquote]"
| "quote_loop output (c # cs) = (case quote_char c of None \<Rightarrow> [] | Some s \<Rightarrow> quote_loop (output @ s) cs)"

definition quote :: "string \<Rightarrow> string" where
  "quote value = quote_loop [dquote] value"

fun decimal :: "nat \<Rightarrow> string" where
  "decimal n = (if n < 10 then [char_of (48 + n)] else decimal (n div 10) @ [char_of (48 + n mod 10)])"

declare decimal.simps [simp del]

definition print_u64 :: "u64 \<Rightarrow> string" where
  "print_u64 v = decimal (unat v)"

record RuntimeLimits =
  deadlockWindow :: "u64 option"
  maxTicks :: "u64 option"
  maxDomainCycles :: "(string \<times> u64) list"

definition no_limits :: RuntimeLimits where
  "no_limits = \<lparr>deadlockWindow = None, maxTicks = None, maxDomainCycles = []\<rparr>"

definition print_optional :: "u64 option \<Rightarrow> string" where
  "print_optional v = (case v of Some x \<Rightarrow> print_u64 x | None \<Rightarrow> ''null'')"

fun print_domains :: "bool \<Rightarrow> (string \<times> u64) list \<Rightarrow> string" where
  "print_domains first [] = []"
| "print_domains first ((name, value) # m) = (if first then [] else '','') @ quote name @ '':'' @ print_u64 value @ print_domains False m"

definition canonicalConfig :: "RuntimeLimits \<Rightarrow> string" where
  \<open>canonicalConfig limits =
     ''{"deadlock_window":'' @ print_optional (deadlockWindow limits) @ '',"max_domain_cycles":{'' @
     print_domains True (maxDomainCycles limits) @ ''},"max_ticks":'' @ print_optional (maxTicks limits) @
     '',"schema":"pycircuit-model-config","version":"1"}''\<close>

subsection \<open>The configuration document\<close>

fun map_emplace :: "string \<Rightarrow> u64 \<Rightarrow> (string \<times> u64) list \<Rightarrow> (string \<times> u64) list" where
  "map_emplace k v [] = [(k, v)]"
| "map_emplace k v ((k', v') # m) =
     (if k < k' then (k, v) # (k', v') # m else if k = k' then (k', v') # m else (k', v') # map_emplace k v m)"

text \<open>One entry of the domain limits: a name above the prior one, a colon and a value.\<close>

definition parse_entry :: "string \<Rightarrow> string \<Rightarrow> (string \<times> u64 \<times> string) option" where
  "parse_entry prior s = (case parser_string s of
     None \<Rightarrow> None
   | Some (name, s) \<Rightarrow>
       if name = [] \<or> name \<le> prior then None
       else case take_token '':'' s of
         None \<Rightarrow> None
       | Some s \<Rightarrow> map_option (\<lambda>(value, s). (name, value, s)) (unsignedInteger s))"

lemma take_token_length: "take_token token s = Some s' \<Longrightarrow> length s = length token + length s'"
  by (auto simp: take_token_def split: if_splits) (metis append_take_drop_id length_append length_drop)

lemma string_loop_length: "string_loop result s = Some (x, s') \<Longrightarrow> length s' < length s"
  by (induction result s rule: string_loop.induct) (auto intro: less_SucI split: if_splits list.splits option.splits)

lemma parse_entry_length: "parse_entry prior s = Some (name, v, s') \<Longrightarrow> length s' < length s"
proof -
  assume a: "parse_entry prior s = Some (name, v, s')"
  then obtain s1 s2 where "parser_string s = Some (name, s1)" "take_token '':'' s1 = Some s2" "unsignedInteger s2 = Some (v, s')"
    by (auto simp: parse_entry_def split: option.splits if_splits)
  moreover from this(3) have "length s' \<le> length s2" by (auto simp: unsignedInteger_def Let_def length_dropWhile_le split: if_splits)
  ultimately show ?thesis using take_token_length[of "'':''" s1 s2]
    by (auto simp: parser_string_def split: option.splits dest!: string_loop_length take_token_length)
qed

function parse_domains :: "string \<Rightarrow> (string \<times> u64) list \<Rightarrow> string \<Rightarrow> string + (string \<times> u64) list \<times> string" where
  "parse_domains prior m s = (case parse_entry prior s of
     None \<Rightarrow> Inl ''model config max_domain_cycles is not canonical''
   | Some (name, value, s') \<Rightarrow>
       (case take_token ''}'' s' of
          Some s'' \<Rightarrow> Inr (map_emplace name value m, s'')
        | None \<Rightarrow> (case take_token '','' s' of
            None \<Rightarrow> Inl ''model config max_domain_cycles is malformed''
          | Some s'' \<Rightarrow> parse_domains name (map_emplace name value m) s'')))"
  by pat_completeness auto
termination
  by (relation "measure (\<lambda>(prior, m, s). length s)") (auto dest!: parse_entry_length take_token_length)

declare parse_domains.simps [simp del]

definition parse_tail :: "string \<Rightarrow> RuntimeLimits \<Rightarrow> string \<Rightarrow> RuntimeLimits option" where
  \<open>parse_tail input limits s = (case take_token '',"max_ticks":'' s of
     None \<Rightarrow> None
   | Some s \<Rightarrow> (case optionalUnsigned s of
       None \<Rightarrow> None
     | Some (ticks, s) \<Rightarrow>
         (let limits = limits\<lparr>maxTicks := ticks\<rparr>
          in case take_token '',"schema":"pycircuit-model-config","version":"1"}'' s of
            None \<Rightarrow> None
          | Some s \<Rightarrow> if s \<noteq> [] \<or> canonicalConfig limits \<noteq> input then None else Some limits)))\<close>

definition parse_head :: "string \<Rightarrow> (u64 option \<times> string) option" where
  \<open>parse_head s = (case take_token ''{"deadlock_window":'' s of
     None \<Rightarrow> None
   | Some s \<Rightarrow> (case optionalUnsigned s of
       None \<Rightarrow> None
     | Some (window, s) \<Rightarrow> map_option (Pair window) (take_token '',"max_domain_cycles":{'' s)))\<close>

definition parseModelConfigJson :: "string \<Rightarrow> string + RuntimeLimits" where
  "parseModelConfigJson input =
     (if \<not> isValidUtf8 input then Inl ''model config is not valid UTF-8''
      else if input = ''{}'' then Inr no_limits
      else case parse_head input of
        None \<Rightarrow> Inl ''model config is malformed or has unknown fields''
      | Some (window, s) \<Rightarrow>
          (case (case take_token ''}'' s of Some s \<Rightarrow> Inr ([], s) | None \<Rightarrow> parse_domains [] [] s) of
             Inl error \<Rightarrow> Inl error
           | Inr (domains, s) \<Rightarrow>
               (case parse_tail input (no_limits\<lparr>deadlockWindow := window, maxDomainCycles := domains\<rparr>) s of
                  None \<Rightarrow> Inl ''model config is not canonical v1 JSON''
                | Some limits \<Rightarrow> Inr limits)))"

subsection \<open>The UTF-8 check\<close>

definition scalar_value :: "nat \<Rightarrow> bool" where
  "scalar_value cp \<longleftrightarrow> cp \<le> 0x10ffff \<and> \<not> (0xd800 \<le> cp \<and> cp \<le> 0xdfff)"

definition utf8_encode :: "nat \<Rightarrow> string" where
  "utf8_encode cp = map char_of
     (if cp < 0x80 then [cp]
      else if cp < 0x800 then [0xc0 + cp div 64, 0x80 + cp mod 64]
      else if cp < 0x10000 then [0xe0 + cp div 4096, 0x80 + cp div 64 mod 64, 0x80 + cp mod 64]
      else [0xf0 + cp div 262144, 0x80 + cp div 4096 mod 64, 0x80 + cp div 64 mod 64, 0x80 + cp mod 64])"

lemma byte_less [simp]: "byte c < 256"
  by (simp add: byte_def)

lemma byte_char_of [simp]: "n < 256 \<Longrightarrow> byte (char_of n) = n"
  by (simp add: byte_def)

lemma char_of_byte [simp]: "char_of (byte c) = c"
  by (simp add: byte_def)

lemma mask_and: "x AND 0x1f = x mod 32" "x AND 0x0f = x mod 16" "x AND 0x07 = x mod 8" "x AND 0x3f = x mod 64" for x :: nat
  using take_bit_eq_mask[of 5 x] take_bit_eq_mask[of 4 x] take_bit_eq_mask[of 3 x] take_bit_eq_mask[of 6 x]
  by (simp_all add: take_bit_eq_mod mask_eq_exp_minus_1)

lemma and_field: "x AND push_bit n (mask m) = 2 ^ n * (x div 2 ^ n mod 2 ^ m)" for x :: nat
proof -
  have "x AND push_bit n (mask m) = push_bit n (take_bit m (drop_bit n x))"
    by (rule bit_eqI) (auto simp: bit_and_iff bit_push_bit_iff bit_mask_iff bit_take_bit_iff bit_drop_bit_eq)
  then show ?thesis by (simp add: push_bit_eq_mult take_bit_eq_mod drop_bit_eq_div)
qed

lemma high_bits:
  fixes x :: nat
  assumes "x < 256"
  shows "x AND 0xe0 = 0xc0 \<longleftrightarrow> x div 32 = 6" "x AND 0xf0 = 0xe0 \<longleftrightarrow> x div 16 = 14"
    "x AND 0xf8 = 0xf0 \<longleftrightarrow> x div 8 = 30" "x AND 0xc0 = 0x80 \<longleftrightarrow> x div 64 = 2"
proof -
  have "x div 32 < 8" "x div 16 < 16" "x div 8 < 32" "x div 64 < 4" using assms by simp_all
  then have "x AND 0xe0 = 32 * (x div 32)" "x AND 0xf0 = 16 * (x div 16)" "x AND 0xf8 = 8 * (x div 8)" "x AND 0xc0 = 64 * (x div 64)"
    using and_field[of x 5 3] and_field[of x 4 4] and_field[of x 3 5] and_field[of x 6 2]
    by (simp_all add: mask_eq_exp_minus_1 push_bit_eq_mult)
  then show "x AND 0xe0 = 0xc0 \<longleftrightarrow> x div 32 = 6" "x AND 0xf0 = 0xe0 \<longleftrightarrow> x div 16 = 14"
    "x AND 0xf8 = 0xf0 \<longleftrightarrow> x div 8 = 30" "x AND 0xc0 = 0x80 \<longleftrightarrow> x div 64 = 2" by simp_all
qed

lemma push_or: "push_bit 6 cp OR (x mod 64) = 64 * cp + x mod 64" for cp x :: nat
proof -
  have "push_bit 6 cp + take_bit 6 x = push_bit 6 cp OR take_bit 6 x"
    by (rule disjunctive_add) (simp add: bit_push_bit_iff bit_take_bit_iff)
  then show ?thesis by (simp add: push_bit_eq_mult take_bit_eq_mod mult.commute)
qed

lemma utf8_tail_Suc: "utf8_tail (Suc n) cp (c # s) = (if byte c div 64 = 2 then utf8_tail n (64 * cp + byte c mod 64) s else None)"
  by (simp add: high_bits push_or mask_and)

lemma utf8_lead_arith:
  "x < 256 \<Longrightarrow> utf8_lead x = (if x div 32 = 6 then Some (1, x mod 32, 0x80) else if x div 16 = 14 then Some (2, x mod 16, 0x800)
     else if x div 8 = 30 then Some (3, x mod 8, 0x10000) else None)"
  by (simp add: utf8_lead_def high_bits mask_and)

lemmas utf8_arith = utf8_tail_Suc utf8_lead_arith

text \<open>The arithmetic of the fields: a lead byte holds the top of the code point, each continuation six bits.\<close>

lemma lead_field: "k < 32 \<Longrightarrow> (192 + k) div 32 = 6 \<and> (192 + k) mod 32 = k" "k < 16 \<Longrightarrow> (224 + k) div 16 = 14 \<and> (224 + k) mod 16 = k"
  "k < 8 \<Longrightarrow> (240 + k) div 8 = 30 \<and> (240 + k) mod 8 = k" "k < 64 \<Longrightarrow> (128 + k) div 64 = 2 \<and> (128 + k) mod 64 = k" for k :: nat
  by (simp_all add: div_nat_eqI mod_nat_eqI)

lemma horner: "64 * (cp div 64) + cp mod 64 = cp" "64 * (cp div 4096) + cp div 64 mod 64 = cp div 64" "64 * (cp div 262144) + cp div 4096 mod 64 = cp div 4096" for cp :: nat
  using mult_div_mod_eq[of 64 cp] mult_div_mod_eq[of 64 "cp div 64"] mult_div_mod_eq[of 64 "cp div 4096"] by (simp_all add: div_mult2_eq[symmetric])

lemma horner_sum: "4096 * (cp div 4096) + 64 * (cp div 64 mod 64) + cp mod 64 = cp"
  "262144 * (cp div 262144) + 4096 * (cp div 4096 mod 64) + 64 * (cp div 64 mod 64) + cp mod 64 = cp" for cp :: nat
  using horner[of cp] by linarith+

lemma lead_bounds: "x div 16 = 14 \<Longrightarrow> x div 32 \<noteq> 6" "x div 8 = 30 \<Longrightarrow> x div 32 \<noteq> 6 \<and> x div 16 \<noteq> 14" for x :: nat
  using div_mult2_eq[of x 16 2] div_mult2_eq[of x 8 4] div_mult2_eq[of x 8 2] by simp_all

lemma encode_step:
  assumes sc: "scalar_value cp"
  shows "isValidUtf8 (utf8_encode cp @ s) = isValidUtf8 s"
proof -
  consider "cp < 0x80" | "0x80 \<le> cp" "cp < 0x800" | "0x800 \<le> cp" "cp < 0x10000" | "0x10000 \<le> cp" by linarith
  then show ?thesis
  proof cases
    case 1
    then show ?thesis by (simp add: utf8_encode_def)
  next
    case 2
    then have "cp div 64 < 32" by simp
    note f = lead_field(1)[OF this] lead_field(4)[of "cp mod 64"]
    show ?thesis using 2 f sc \<open>cp div 64 < 32\<close> by (simp add: utf8_encode_def utf8_arith horner horner_sum scalar_value_def del: utf8_tail.simps(3))
  next
    case 3
    then have "cp div 4096 < 16" by simp
    note f = lead_field(2)[OF this] lead_field(4)[of "cp mod 64"] lead_field(4)[of "cp div 64 mod 64"]
    show ?thesis using 3 f sc lead_bounds(1)[of "224 + cp div 4096"] \<open>cp div 4096 < 16\<close>
      by (simp add: utf8_encode_def utf8_arith horner horner_sum scalar_value_def numeral_2_eq_2 del: utf8_tail.simps(3))
        (use sc in \<open>auto simp: scalar_value_def\<close>)
  next
    case 4
    then have "cp div 262144 < 8" using sc by (simp add: scalar_value_def)
    note f = lead_field(3)[OF this] lead_field(4)[of "cp mod 64"] lead_field(4)[of "cp div 64 mod 64"] lead_field(4)[of "cp div 4096 mod 64"]
    show ?thesis using 4 f sc lead_bounds(2)[of "240 + cp div 262144"] \<open>cp div 262144 < 8\<close>
      by (simp add: utf8_encode_def utf8_arith horner horner_sum scalar_value_def numeral_3_eq_3 del: utf8_tail.simps(3))
  qed
qed

lemma valid_encodings: "list_all scalar_value cps \<Longrightarrow> isValidUtf8 (concat (map utf8_encode cps) @ s) = isValidUtf8 s"
  by (induction cps) (simp_all add: encode_step)

lemma utf8_tail_bytes:
  "utf8_tail n cp s = Some (cp', s') \<Longrightarrow> \<exists>bs. length bs = n \<and> s = bs @ s' \<and> list_all (\<lambda>c. byte c div 64 = 2) bs \<and> cp' = foldl (\<lambda>x c. 64 * x + byte c mod 64) cp bs"
proof (induction n arbitrary: cp s)
  case (Suc n)
  then obtain c s1 where s: "s = c # s1" by (cases s) auto
  then have c: "byte c div 64 = 2" "utf8_tail n (64 * cp + byte c mod 64) s1 = Some (cp', s')"
    using Suc.prems by (simp_all add: utf8_tail_Suc del: utf8_tail.simps split: if_splits)
  from Suc.IH[OF c(2)] obtain bs where "length bs = n \<and> s1 = bs @ s' \<and> list_all (\<lambda>c. byte c div 64 = 2) bs \<and>
      cp' = foldl (\<lambda>x c. 64 * x + byte c mod 64) (64 * cp + byte c mod 64) bs" by blast
  then show ?case using c(1) s by (intro exI[of _ "c # bs"]) simp
qed simp

lemma cont_byte: "byte c div 64 = 2 \<Longrightarrow> char_of (128 + byte c mod 64) = c"
proof -
  assume "byte c div 64 = 2"
  then have "128 + byte c mod 64 = byte c" using mult_div_mod_eq[of 64 "byte c"] by simp
  then show ?thesis by simp
qed

lemma six_bits: "(64 * a + b mod 64) div 64 = a" "(64 * a + b mod 64) mod 64 = b mod 64" for a b :: nat
  by (simp_all add: div_nat_eqI mod_nat_eqI)

lemma div64: "x div 4096 = x div 64 div 64" "x div 262144 = x div 64 div 64 div 64" for x :: nat
  by (simp_all add: div_mult2_eq[symmetric])

lemma lead_byte: "x div 32 = 6 \<Longrightarrow> 192 + x mod 32 = x" "x div 16 = 14 \<Longrightarrow> 224 + x mod 16 = x" "x div 8 = 30 \<Longrightarrow> 240 + x mod 8 = x" for x :: nat
  using mult_div_mod_eq[of 32 x] mult_div_mod_eq[of 16 x] mult_div_mod_eq[of 8 x] by simp_all

lemma decode2:
  assumes "byte c div 32 = 6" "byte b div 64 = 2" "cp = 64 * (byte c mod 32) + byte b mod 64" "0x80 \<le> cp"
  shows "utf8_encode cp = [c, b]"
proof -
  have "byte c mod 32 < 32" by simp
  then have "cp < 0x800" using mod_less_divisor[of 64 "byte b"] unfolding assms(3) by linarith
  then show ?thesis using assms(4) lead_byte(1)[OF assms(1)] cont_byte[OF assms(2)] by (simp add: utf8_encode_def) (simp add: assms(3) six_bits)
qed

lemma decode3:
  assumes "byte c div 16 = 14" "byte b1 div 64 = 2" "byte b2 div 64 = 2" "cp = 64 * (64 * (byte c mod 16) + byte b1 mod 64) + byte b2 mod 64" "0x800 \<le> cp"
  shows "utf8_encode cp = [c, b1, b2]"
proof -
  have "byte c mod 16 < 16" "byte b1 mod 64 < 64" "byte b2 mod 64 < 64" by simp_all
  then have "64 * (byte c mod 16) + byte b1 mod 64 \<le> 1023" "byte b2 mod 64 \<le> 63" by linarith+
  then have "64 * (64 * (byte c mod 16) + byte b1 mod 64) + byte b2 mod 64 \<le> 64 * 1023 + 63" by (intro add_mono mult_le_mono2)
  then have "cp < 0x10000" unfolding assms(4) by simp
  moreover have "cp div 64 = 64 * (byte c mod 16) + byte b1 mod 64" "cp mod 64 = byte b2 mod 64" unfolding assms(4) by (simp_all only: six_bits)
  ultimately show ?thesis using assms(5) lead_byte(2)[OF assms(1)] cont_byte[OF assms(2)] cont_byte[OF assms(3)]
    by (simp add: utf8_encode_def div64 six_bits)
qed

lemma decode4:
  assumes "byte c div 8 = 30" "byte b1 div 64 = 2" "byte b2 div 64 = 2" "byte b3 div 64 = 2"
    "cp = 64 * (64 * (64 * (byte c mod 8) + byte b1 mod 64) + byte b2 mod 64) + byte b3 mod 64" "0x10000 \<le> cp"
  shows "utf8_encode cp = [c, b1, b2, b3]"
proof -
  have q: "cp div 64 = 64 * (64 * (byte c mod 8) + byte b1 mod 64) + byte b2 mod 64" "cp mod 64 = byte b3 mod 64" unfolding assms(5) by (simp_all only: six_bits)
  have "cp div 64 div 64 div 64 = byte c mod 8" "cp div 64 div 64 mod 64 = byte b1 mod 64" "cp div 64 mod 64 = byte b2 mod 64"
    unfolding q by (simp_all only: six_bits)
  then show ?thesis using assms(6) lead_byte(3)[OF assms(1)] cont_byte[OF assms(2)] cont_byte[OF assms(3)] cont_byte[OF assms(4)] q(2)
    by (simp add: utf8_encode_def div64)
qed

lemma decode_lead:
  assumes l: "utf8_lead (byte c) = Some (n, cp0, mn)" and t: "utf8_tail n cp0 s = Some (cp, s')" and ge: "mn \<le> cp"
  shows "c # s = utf8_encode cp @ s'"
proof -
  obtain bs where bs: "length bs = n" "s = bs @ s'" "list_all (\<lambda>c. byte c div 64 = 2) bs" "cp = foldl (\<lambda>x c. 64 * x + byte c mod 64) cp0 bs"
    using utf8_tail_bytes[OF t] by blast
  have lead: "byte c div 32 = 6 \<and> n = 1 \<and> cp0 = byte c mod 32 \<and> mn = 0x80 \<or> byte c div 16 = 14 \<and> n = 2 \<and> cp0 = byte c mod 16 \<and> mn = 0x800 \<or>
      byte c div 8 = 30 \<and> n = 3 \<and> cp0 = byte c mod 8 \<and> mn = 0x10000"
    using l by (auto simp: utf8_lead_arith split: if_splits)
  then consider b where "byte c div 32 = 6" "bs = [b]" "cp0 = byte c mod 32" "mn = 0x80"
    | b1 b2 where "byte c div 16 = 14" "bs = [b1, b2]" "cp0 = byte c mod 16" "mn = 0x800"
    | b1 b2 b3 where "byte c div 8 = 30" "bs = [b1, b2, b3]" "cp0 = byte c mod 8" "mn = 0x10000"
    using bs(1) by (auto simp: length_Suc_conv numeral_2_eq_2 numeral_3_eq_3)
  then show ?thesis
  proof cases
    case 1
    then show ?thesis using decode2[of c b cp] bs ge by simp
  next
    case 2
    then show ?thesis using decode3[of c b1 b2 cp] bs ge by simp
  next
    case 3
    then show ?thesis using decode4[of c b1 b2 b3 cp] bs ge by simp
  qed
qed

lemma valid_decodes: "isValidUtf8 s \<Longrightarrow> \<exists>cps. list_all scalar_value cps \<and> s = concat (map utf8_encode cps)"
proof (induction s rule: isValidUtf8.induct)
  case (2 c input)
  show ?case
  proof (cases "byte c < 0x80")
    case True
    then obtain cps where "list_all scalar_value cps \<and> input = concat (map utf8_encode cps)" using 2 by auto
    moreover have "scalar_value (byte c)" "utf8_encode (byte c) = [c]" using True by (simp_all add: scalar_value_def utf8_encode_def)
    ultimately show ?thesis by (intro exI[of _ "byte c # cps"]) simp
  next
    case False
    obtain n cp0 mn where l1: "utf8_lead (byte c) = Some (n, cp0, mn)" using "2.prems" False by (cases "utf8_lead (byte c)") auto
    obtain cp s' where l2: "utf8_tail n cp0 input = Some (cp, s')" using "2.prems" False l1 by (cases "utf8_tail n cp0 input") auto
    note l = l1 l2
    have ok: "\<not> (cp < mn \<or> cp > 0x10ffff \<or> (cp \<ge> 0xd800 \<and> cp \<le> 0xdfff))" "isValidUtf8 s'"
      using "2.prems" False l by (simp_all split: if_splits)
    have "\<exists>cps. list_all scalar_value cps \<and> s' = concat (map utf8_encode cps)"
      using "2.IH"(2)[OF False l(1) refl refl l(2) refl ok(1) ok(2)] .
    then obtain cps where "list_all scalar_value cps" "s' = concat (map utf8_encode cps)" by blast
    moreover have "scalar_value cp" using ok(1) by (simp add: scalar_value_def)
    ultimately show ?thesis using decode_lead[OF l] ok(1) by (intro exI[of _ "cp # cps"]) (simp add: not_less)
  qed
qed (rule exI[of _ "[]"], simp)

text \<open>C33.  isValidUtf8 accepts exactly the byte strings that are the UTF-8 encoding of a sequence of Unicode scalar values: overlong
  forms, surrogates, values above U+10FFFF, stray and missing continuation bytes are all rejected.\<close>
theorem utf8_exact: "isValidUtf8 s = (\<exists>cps. list_all scalar_value cps \<and> s = concat (map utf8_encode cps))"
  using valid_decodes valid_encodings[of _ "[]"] by auto

subsection \<open>UTF-8 and ASCII\<close>

definition ascii :: "string \<Rightarrow> bool" where
  "ascii s \<longleftrightarrow> list_all (\<lambda>c. byte c < 0x80) s"

lemma ascii_simps [simp]: "ascii []" "ascii (c # s) \<longleftrightarrow> byte c < 0x80 \<and> ascii s" "ascii (s @ t) \<longleftrightarrow> ascii s \<and> ascii t"
  by (simp_all add: ascii_def)

lemma valid_ascii [simp]: "ascii a \<Longrightarrow> isValidUtf8 (a @ s) = isValidUtf8 s"
  by (induction a) simp_all

lemma tail_ascii: "byte c < 0x80 \<Longrightarrow> utf8_tail n cp (x @ c # y) = (case utf8_tail n cp x of None \<Rightarrow> None | Some (cp', r) \<Rightarrow> Some (cp', r @ c # y))"
proof (induction n arbitrary: cp x)
  case (Suc n)
  then have "byte c div 64 \<noteq> 2" by auto
  then show ?case using Suc by (cases x) (simp_all add: utf8_tail_Suc del: utf8_tail.simps(3))
qed simp

lemma valid_split: "byte c < 0x80 \<Longrightarrow> isValidUtf8 (x @ c # y) \<longleftrightarrow> isValidUtf8 x \<and> isValidUtf8 y"
proof (induction x rule: isValidUtf8.induct)
  case (2 d x)
  show ?case
  proof (cases "byte d < 0x80")
    case True
    then show ?thesis using 2 by simp
  next
    case False
    show ?thesis
    proof (cases "utf8_lead (byte d)")
      case None
      then show ?thesis using False by simp
    next
      case (Some a)
      then obtain n cp0 mn where l: "utf8_lead (byte d) = Some (n, cp0, mn)" by (cases a) auto
      show ?thesis
      proof (cases "utf8_tail n cp0 x")
        case None
        then show ?thesis using False l "2.prems" by (simp add: tail_ascii)
      next
        case (Some b)
        then obtain cp r where t: "utf8_tail n cp0 x = Some (cp, r)" by (cases b) auto
        then show ?thesis using False l "2.IH"(2)[OF False l refl refl t refl _ "2.prems"] "2.prems" by (simp add: tail_ascii)
      qed
    qed
  qed
qed simp

subsection \<open>Quoted names\<close>

fun esc :: "string \<Rightarrow> string" where
  "esc [] = []"
| "esc (c # s) = the (quote_char c) @ esc s"

definition quotable :: "string \<Rightarrow> bool" where
  "quotable s \<longleftrightarrow> list_all (\<lambda>c. quote_char c \<noteq> None) s"

lemma quotable_simps [simp]: "quotable []" "quotable (c # s) \<longleftrightarrow> quote_char c \<noteq> None \<and> quotable s" "quotable (s @ t) \<longleftrightarrow> quotable s \<and> quotable t"
  by (simp_all add: quotable_def)

lemma quote_loop_esc: "quotable s \<Longrightarrow> quote_loop out s = out @ esc s @ [dquote]"
  by (induction s arbitrary: out) auto

lemma quote_eq: "quotable s \<Longrightarrow> quote s = dquote # esc s @ [dquote]"
  by (simp add: quote_def quote_loop_esc)

lemma byte_consts [simp]: "byte dquote = 0x22" "byte backslash = 0x5c" "dquote \<noteq> backslash" "backslash \<noteq> dquote"
  unfolding byte_def dquote_def backslash_def by simp_all

lemma unescape_consts: "unescape dquote = Some dquote" "unescape backslash = Some backslash" "unescape (CHR ''b'') = Some (CHR 0x08)"
  "unescape (CHR ''f'') = Some (CHR 0x0C)" "unescape (CHR ''n'') = Some (CHR 0x0A)" "unescape (CHR ''r'') = Some (CHR 0x0D)" "unescape (CHR ''t'') = Some (CHR 0x09)"
  unfolding unescape_def dquote_def backslash_def by simp_all

lemma byte_letters: "byte (CHR ''b'') = 98" "byte (CHR ''f'') = 102" "byte (CHR ''n'') = 110" "byte (CHR ''r'') = 114" "byte (CHR ''t'') = 116"
  "byte (CHR 0x08) = 8" "byte (CHR 0x0C) = 12" "byte (CHR 0x0A) = 10" "byte (CHR 0x0D) = 13" "byte (CHR 0x09) = 9"
  unfolding byte_def by simp_all

lemma quote_char_disj:
  assumes "quote_char c = Some e"
  shows "(\<exists>d. e = [backslash, d] \<and> unescape d = Some c \<and> byte c < 0x80 \<and> byte d < 0x80) \<or> e = [c] \<and> c \<noteq> dquote \<and> c \<noteq> backslash \<and> \<not> byte c < 0x20"
  using assms unfolding quote_char_def
  by (simp only: option.inject option.distinct split: if_splits; hypsubst; simp add: unescape_consts byte_letters)

lemma quote_char_cases:
  assumes "quote_char c = Some e"
  obtains "e = [c]" "c \<noteq> dquote" "c \<noteq> backslash" "\<not> byte c < 0x20" | d where "e = [backslash, d]" "unescape d = Some c" "byte c < 0x80" "byte d < 0x80"
  using quote_char_disj[OF assms] by blast

lemma string_loop_esc: "quote_char c = Some e \<Longrightarrow> string_loop acc (e @ s) = string_loop (acc @ [c]) s"
  by (erule quote_char_cases) simp_all

lemma string_loop_quoted: "quotable n \<Longrightarrow> string_loop acc (esc n @ dquote # s) = Some (acc @ n, s)"
proof (induction n arbitrary: acc)
  case (Cons c n)
  then obtain e where "quote_char c = Some e" by auto
  then show ?case using Cons string_loop_esc[of c e acc "esc n @ dquote # s"] by simp
qed simp

lemma quote_char_total: "\<not> byte c < 0x20 \<Longrightarrow> quote_char c \<noteq> None"
  by (simp add: quote_char_def)

lemma quote_char_controls: "quote_char (CHR 0x08) \<noteq> None" "quote_char (CHR 0x0C) \<noteq> None" "quote_char (CHR 0x0A) \<noteq> None"
  "quote_char (CHR 0x0D) \<noteq> None" "quote_char (CHR 0x09) \<noteq> None" "quote_char dquote \<noteq> None" "quote_char backslash \<noteq> None" "quote_char (CHR ''/'') \<noteq> None"
  unfolding quote_char_def dquote_def backslash_def byte_def by simp_all

lemma unescape_quotable:
  assumes "unescape d = Some c"
  shows "quote_char c \<noteq> None"
proof -
  from assms have "c \<in> {dquote, backslash, CHR ''/'', CHR 0x08, CHR 0x0C, CHR 0x0A, CHR 0x0D, CHR 0x09}"
    unfolding unescape_def by (metis insertCI option.distinct(1) option.inject)
  then show ?thesis using quote_char_controls by blast
qed

lemma string_loop_quotable: "string_loop acc s = Some (n, s') \<Longrightarrow> quotable acc \<Longrightarrow> quotable n"
proof (induction acc s rule: string_loop.induct)
  case (2 result c s)
  show ?case
  proof (cases "c = backslash")
    case True
    then obtain d s1 x where "s = d # s1" "unescape d = Some x" "string_loop (result @ [x]) s1 = Some (n, s')"
      using "2.prems"(1) by (auto split: list.splits option.splits)
    then show ?thesis using 2 True unescape_quotable[of d x] by simp
  next
    case False
    then show ?thesis using 2 quote_char_total[of c] by (auto split: if_splits)
  qed
qed simp

lemma esc_head: "byte c < 0x80 \<Longrightarrow> quote_char c = Some e \<Longrightarrow> \<exists>d t. e = d # t \<and> byte d < 0x80 \<and> ascii t"
  by (erule quote_char_cases) auto

lemma quote_char_high: "\<not> byte c < 0x80 \<Longrightarrow> quote_char c = Some [c]"
  using byte_letters byte_consts(1,2) by (auto simp: quote_char_def)

lemma tail_esc: "quotable s \<Longrightarrow> utf8_tail n cp (esc s) = map_option (\<lambda>(cp', r). (cp', esc r)) (utf8_tail n cp s) \<and> (\<forall>cp' r. utf8_tail n cp s = Some (cp', r) \<longrightarrow> quotable r)"
proof (induction n arbitrary: cp s)
  case (Suc n)
  show ?case
  proof (cases s)
    case (Cons c s1)
    show ?thesis
    proof (cases "byte c < 0x80")
      case True
      obtain d t where "the (quote_char c) = d # t" "byte d < 0x80" using esc_head[OF True] Suc.prems Cons by auto
      moreover have "byte c div 64 \<noteq> 2" "byte d div 64 \<noteq> 2" using True \<open>byte d < 0x80\<close> by auto
      ultimately show ?thesis using Cons by (simp add: utf8_tail_Suc del: utf8_tail.simps(3))
    next
      case False
      then show ?thesis using Suc Cons quote_char_high[OF False] by (simp add: utf8_tail_Suc del: utf8_tail.simps(3))
    qed
  qed simp
qed simp

lemma valid_esc: "quotable s \<Longrightarrow> isValidUtf8 (esc s) = isValidUtf8 s"
proof (induction s rule: isValidUtf8.induct)
  case (2 c s)
  show ?case
  proof (cases "byte c < 0x80")
    case True
    obtain d t where "the (quote_char c) = d # t" "byte d < 0x80" "ascii t" using esc_head[OF True] "2.prems" by auto
    then show ?thesis using 2 True by simp
  next
    case False
    note e = quote_char_high[OF False]
    have q: "quotable s" using "2.prems" by simp
    show ?thesis
    proof (cases "utf8_lead (byte c)")
      case None
      then show ?thesis using False e by simp
    next
      case (Some a)
      then obtain n cp0 mn where l: "utf8_lead (byte c) = Some (n, cp0, mn)" by (cases a) auto
      show ?thesis
      proof (cases "utf8_tail n cp0 s")
        case None
        then show ?thesis using False l e tail_esc[OF q, of n cp0] by simp
      next
        case (Some b)
        then obtain cp r where t: "utf8_tail n cp0 s = Some (cp, r)" by (cases b) auto
        then show ?thesis using False l e tail_esc[OF q, of n cp0] "2.IH"(2)[OF False l refl refl t refl] by simp
      qed
    qed
  qed
qed simp

subsection \<open>Numbers and tokens\<close>

lemma take_token_iff: "take_token t s = Some s' \<longleftrightarrow> s = t @ s'"
  by (auto simp: take_token_def) (metis append_take_drop_id)+

lemma take_token_append [simp]: "take_token t (t @ s) = Some s"
  by (simp add: take_token_iff)

lemma take_token_head: "t \<noteq> [] \<Longrightarrow> s = [] \<or> hd s \<noteq> hd t \<Longrightarrow> take_token t s = None"
  by (cases t; cases s) (auto simp: take_token_def)

lemma digit_char: "k < 10 \<Longrightarrow> is_digit (char_of (48 + k)) \<and> byte (char_of (48 + k)) = 48 + k"
  by (simp add: is_digit_def)

lemma decimal_value_snoc: "decimal_value (ds @ [c]) = 10 * decimal_value ds + (byte c - 48)"
  by (simp add: decimal_value_def)

lemma decimal_facts:
  "list_all is_digit (decimal n) \<and> decimal n \<noteq> [] \<and> decimal_value (decimal n) = n \<and> (0 < n \<longrightarrow> hd (decimal n) \<noteq> char_of (48::nat)) \<and> (length (decimal n) > 1 \<longrightarrow> 0 < n)"
proof (induction n rule: decimal.induct)
  case (1 n)
  show ?case
  proof (cases "n < 10")
    case True
    have "char_of (48 + n) \<noteq> (char_of (48::nat) :: char)" if "0 < n"
    proof
      assume "char_of (48 + n) = (char_of (48::nat) :: char)"
      then have "byte (char_of (48 + n)) = byte (char_of (48::nat))" by (rule arg_cong)
      then show False using digit_char[OF True] that by simp
    qed
    moreover have d: "decimal n = [char_of (48 + n)]" using True by (subst decimal.simps) simp
    ultimately show ?thesis using True digit_char[OF True] unfolding d by (simp add: decimal_value_def)
  next
    case False
    note IH = 1[OF False]
    have d: "decimal n = decimal (n div 10) @ [char_of (48 + n mod 10)]" using False by (subst decimal.simps) simp
    show ?thesis using IH False digit_char[of "n mod 10"] unfolding d by (simp add: decimal_value_snoc div_greater_zero_iff)
  qed
qed

lemma digits_split: "list_all is_digit ds \<Longrightarrow> s = [] \<or> \<not> is_digit (hd s) \<Longrightarrow> takeWhile is_digit (ds @ s) = ds \<and> dropWhile is_digit (ds @ s) = s"
proof -
  assume ds: "list_all is_digit ds" and s: "s = [] \<or> \<not> is_digit (hd s)"
  have "takeWhile is_digit s = []" "dropWhile is_digit s = s" using s by (cases s; simp)+
  then show ?thesis using ds by (simp add: list_all_iff)
qed

lemma unsigned_print: "s = [] \<or> \<not> is_digit (hd s) \<Longrightarrow> unsignedInteger (print_u64 v @ s) = Some (v, s)"
proof -
  assume s: "s = [] \<or> \<not> is_digit (hd s)"
  note F = decimal_facts[of "unat v"]
  have w: "takeWhile is_digit (decimal (unat v) @ s) = decimal (unat v)" "dropWhile is_digit (decimal (unat v) @ s) = s"
    using digits_split[of "decimal (unat v)" s] F s by blast+
  have zero: "char_of (48::nat) = CHR ''0''" by code_simp
  have "\<not> (decimal (unat v) = [] \<or> (length (decimal (unat v)) > 1 \<and> hd (decimal (unat v)) = CHR ''0''))" using F unfolding zero by auto
  moreover have "from_chars (decimal (unat v)) = Some v" using F unsigned_less[of v] unfolding from_chars_def by simp
  ultimately show ?thesis by (simp add: unsignedInteger_def print_u64_def w Let_def)
qed

lemma print_head: "print_u64 v \<noteq> [] \<and> is_digit (hd (print_u64 v @ s))"
  using decimal_facts[of "unat v"] by (cases "decimal (unat v)") (auto simp: print_u64_def)

lemma optional_print: "s = [] \<or> \<not> is_digit (hd s) \<Longrightarrow> optionalUnsigned (print_optional v @ s) = Some (v, s)"
proof (cases v)
  case (Some x)
  have "\<not> is_digit (CHR ''n'')" by (simp add: is_digit_def byte_def)
  then have "hd (print_u64 x @ s) \<noteq> hd ''null''" using print_head[of x s] by auto
  then have "parser_null (print_u64 x @ s) = None" unfolding parser_null_def by (intro take_token_head) auto
  moreover assume "s = [] \<or> \<not> is_digit (hd s)"
  ultimately show ?thesis using unsigned_print[of s x] Some by (simp add: optionalUnsigned_def print_optional_def)
next
  case None
  then show ?thesis using take_token_append[of "''null''" s] by (simp add: optionalUnsigned_def print_optional_def parser_null_def)
qed

lemma ascii_print: "ascii (print_u64 v)" "ascii (print_optional v')"
proof -
  have a: "list_all is_digit ds \<Longrightarrow> ascii ds" for ds by (auto simp: ascii_def is_digit_def list_all_iff)
  then show "ascii (print_u64 v)" for v using decimal_facts by (simp add: print_u64_def)
  then show "ascii (print_optional v')" by (simp add: print_optional_def byte_def split: option.split)
qed

subsection \<open>The round trip\<close>

definition config_wf :: "RuntimeLimits \<Rightarrow> bool" where
  "config_wf limits \<longleftrightarrow> sorted_wrt (<) (map fst (maxDomainCycles limits)) \<and>
     list_all (\<lambda>(name, value). name \<noteq> [] \<and> quotable name \<and> isValidUtf8 name) (maxDomainCycles limits)"

lemma map_emplace_last: "\<forall>(k', v') \<in> set m. k' < k \<Longrightarrow> map_emplace k v m = m @ [(k, v)]"
  by (induction m) (auto dest: less_not_sym)

lemma quote_head: "quotable name \<Longrightarrow> parser_string (quote name @ s) = Some (name, s)"
  using take_token_append[of "[dquote]" "esc name @ dquote # s"] string_loop_quoted[of name "[]" s] by (simp add: parser_string_def quote_eq)

lemma not_digits: "\<not> is_digit (CHR '','')" "\<not> is_digit (CHR ''}'')"
  by (simp_all add: is_digit_def byte_def)

lemma parse_entry_print:
  assumes "quotable name" "name \<noteq> []" "prior < name" "s = [] \<or> \<not> is_digit (hd s)"
  shows "parse_entry prior (quote name @ '':'' @ print_u64 value @ s) = Some (name, value, s)"
  using assms quote_head[OF assms(1), of "'':'' @ print_u64 value @ s"] take_token_append[of "'':''" "print_u64 value @ s"] unsigned_print[OF assms(4)]
  by (simp add: parse_entry_def)

lemma parse_domains_print:
  assumes "m \<noteq> []" "sorted_wrt (<) (prior # map fst m)" "list_all (\<lambda>(name, value). name \<noteq> [] \<and> quotable name) m"
    "\<forall>(k, v) \<in> set acc. k \<le> prior"
  shows "parse_domains prior acc (print_domains True m @ ''}'' @ s) = Inr (acc @ m, s)"
  using assms
proof (induction m arbitrary: prior acc)
  case (Cons e m)
  obtain name v where e: "e = (name, v)" by (cases e)
  have n: "quotable name" "name \<noteq> []" "prior < name" using Cons.prems e by auto
  have acc: "map_emplace name v acc = acc @ [(name, v)]"
    using Cons.prems(4) n(3) by (intro map_emplace_last) (auto intro: le_less_trans)
  show ?case
  proof (cases "m = []")
    case True
    have "parse_entry prior (quote name @ '':'' @ print_u64 v @ ''}'' @ s) = Some (name, v, ''}'' @ s)"
      by (rule parse_entry_print[OF n]) (simp add: not_digits)
    then show ?thesis using acc take_token_append[of "''}''" s] by (subst parse_domains.simps) (simp add: e True)
  next
    case False
    then obtain e' m' where m: "m = e' # m'" by (cases m) auto
    have p: "print_domains False m = '','' @ print_domains True m" unfolding m by (cases e') simp
    have "parse_entry prior (quote name @ '':'' @ print_u64 v @ '','' @ print_domains True m @ ''}'' @ s) =
        Some (name, v, '','' @ print_domains True m @ ''}'' @ s)"
      by (rule parse_entry_print[OF n]) (simp add: not_digits)
    moreover have "take_token ''}'' ('','' @ t) = None" "take_token '','' ('','' @ t) = Some t" for t
      by (rule take_token_head, simp_all del: append_Cons append_Nil)
    moreover have "parse_domains name (acc @ [(name, v)]) (print_domains True m @ ''}'' @ s) = Inr ((acc @ [(name, v)]) @ m, s)"
    proof (rule Cons.IH)
      show "\<forall>(k, u)\<in>set (acc @ [(name, v)]). k \<le> name" using Cons.prems(4) n(3) by (auto intro: order.trans less_imp_le)
    qed (use Cons.prems False e in auto)
    ultimately show ?thesis by (subst parse_domains.simps) (simp add: e p acc del: append_Cons)
  qed
qed simp

lemma parse_head_print:
  \<open>parse_head (''{"deadlock_window":'' @ print_optional w @ '',"max_domain_cycles":{'' @ s) = Some (w, s)\<close>
proof -
  let ?t = \<open>'',"max_domain_cycles":{''\<close>
  have "optionalUnsigned (print_optional w @ ?t @ s) = Some (w, ?t @ s)" by (rule optional_print) (simp add: not_digits)
  then show ?thesis by (simp only: parse_head_def take_token_append option.case prod.case map_option_eq_Some option.map)
qed

lemma parse_tail_print:
  \<open>canonicalConfig (limits\<lparr>maxTicks := t\<rparr>) = input \<Longrightarrow>
   parse_tail input limits ('',"max_ticks":'' @ print_optional t @ '',"schema":"pycircuit-model-config","version":"1"}'') = Some (limits\<lparr>maxTicks := t\<rparr>)\<close>
proof -
  let ?t = \<open>'',"schema":"pycircuit-model-config","version":"1"}''\<close>
  have o: "optionalUnsigned (print_optional t @ ?t) = Some (t, ?t)" by (rule optional_print) (simp add: not_digits)
  have k: "take_token ?t ?t = Some []" using take_token_append[of ?t "[]"] by (simp only: append_Nil2)
  assume "canonicalConfig (limits\<lparr>maxTicks := t\<rparr>) = input"
  then show ?thesis by (simp only: parse_tail_def take_token_append option.case prod.case o k Let_def) simp
qed

lemma print_domains_head: "m \<noteq> [] \<Longrightarrow> list_all (\<lambda>(name, v). quotable name) m \<Longrightarrow> \<exists>t. print_domains True m = dquote # t"
  by (cases m) (auto simp: quote_eq)

lemma valid_domains:
  "list_all (\<lambda>(name, v). quotable name) m \<Longrightarrow> isValidUtf8 (print_domains first m @ t) \<longleftrightarrow> list_all (\<lambda>(name, v). isValidUtf8 name) m \<and> isValidUtf8 t"
proof (induction m arbitrary: first)
  case (Cons e m)
  obtain name v where e: "e = (name, v)" by (cases e)
  have q: "quotable name" using Cons.prems e by simp
  define rest where "rest = print_domains False m @ t"
  have "isValidUtf8 (print_domains first (e # m) @ t) = isValidUtf8 ((if first then [dquote] else [CHR '','', dquote]) @ esc name @ dquote # ('':'' @ print_u64 v) @ rest)"
    by (simp add: e quote_eq[OF q] rest_def)
  also have "\<dots> = isValidUtf8 (esc name @ dquote # ('':'' @ print_u64 v) @ rest)" by (rule valid_ascii) (simp add: byte_def[of "CHR '',''"])
  also have "\<dots> \<longleftrightarrow> isValidUtf8 (esc name) \<and> isValidUtf8 (('':'' @ print_u64 v) @ rest)" by (rule valid_split) simp
  also have "isValidUtf8 (('':'' @ print_u64 v) @ rest) = isValidUtf8 rest" by (rule valid_ascii) (simp add: ascii_print byte_def)
  finally show ?case using Cons valid_esc[OF q] by (simp add: e rest_def)
qed simp

lemma canonical_valid:
  assumes "list_all (\<lambda>(name, v). quotable name) (maxDomainCycles limits)"
  shows "isValidUtf8 (canonicalConfig limits) \<longleftrightarrow> list_all (\<lambda>(name, v). isValidUtf8 name) (maxDomainCycles limits)"
proof -
  let ?a = \<open>''{"deadlock_window":'' @ print_optional (deadlockWindow limits) @ '',"max_domain_cycles":{''\<close>
  let ?z = \<open>''},"max_ticks":'' @ print_optional (maxTicks limits) @ '',"schema":"pycircuit-model-config","version":"1"}''\<close>
  have "canonicalConfig limits = ?a @ print_domains True (maxDomainCycles limits) @ ?z" unfolding canonicalConfig_def by (simp only: append_assoc)
  moreover have "ascii ?a" "ascii (?z @ [])" by (simp_all add: ascii_print byte_def)
  ultimately show ?thesis using valid_domains[OF assms, of True ?z] valid_ascii[of "?z" "[]"]
    by (simp only: valid_ascii append_Nil2) simp
qed

lemma parse_canonical:
  assumes wf: "config_wf limits"
  shows "parseModelConfigJson (canonicalConfig limits) = Inr limits"
proof -
  let ?m = "maxDomainCycles limits" and ?in = "canonicalConfig limits"
  let ?t = \<open>'',"max_ticks":'' @ print_optional (maxTicks limits) @ '',"schema":"pycircuit-model-config","version":"1"}''\<close>
  have names: "list_all (\<lambda>(name, v). quotable name) ?m" "list_all (\<lambda>(name, v). isValidUtf8 name) ?m" "list_all (\<lambda>(name, v). name \<noteq> [] \<and> quotable name) ?m"
    "sorted_wrt (<) ([] # map fst ?m)"
    using wf by (auto simp: config_wf_def list_all_iff neq_Nil_conv)
  have valid: "isValidUtf8 ?in" using canonical_valid[OF names(1)] names(2) by blast
  have head: "parse_head ?in = Some (deadlockWindow limits, print_domains True ?m @ ''}'' @ ?t)"
    using parse_head_print[of "deadlockWindow limits" "print_domains True ?m @ ''}'' @ ?t"] unfolding canonicalConfig_def by (simp only: append_assoc append_Cons append_Nil)
  have dom: "(case take_token ''}'' (print_domains True ?m @ ''}'' @ ?t) of Some s \<Rightarrow> Inr ([], s) | None \<Rightarrow> parse_domains [] [] (print_domains True ?m @ ''}'' @ ?t)) = Inr (?m, ?t)"
  proof (cases "?m = []")
    case True
    then show ?thesis by (simp only: print_domains.simps append_Nil take_token_append option.case)
  next
    case False
    then obtain t where "print_domains True ?m = dquote # t" using print_domains_head names(1) by blast
    then have "take_token ''}'' (print_domains True ?m @ ''}'' @ ?t) = None" by (intro take_token_head) (simp_all add: dquote_def)
    moreover have "parse_domains [] [] (print_domains True ?m @ ''}'' @ ?t) = Inr ([] @ ?m, ?t)"
      by (rule parse_domains_print[OF False names(4,3)]) simp
    ultimately show ?thesis by (simp only: option.case append_Nil)
  qed
  have lim: "(no_limits\<lparr>deadlockWindow := deadlockWindow limits, maxDomainCycles := ?m\<rparr>)\<lparr>maxTicks := maxTicks limits\<rparr> = limits" by (simp add: no_limits_def)
  have tail: "parse_tail ?in (no_limits\<lparr>deadlockWindow := deadlockWindow limits, maxDomainCycles := ?m\<rparr>) ?t = Some limits"
    using parse_tail_print[where limits = "no_limits\<lparr>deadlockWindow := deadlockWindow limits, maxDomainCycles := ?m\<rparr>" and t = "maxTicks limits" and input = ?in] unfolding lim by blast
  have "?in \<noteq> ''{}''" unfolding canonicalConfig_def by simp
  then show ?thesis using valid by (simp only: parseModelConfigJson_def head dom tail option.case prod.case sum.case) simp
qed

definition names_ok :: "string \<Rightarrow> (string \<times> u64) list \<Rightarrow> bool" where
  "names_ok prior m \<longleftrightarrow> sorted_wrt (<) (map fst m) \<and> list_all (\<lambda>(name, v). name \<noteq> [] \<and> quotable name \<and> name \<le> prior) m"

lemma parse_entry_name: "parse_entry prior s = Some (name, v, s') \<Longrightarrow> name \<noteq> [] \<and> quotable name \<and> prior < name"
proof -
  assume a: "parse_entry prior s = Some (name, v, s')"
  then obtain s1 where "parser_string s = Some (name, s1)" and n: "\<not> (name = [] \<or> name \<le> prior)"
    by (auto simp: parse_entry_def split: option.splits if_splits)
  then obtain s0 where "string_loop [] s0 = Some (name, s1)" by (auto simp: parser_string_def split: option.splits)
  then show ?thesis using string_loop_quotable[of "[]" s0 name s1] n by auto
qed

lemma names_ok_emplace:
  assumes "names_ok prior m" "name \<noteq> []" "quotable name" "prior < name"
  shows "names_ok name (map_emplace name v m)"
proof -
  have "map_emplace name v m = m @ [(name, v)]" using assms by (intro map_emplace_last) (auto simp: names_ok_def list_all_iff)
  then show ?thesis using assms by (auto simp: names_ok_def list_all_iff sorted_wrt_append)
qed

lemma parse_domains_names: "parse_domains prior m s = Inr (m', s') \<Longrightarrow> names_ok prior m \<Longrightarrow> \<exists>last. names_ok last m'"
proof (induction prior m s rule: parse_domains.induct)
  case (1 prior m s)
  from "1.prems"(1) obtain name v s1 where e: "parse_entry prior s = Some (name, v, s1)"
    by (subst (asm) parse_domains.simps) (auto split: option.splits)
  have ok: "names_ok name (map_emplace name v m)" using parse_entry_name[OF e] names_ok_emplace "1.prems"(2) by blast
  show ?case
  proof (cases "take_token ''}'' s1")
    case (Some s2)
    then show ?thesis using "1.prems"(1) e ok by (subst (asm) parse_domains.simps) auto
  next
    case None
    then obtain s2 where t: "take_token '','' s1 = Some s2" using "1.prems"(1) e by (subst (asm) parse_domains.simps) (auto split: option.splits)
    then have "parse_domains name (map_emplace name v m) s2 = Inr (m', s')" using "1.prems"(1) e None by (subst (asm) parse_domains.simps) simp
    then show ?thesis using "1.IH"[OF e refl refl None t] ok by blast
  qed
qed

lemma parse_tail_canonical: "parse_tail input limits s = Some limits' \<Longrightarrow> input = canonicalConfig limits' \<and> (\<exists>t. limits' = limits\<lparr>maxTicks := t\<rparr>)"
  by (auto simp: parse_tail_def Let_def split: option.splits prod.splits if_splits)

lemma parse_accepts:
  assumes p: "parseModelConfigJson s = Inr limits" and ne: "s \<noteq> ''{}''"
  shows "config_wf limits \<and> s = canonicalConfig limits"
proof -
  have valid: "isValidUtf8 s" using p by (simp add: parseModelConfigJson_def split: if_splits)
  obtain w s1 where h: "parse_head s = Some (w, s1)" using p ne valid by (simp add: parseModelConfigJson_def split: option.splits) auto
  define d where "d = (case take_token ''}'' s1 of Some s \<Rightarrow> Inr ([], s) | None \<Rightarrow> parse_domains [] [] s1)"
  have p': "(case d of Inl error \<Rightarrow> Inl error | Inr (domains, s2) \<Rightarrow>
      (case parse_tail s (no_limits\<lparr>deadlockWindow := w, maxDomainCycles := domains\<rparr>) s2 of None \<Rightarrow> Inl ''model config is not canonical v1 JSON'' | Some limits \<Rightarrow> Inr limits)) = Inr limits"
    using p ne valid unfolding parseModelConfigJson_def h d_def by simp
  then obtain m s2 where d: "d = Inr (m, s2)" by (cases d) auto
  then have t: "parse_tail s (no_limits\<lparr>deadlockWindow := w, maxDomainCycles := m\<rparr>) s2 = Some limits" using p' by (simp split: option.splits)
  have "\<exists>last. names_ok last m"
  proof (cases "take_token ''}'' s1")
    case None
    then show ?thesis using d parse_domains_names[of "[]" "[]" s1 m s2] by (simp add: d_def names_ok_def)
  qed (use d in \<open>simp add: d_def names_ok_def\<close>)
  moreover have lim: "s = canonicalConfig limits" "maxDomainCycles limits = m" using parse_tail_canonical[OF t] by auto
  ultimately have ok: "sorted_wrt (<) (map fst (maxDomainCycles limits))" "list_all (\<lambda>(name, v). name \<noteq> [] \<and> quotable name) (maxDomainCycles limits)"
    by (auto simp: names_ok_def list_all_iff)
  then have "list_all (\<lambda>(name, v). isValidUtf8 name) (maxDomainCycles limits)"
    using canonical_valid[of limits] valid lim(1) by (auto simp: list_all_iff)
  then show ?thesis using ok lim(1) by (auto simp: config_wf_def list_all_iff)
qed

text \<open>C10.  The configuration parser and the canonical printer are inverse.  parseModelConfigJson accepts exactly the empty document, as no
  limits, and the canonical documents, each as the limits it was printed from: any 64-bit window and tick limit, and any ordered map
  from non-empty UTF-8 domain names without unprintable control characters to 64-bit cycle counts.  Every other input is refused.\<close>
theorem config_roundtrip:
  "parseModelConfigJson s = Inr limits \<longleftrightarrow> (s = ''{}'' \<and> limits = no_limits) \<or> (s = canonicalConfig limits \<and> config_wf limits)"
proof (cases "s = ''{}''")
  case True
  have "canonicalConfig limits \<noteq> ''{}''" unfolding canonicalConfig_def by simp
  moreover have "parseModelConfigJson ''{}'' = Inr no_limits" by (simp add: parseModelConfigJson_def byte_def)
  ultimately show ?thesis using True by auto
next
  case False
  then show ?thesis using parse_accepts[of s limits] parse_canonical[of limits] by auto
qed

end
