(* ===== verification/Gfsim_Executor.thy ===== *)
theory Gfsim_Executor
  imports Gfsim_System Gfsim_Config "HOL-Library.Product_Lexorder"
begin

text \<open>
  The model executor of \<^verbatim>\<open>include/gfsim/SimExecutor.h\<close> and \<^verbatim>\<open>runtime/sim_executor.cpp\<close>, with the statuses
  and result structures of \<^verbatim>\<open>include/gfsim/model_api.h\<close>.  The executor, the system it drives and the world of the
  system's modules form a \<open>machine\<close>; every call is one function on it, as the call lock makes the calls atomic.
  A null pointer is \<open>None\<close>.  A step returns \<open>None\<close> exactly when the step of the system does.  The branches for a
  failed allocation are not part of the model, except for the flag and the text that \<open>LastError\<close> would show.

  The lemmas show the life cycle of the executor, that an execution failure is reported unchanged until the next
  reset, that the step limits stop the run at the exact cycle, and what the statistics document lists.
\<close>

subsection \<open>The interface\<close>

datatype model_status = STATUS_OK | STATUS_INVALID_ARGUMENT | STATUS_ABI_MISMATCH | STATUS_INVALID_STATE | STATUS_RUNTIME_FAILURE

datatype model_step_state = STEP_RUNNING | STEP_QUIESCENT | STEP_TERMINATED | STEP_FAILED

record StepResult =
  sr_struct_size :: nat
  sr_state :: model_step_state
  sr_epoch_time :: u64
  sr_epoch_delta :: nat
  sr_reserved :: nat

definition step_result_size :: nat where
  "step_result_size = 24"

definition step_result :: "model_step_state \<Rightarrow> u64 \<Rightarrow> StepResult" where
  "step_result state epoch = \<lparr>sr_struct_size = step_result_size, sr_state = state, sr_epoch_time = epoch, sr_epoch_delta = 0, sr_reserved = 0\<rparr>"

subsection \<open>JSON text\<close>

definition hex_digit :: "nat \<Rightarrow> char" where
  "hex_digit n = ''0123456789abcdef'' ! n"

definition escape_char :: "char \<Rightarrow> string" where
  "escape_char c =
     (if c = backslash then [backslash, backslash] else if c = dquote then [backslash, dquote]
      else if c = CHR 0x08 then [backslash, CHR ''b''] else if c = CHR 0x0C then [backslash, CHR ''f'']
      else if c = CHR 0x0A then [backslash, CHR ''n''] else if c = CHR 0x0D then [backslash, CHR ''r'']
      else if c = CHR 0x09 then [backslash, CHR ''t'']
      else if byte c < 0x20 then [backslash] @ ''u00'' @ [hex_digit (byte c div 16), hex_digit (byte c mod 16)]
      else [c])"

definition escapeJson :: "string \<Rightarrow> string" where
  "escapeJson value = concat (map escape_char value)"

definition json_string :: "string \<Rightarrow> string" where
  "json_string value = [dquote] @ escapeJson value @ [dquote]"

definition phaseName :: "SimFailurePhase \<Rightarrow> string" where
  "phaseName phase = (case phase of PhaseBuild \<Rightarrow> ''api'' | PhaseEvaluate \<Rightarrow> ''evaluate'' | PhaseCheck \<Rightarrow> ''check''
     | PhaseDrive \<Rightarrow> ''drive'' | PhaseXfer \<Rightarrow> ''xfer'' | PhaseNone \<Rightarrow> ''api'')"

subsection \<open>The executor\<close>

record ReportGaugeDescriptor =
  rg_stableOrdinal :: nat
  rg_objectPath :: string
  rg_name :: string

datatype SimExecutorState = ExCreated | ExConfigured | ExReady | ExCompleted | ExFailed

datatype StopReason = StopNone | StopMaxTicks | StopMaxDomainCycles

fun stop_code :: "StopReason \<Rightarrow> u64" where
  "stop_code StopNone = 0"
| "stop_code StopMaxTicks = 1"
| "stop_code StopMaxDomainCycles = 2"

record SimExecutor =
  ex_reports :: "ReportGaugeDescriptor list"
  ex_gaugeSnapshots :: "GaugeSnapshot list"
  ex_state :: SimExecutorState
  ex_maxTicks :: "u64 option"
  ex_maxDomainCycles :: "u64 option"
  ex_stopReason :: StopReason
  ex_stopReasonUpdate :: u64
  ex_committedCycles :: u64
  ex_statistics :: string
  ex_lastError :: string
  ex_fallbackError :: bool
  ex_executionFailureLatched :: bool

definition clearError :: "SimExecutor \<Rightarrow> SimExecutor" where
  "clearError ex = ex\<lparr>ex_fallbackError := False, ex_lastError := []\<rparr>"

definition or_null :: "string \<Rightarrow> string" where
  "or_null json = (if json = [] then ''null'' else json)"

definition error_json :: "string \<Rightarrow> string \<Rightarrow> string \<Rightarrow> string \<Rightarrow> string \<Rightarrow> string \<Rightarrow> string" where
  \<open>error_json code message phase inst sourceJson checkIdJson =
     ''{"code":'' @ json_string code @ '',"message":'' @ json_string message @ '',"phase":'' @ json_string phase @
     '',"instance":'' @ (if inst = [] then ''null'' else json_string inst) @
     '',"source":'' @ or_null sourceJson @ '',"check_id":'' @ or_null checkIdJson @ ''}''\<close>

definition setError_full :: "string \<Rightarrow> string \<Rightarrow> string \<Rightarrow> string \<Rightarrow> string \<Rightarrow> string \<Rightarrow> bool \<Rightarrow> SimExecutor \<Rightarrow> SimExecutor" where
  "setError_full code message phase inst sourceJson checkIdJson replaceExecutionFailure ex =
     (if ex_executionFailureLatched ex \<and> \<not> replaceExecutionFailure then ex
      else ex\<lparr>ex_lastError := error_json code message phase inst sourceJson checkIdJson, ex_fallbackError := False\<rparr>)"

definition setError :: "string \<Rightarrow> string \<Rightarrow> string \<Rightarrow> SimExecutor \<Rightarrow> SimExecutor" where
  "setError code message phase = setError_full code message phase [] [] [] False"

definition latchError :: "string \<Rightarrow> string \<Rightarrow> string \<Rightarrow> string \<Rightarrow> string \<Rightarrow> string \<Rightarrow> SimExecutor \<Rightarrow> SimExecutor" where
  "latchError code message phase inst sourceJson checkIdJson ex =
     (setError_full code message phase inst sourceJson checkIdJson True (ex\<lparr>ex_state := ExFailed\<rparr>))\<lparr>ex_executionFailureLatched := True\<rparr>"

text \<open>Report \<open>index\<close> has a name, differs from the reports before it and names a gauge.\<close>

definition report_ok :: "SimExecutor \<Rightarrow> nat \<Rightarrow> bool" where
  "report_ok ex index =
     (let report = ex_reports ex ! index
      in rg_objectPath report \<noteq> [] \<and> rg_name report \<noteq> [] \<and>
         list_all (\<lambda>previous. rg_stableOrdinal previous \<noteq> rg_stableOrdinal report \<and>
           \<not> (rg_objectPath previous = rg_objectPath report \<and> rg_name previous = rg_name report)) (take index (ex_reports ex)) \<and>
         list_ex (\<lambda>gauge. gs_stableOrdinal gauge = rg_stableOrdinal report) (ex_gaugeSnapshots ex))"

definition reportsAreValid :: "SimExecutor \<Rightarrow> bool" where
  "reportsAreValid ex \<longleftrightarrow> length (ex_reports ex) = length (ex_gaugeSnapshots ex) \<and> list_all (report_ok ex) [0..<length (ex_reports ex)]"

text \<open>\<open>std::copy\<close> over the front of a vector.\<close>

definition copy_over :: "'a list \<Rightarrow> 'a list \<Rightarrow> 'a list" where
  "copy_over src dst = src @ drop (length src) dst"

record 's machine =
  m_exec :: SimExecutor
  m_sys :: SimSystem
  m_world :: "'s world"

definition SimExecutor_new :: "'s sim_ops \<Rightarrow> 's sim_virtuals \<Rightarrow> nat \<Rightarrow> ReportGaugeDescriptor list \<Rightarrow> SimSystem \<Rightarrow> 's world \<Rightarrow> 's machine" where
  "SimExecutor_new ops vt observations reports sys w =
     (let ex = \<lparr>ex_reports = reports, ex_gaugeSnapshots = gauges (w_obs w), ex_state = ExFailed, ex_maxTicks = None, ex_maxDomainCycles = None,
            ex_stopReason = StopNone, ex_stopReasonUpdate = 0, ex_committedCycles = 0, ex_statistics = [], ex_lastError = [],
            ex_fallbackError = False, ex_executionFailureLatched = False\<rparr>
      in if \<not> HasObservations observations sys \<or> \<not> reportsAreValid ex
         then \<lparr>m_exec = setError ''runtime_failure'' ''report gauge metadata is invalid'' ''api'' ex, m_sys = sys, m_world = w\<rparr>
         else case sys_Build ops vt sys w of (sys, w) \<Rightarrow>
           if sys_state sys \<noteq> Built
           then \<lparr>m_exec = setError ''runtime_failure'' ''model Build failed'' ''api'' ex, m_sys = sys, m_world = w\<rparr>
           else \<lparr>m_exec = clearError (ex\<lparr>ex_state := ExCreated\<rparr>), m_sys = sys, m_world = w\<rparr>)"

definition ex_created :: "SimExecutor \<Rightarrow> bool" where
  "ex_created ex \<longleftrightarrow> ex_state ex = ExCreated"

subsection \<open>Configuration and reset\<close>

definition strip_newline :: "string \<Rightarrow> string" where
  "strip_newline s = (if s \<noteq> [] \<and> last s = CHR 0x0A then butlast s else s)"

definition apply_limits :: "RuntimeLimits \<Rightarrow> SimExecutor \<Rightarrow> SimExecutor" where
  "apply_limits candidate ex =
     clearError (ex\<lparr>ex_maxTicks := maxTicks candidate,
       ex_maxDomainCycles := (case maxDomainCycles candidate of [] \<Rightarrow> None | (name, value) # _ \<Rightarrow> Some value),
       ex_state := ExConfigured\<rparr>)"

definition outside_profile :: "RuntimeLimits \<Rightarrow> bool" where
  "outside_profile candidate \<longleftrightarrow> maxTicks candidate = Some 0 \<or> length (maxDomainCycles candidate) > 1 \<or>
     (case maxDomainCycles candidate of [] \<Rightarrow> False | (name, value) # _ \<Rightarrow> name \<noteq> ''default'' \<or> value = 0)"

definition ConfigureJson :: "string option \<Rightarrow> SimExecutor \<Rightarrow> model_status \<times> SimExecutor" where
  "ConfigureJson data ex =
     (if ex_state ex \<noteq> ExCreated
      then (STATUS_INVALID_STATE, setError ''invalid_state'' ''configure requires Created state'' ''configure'' ex)
      else case data of
        None \<Rightarrow> (STATUS_INVALID_ARGUMENT, setError ''invalid_argument'' ''model config buffer is invalid'' ''configure'' ex)
      | Some bytes \<Rightarrow>
          if bytes = [] then (STATUS_INVALID_ARGUMENT, setError ''invalid_argument'' ''model config buffer is invalid'' ''configure'' ex)
          else case parseModelConfigJson (strip_newline bytes) of
            Inl error \<Rightarrow> (STATUS_INVALID_ARGUMENT, setError ''invalid_argument'' error ''configure'' ex)
          | Inr candidate \<Rightarrow>
              if deadlockWindow candidate \<noteq> None
              then (STATUS_INVALID_ARGUMENT, setError ''invalid_argument'' ''deadlock_window is unavailable in the foundation runtime'' ''configure'' ex)
              else if outside_profile candidate
              then (STATUS_INVALID_ARGUMENT, setError ''invalid_argument'' ''runtime limits are outside the foundation profile'' ''configure'' ex)
              else (STATUS_OK, apply_limits candidate ex))"

definition exec_Reset :: "'s sim_ops \<Rightarrow> 's machine \<Rightarrow> model_status \<times> 's machine" where
  "exec_Reset ops m =
     (if ex_state (m_exec m) = ExCreated
      then (STATUS_INVALID_STATE, m\<lparr>m_exec := setError ''invalid_state'' ''reset requires a configured model'' ''reset'' (m_exec m)\<rparr>)
      else case sys_Reset ops (m_sys m) (m_world m) of (sys, w) \<Rightarrow>
        if sys_state sys \<noteq> Ready
        then (STATUS_RUNTIME_FAILURE, \<lparr>m_exec = latchError ''reset_failed'' ''model reset failed'' ''reset'' [] [] [] (m_exec m), m_sys = sys, m_world = w\<rparr>)
        else (STATUS_OK, \<lparr>m_exec = clearError ((m_exec m)\<lparr>ex_stopReason := StopNone, ex_stopReasonUpdate := 0, ex_committedCycles := 0,
                ex_gaugeSnapshots := copy_over (gauges (w_obs w)) (ex_gaugeSnapshots (m_exec m)), ex_state := ExReady,
                ex_executionFailureLatched := False\<rparr>), m_sys = sys, m_world = w\<rparr>))"

subsection \<open>Step\<close>

definition limit_reached :: "u64 option \<Rightarrow> u64 \<Rightarrow> bool" where
  "limit_reached limit cycles = (case limit of None \<Rightarrow> False | Some m \<Rightarrow> cycles \<ge> m)"

definition commit_step :: "SimSystem \<Rightarrow> 's world \<Rightarrow> SimExecutor \<Rightarrow> StepResult \<times> SimExecutor" where
  "commit_step sys w ex =
     (let ex = ex\<lparr>ex_committedCycles := sys_cycle sys, ex_gaugeSnapshots := copy_over (gauges (w_obs w)) (ex_gaugeSnapshots ex)\<rparr>;
          ticksReached = limit_reached (ex_maxTicks ex) (ex_committedCycles ex);
          domainReached = limit_reached (ex_maxDomainCycles ex) (ex_committedCycles ex)
      in if ticksReached \<or> domainReached
         then (step_result STEP_TERMINATED (ex_committedCycles ex),
               clearError (ex\<lparr>ex_stopReason := (if ticksReached then StopMaxTicks else StopMaxDomainCycles),
                 ex_stopReasonUpdate := ex_committedCycles ex, ex_state := ExCompleted\<rparr>))
         else (step_result STEP_RUNNING (ex_committedCycles ex), clearError ex))"

definition exec_Step :: "'s sim_ops \<Rightarrow> 's sim_virtuals \<Rightarrow> StepResult option \<Rightarrow> 's machine \<Rightarrow> (model_status \<times> StepResult option \<times> 's machine) option" where
  "exec_Step ops vt res m = (case res of
     None \<Rightarrow> Some (STATUS_INVALID_ARGUMENT, None, m\<lparr>m_exec := setError ''invalid_argument'' ''step result is null'' ''api'' (m_exec m)\<rparr>)
   | Some r \<Rightarrow>
       if sr_struct_size r \<noteq> step_result_size
       then Some (STATUS_ABI_MISMATCH, res, m\<lparr>m_exec := setError ''abi_mismatch'' ''step result layout is incompatible'' ''api'' (m_exec m)\<rparr>)
       else if ex_state (m_exec m) \<noteq> ExReady
       then Some (STATUS_INVALID_STATE, res,
              if ex_state (m_exec m) \<noteq> ExFailed then m\<lparr>m_exec := setError ''invalid_state'' ''step requires Ready state'' ''api'' (m_exec m)\<rparr> else m)
       else if sys_cycle (m_sys m) = - 1
       then Some (STATUS_RUNTIME_FAILURE, Some (step_result STEP_FAILED (sys_cycle (m_sys m))),
              m\<lparr>m_exec := latchError ''counter_overflow'' ''cycle counter would overflow'' ''evaluate'' [] [] [] (m_exec m)\<rparr>)
       else case sys_Step ops vt (m_sys m) (m_world m) of
         None \<Rightarrow> None
       | Some (sys, w, StepQuiescent) \<Rightarrow>
           Some (STATUS_OK, Some (step_result STEP_QUIESCENT (sys_cycle sys)), \<lparr>m_exec = clearError (m_exec m), m_sys = sys, m_world = w\<rparr>)
       | Some (sys, w, StepRunning) \<Rightarrow>
           (case commit_step sys w (m_exec m) of (r, ex) \<Rightarrow> Some (STATUS_OK, Some r, \<lparr>m_exec = ex, m_sys = sys, m_world = w\<rparr>))
       | Some (sys, w, _) \<Rightarrow>
           (let failure = sys_failureInfo sys
            in Some (STATUS_RUNTIME_FAILURE, Some (step_result STEP_FAILED (ex_committedCycles (m_exec m))),
                 \<lparr>m_exec = latchError (if fi_code failure = [] then ''runtime_failure'' else fi_code failure)
                    (if fi_message failure = [] then ''model step failed'' else fi_message failure) (phaseName (fi_phase failure))
                    (fi_instance failure) (fi_sourceJson failure) (fi_checkIdJson failure) (m_exec m), m_sys = sys, m_world = w\<rparr>)))"

subsection \<open>Statistics and errors\<close>

record stat_row =
  row_objectPath :: string
  row_name :: string
  row_kind :: string
  row_value :: u64
  row_lastUpdate :: u64

definition statistic :: "stat_row \<Rightarrow> string" where
  \<open>statistic row = ''{"buckets":[],"count":0,"kind":'' @ json_string (row_kind row) @
     '',"last_update":{"delta":0,"time":'' @ print_u64 (row_lastUpdate row) @ ''},"maximum":0,"minimum":0,"name":'' @
     json_string (row_name row) @ '',"object_path":'' @ json_string (row_objectPath row) @ '',"sum":0,"value":'' @ print_u64 (row_value row) @ ''}''\<close>

fun appendStatistics :: "bool \<Rightarrow> stat_row list \<Rightarrow> string" where
  "appendStatistics first [] = []"
| "appendStatistics first (row # rows) = (if first then [] else '','') @ statistic row @ appendStatistics False rows"

definition runtime_rows :: "SimExecutor \<Rightarrow> stat_row list" where
  "runtime_rows ex =
     [\<lparr>row_objectPath = ''@runtime'', row_name = ''cycles'', row_kind = ''counter'', row_value = ex_committedCycles ex, row_lastUpdate = ex_committedCycles ex\<rparr>,
      \<lparr>row_objectPath = ''@runtime'', row_name = ''stop_reason'', row_kind = ''gauge'', row_value = stop_code (ex_stopReason ex), row_lastUpdate = ex_stopReasonUpdate ex\<rparr>]"

definition report_row :: "SimExecutor \<Rightarrow> ReportGaugeDescriptor \<Rightarrow> stat_row option" where
  "report_row ex report = (case find (\<lambda>candidate. gs_stableOrdinal candidate = rg_stableOrdinal report) (ex_gaugeSnapshots ex) of
     None \<Rightarrow> None
   | Some gauge \<Rightarrow>
       if sv_kind (gs_value gauge) \<noteq> SlotUnsigned then None
       else Some \<lparr>row_objectPath = rg_objectPath report, row_name = rg_name report, row_kind = ''gauge'',
              row_value = sv_bits (gs_value gauge), row_lastUpdate = gs_lastUpdate gauge\<rparr>)"

definition stat_key :: "stat_row \<Rightarrow> string \<times> string" where
  "stat_key row = (row_objectPath row, row_name row)"

definition buildStatistics :: "SimExecutor \<Rightarrow> SimExecutor option" where
  "buildStatistics ex =
     (if \<not> reportsAreValid ex then None
      else case those (map (report_row ex) (ex_reports ex)) of
        None \<Rightarrow> None
      | Some rows \<Rightarrow> Some (ex\<lparr>ex_statistics := ''['' @ appendStatistics True (sort_key stat_key (runtime_rows ex @ rows)) @ '']'' @ [CHR 0x0A]\<rparr>))"

definition StatisticsJson :: "bool \<Rightarrow> SimExecutor \<Rightarrow> model_status \<times> string option \<times> SimExecutor" where
  "StatisticsJson has_result ex =
     (if \<not> has_result then (STATUS_INVALID_ARGUMENT, None, setError ''invalid_argument'' ''statistics result is null'' ''statistics'' ex)
      else if ex_state ex \<noteq> ExReady \<and> ex_state ex \<noteq> ExCompleted \<and> ex_state ex \<noteq> ExFailed
      then (STATUS_INVALID_STATE, None, setError ''invalid_state'' ''statistics require an initialized model'' ''statistics'' ex)
      else case buildStatistics ex of
        None \<Rightarrow> (STATUS_RUNTIME_FAILURE, None, setError ''statistics_failure'' ''statistics snapshot failed'' ''statistics'' ex)
      | Some ex \<Rightarrow> (STATUS_OK, Some (ex_statistics ex), ex))"

definition fallback_error :: string where
  \<open>fallback_error = ''{"code":"runtime_failure","message":"runtime failure","phase":"api","instance":null,"source":null,"check_id":null}''\<close>

definition LastError :: "bool \<Rightarrow> SimExecutor \<Rightarrow> model_status \<times> string option \<times> SimExecutor" where
  "LastError has_result ex =
     (if \<not> has_result then (STATUS_INVALID_ARGUMENT, None, setError ''invalid_argument'' ''last_error result is null'' ''api'' ex)
      else (STATUS_OK, Some (if ex_fallbackError ex then fallback_error else ex_lastError ex), ex))"

subsection \<open>Life cycle\<close>

datatype exec_call = CallConfigure "string option" | CallExecReset | CallExecStep "StepResult option" | CallStatistics bool | CallLastError bool

fun exec_call_run :: "'s sim_ops \<Rightarrow> 's sim_virtuals \<Rightarrow> exec_call \<Rightarrow> 's machine \<Rightarrow> 's machine option" where
  "exec_call_run ops vt (CallConfigure data) m = Some (m\<lparr>m_exec := snd (ConfigureJson data (m_exec m))\<rparr>)"
| "exec_call_run ops vt CallExecReset m = Some (snd (exec_Reset ops m))"
| "exec_call_run ops vt (CallExecStep res) m = map_option (\<lambda>(status, r, m'). m') (exec_Step ops vt res m)"
| "exec_call_run ops vt (CallStatistics b) m = Some (m\<lparr>m_exec := snd (snd (StatisticsJson b (m_exec m)))\<rparr>)"
| "exec_call_run ops vt (CallLastError b) m = Some (m\<lparr>m_exec := snd (snd (LastError b (m_exec m)))\<rparr>)"

inductive exec_reachable :: "'s sim_ops \<Rightarrow> 's sim_virtuals \<Rightarrow> 's machine \<Rightarrow> bool" for ops vt where
  start: "exec_reachable ops vt (SimExecutor_new ops vt observations reports sys w)"
| drive: "exec_reachable ops vt m \<Longrightarrow> exec_reachable ops vt (m\<lparr>m_world := w\<rparr>)"
| call: "exec_reachable ops vt m \<Longrightarrow> exec_call_run ops vt c m = Some m' \<Longrightarrow> exec_reachable ops vt m'"

text \<open>The first cycle count at which a limit stops the run.\<close>

fun stop_cycle :: "u64 option \<Rightarrow> u64 option \<Rightarrow> u64 option" where
  "stop_cycle None d = d"
| "stop_cycle t None = t"
| "stop_cycle (Some t) (Some d) = Some (min t d)"

definition exec_ok :: "'s machine \<Rightarrow> bool" where
  "exec_ok m \<longleftrightarrow>
     (let ex = m_exec m; stop = stop_cycle (ex_maxTicks ex) (ex_maxDomainCycles ex)
      in stop \<noteq> Some 0 \<and> (ex_executionFailureLatched ex \<longrightarrow> ex_state ex = ExFailed \<and> ex_lastError ex \<noteq> []) \<and> \<not> ex_fallbackError ex \<and>
         (ex_state ex = ExCreated \<longrightarrow> sys_state (m_sys m) = Built \<and> stop = None) \<and>
         (ex_state ex = ExConfigured \<longrightarrow> sys_state (m_sys m) = Built) \<and>
         (ex_state ex = ExReady \<longrightarrow> sys_state (m_sys m) = Ready \<and> ex_committedCycles ex = sys_cycle (m_sys m) \<and> ex_stopReason ex = StopNone \<and>
            (\<forall>n. stop = Some n \<longrightarrow> ex_committedCycles ex < n)) \<and>
         (ex_state ex = ExCompleted \<longrightarrow> sys_state (m_sys m) = Ready \<and> ex_committedCycles ex = sys_cycle (m_sys m) \<and> stop = Some (ex_committedCycles ex) \<and>
            ex_stopReasonUpdate ex = ex_committedCycles ex \<and>
            ex_stopReason ex = (if ex_maxTicks ex = Some (ex_committedCycles ex) then StopMaxTicks else StopMaxDomainCycles)))"

lemma sys_Step_shape:
  assumes "sys_Step ops vt sys w = Some (sys', w', r)" "sys_state sys = Ready"
  shows "case r of StepInvalidState \<Rightarrow> False | StepQuiescent \<Rightarrow> sys' = sys \<and> w' = w
    | StepRunning \<Rightarrow> sys_state sys' = Ready \<and> sys_cycle sys \<noteq> - 1 \<and> sys_cycle sys' = sys_cycle sys + 1
    | StepFailed \<Rightarrow> sys_state sys' = Failed \<and> sys_cycle sys' = sys_cycle sys"
  using assms by (auto simp: sys_Step_def sys_Work_def sys_fail_def sys_Xfer_def Let_def split: if_splits option.splits prod.splits)

lemma setError_fields [simp]:
  "ex_state (setError a b c ex) = ex_state ex" "ex_executionFailureLatched (setError a b c ex) = ex_executionFailureLatched ex"
  "ex_maxTicks (setError a b c ex) = ex_maxTicks ex" "ex_maxDomainCycles (setError a b c ex) = ex_maxDomainCycles ex"
  "ex_stopReason (setError a b c ex) = ex_stopReason ex" "ex_stopReasonUpdate (setError a b c ex) = ex_stopReasonUpdate ex"
  "ex_committedCycles (setError a b c ex) = ex_committedCycles ex"
  "ex_fallbackError (setError a b c ex) = (ex_fallbackError ex \<and> ex_executionFailureLatched ex)"
  "ex_executionFailureLatched ex \<Longrightarrow> setError a b c ex = ex"
  by (auto simp: setError_def setError_full_def)

lemma exec_ok_setError: "exec_ok m \<Longrightarrow> exec_ok (m\<lparr>m_exec := setError a b c (m_exec m)\<rparr>)"
  by (auto simp: exec_ok_def Let_def)

lemma error_json_not_empty: "error_json a b c d e f \<noteq> []"
  by (simp add: error_json_def)

lemma exec_ok_latch:
  "stop_cycle (ex_maxTicks ex) (ex_maxDomainCycles ex) \<noteq> Some 0 \<Longrightarrow> exec_ok \<lparr>m_exec = latchError a b c d e f ex, m_sys = sys, m_world = w\<rparr>"
  by (simp add: exec_ok_def latchError_def setError_full_def error_json_not_empty Let_def)

lemma stop_cycle_facts:
  "limit_reached t n \<or> limit_reached d n \<longleftrightarrow> (\<exists>k. stop_cycle t d = Some k \<and> k \<le> n)"
  by (cases t; cases d) (auto simp: limit_reached_def min_le_iff_disj)

lemma configure_ok: "exec_ok m \<Longrightarrow> exec_ok (m\<lparr>m_exec := snd (ConfigureJson data (m_exec m))\<rparr>)"
proof -
  assume ok: "exec_ok m"
  have conf: "exec_ok (m\<lparr>m_exec := apply_limits candidate (m_exec m)\<rparr>)" if "ex_state (m_exec m) = ExCreated" "\<not> outside_profile candidate" for candidate
  proof -
    have "maxTicks candidate \<noteq> Some 0" "maxDomainCycles candidate \<noteq> [] \<Longrightarrow> snd (hd (maxDomainCycles candidate)) \<noteq> 0"
      using that(2) by (auto simp: outside_profile_def split: list.splits)
    then show ?thesis using ok that(1) 
      by (cases "maxTicks candidate"; cases "maxDomainCycles candidate") (auto simp: exec_ok_def apply_limits_def clearError_def Let_def min_def split: if_splits)
  qed
  show ?thesis using exec_ok_setError[OF ok] conf by (auto simp: ConfigureJson_def split: option.splits sum.splits)
qed

lemma reset_ok: "exec_ok m \<Longrightarrow> exec_ok (snd (exec_Reset ops m))"
proof -
  assume ok: "exec_ok m"
  obtain sys w where r: "sys_Reset ops (m_sys m) (m_world m) = (sys, w)" by (cases "sys_Reset ops (m_sys m) (m_world m)")
  have stop: "stop_cycle (ex_maxTicks (m_exec m)) (ex_maxDomainCycles (m_exec m)) \<noteq> Some 0" using ok by (simp add: exec_ok_def Let_def)
  have cyc: "sys_state sys = Ready \<Longrightarrow> sys_state (m_sys m) \<noteq> PreBuild \<Longrightarrow> sys_cycle sys = 0 \<or> sys_state (m_sys m) = Ready" using r
    by (auto simp: sys_Reset_def Let_def split: if_splits)
  have "sys_state sys = Ready \<Longrightarrow> sys_cycle sys = 0"
    using r by (auto simp: sys_Reset_def Let_def split: if_splits)
  then show ?thesis using exec_ok_setError[OF ok] exec_ok_latch[OF stop] stop r
    by (auto simp: exec_Reset_def exec_ok_def clearError_def Let_def word_gt_0)
qed

lemma commit_ok:
  assumes ok: "exec_ok m" and ready: "ex_state (m_exec m) = ExReady" and cyc: "sys_cycle (m_sys m) \<noteq> - 1"
    and sys: "sys_state sys = Ready" "sys_cycle sys = sys_cycle (m_sys m) + 1" and c: "commit_step sys w (m_exec m) = (r, ex)"
  shows "exec_ok \<lparr>m_exec = ex, m_sys = sys, m_world = w\<rparr> \<and> sr_epoch_time r = sys_cycle sys \<and>
    sr_state r = (if stop_cycle (ex_maxTicks (m_exec m)) (ex_maxDomainCycles (m_exec m)) = Some (sys_cycle sys) then STEP_TERMINATED else STEP_RUNNING)"
proof -
  define t where "t = ex_maxTicks (m_exec m)"
  define d where "d = ex_maxDomainCycles (m_exec m)"
  define n where "n = sys_cycle sys"
  have old: "stop_cycle t d = Some k \<Longrightarrow> sys_cycle (m_sys m) < k" "stop_cycle t d \<noteq> Some 0" "\<not> ex_executionFailureLatched (m_exec m)"
    "ex_stopReason (m_exec m) = StopNone" for k
    using ok ready by (auto simp: exec_ok_def Let_def t_def d_def)
  have n: "n = sys_cycle (m_sys m) + 1" by (simp add: n_def sys)
  have le: "stop_cycle t d = Some k \<Longrightarrow> n \<le> k" for k using old(1)[of k] by (simp add: n inc_le)
  then have reach: "limit_reached t n \<or> limit_reached d n \<longleftrightarrow> stop_cycle t d = Some n" unfolding stop_cycle_facts by (auto intro: antisym)
  have tn: "limit_reached t n \<longleftrightarrow> t = Some n" if "stop_cycle t d = Some n" using that by (cases t; cases d) (auto simp: limit_reached_def min_def split: if_splits)
  have lt: "n < k" if "stop_cycle t d = Some k" "k \<noteq> n" for k using le[OF that(1)] that(2) by simp
  have c': "commit_step sys w (m_exec m) = (let ex = (m_exec m)\<lparr>ex_committedCycles := n, ex_gaugeSnapshots := copy_over (gauges (w_obs w)) (ex_gaugeSnapshots (m_exec m))\<rparr>
      in if stop_cycle t d = Some n
         then (step_result STEP_TERMINATED n, clearError (ex\<lparr>ex_stopReason := (if limit_reached t n then StopMaxTicks else StopMaxDomainCycles), ex_stopReasonUpdate := n, ex_state := ExCompleted\<rparr>))
         else (step_result STEP_RUNNING n, clearError ex))"
    unfolding reach[symmetric] by (simp add: commit_step_def Let_def n_def t_def d_def)
  show ?thesis
  proof (cases "stop_cycle t d = Some n")
    case True
    then have "r = step_result STEP_TERMINATED n" "ex = clearError ((m_exec m)\<lparr>ex_committedCycles := n, ex_gaugeSnapshots := copy_over (gauges (w_obs w)) (ex_gaugeSnapshots (m_exec m)),
        ex_stopReason := (if limit_reached t n then StopMaxTicks else StopMaxDomainCycles), ex_stopReasonUpdate := n, ex_state := ExCompleted\<rparr>)"
      using c unfolding c' by (simp_all add: Let_def)
    then show ?thesis using True old tn[OF True] sys n_def t_def d_def by (simp add: exec_ok_def clearError_def step_result_def Let_def)
  next
    case False
    then have "r = step_result STEP_RUNNING n" "ex = clearError ((m_exec m)\<lparr>ex_committedCycles := n, ex_gaugeSnapshots := copy_over (gauges (w_obs w)) (ex_gaugeSnapshots (m_exec m))\<rparr>)"
      using c unfolding c' by (simp_all add: Let_def)
    then show ?thesis using False old lt sys ready n_def t_def d_def by (auto simp: exec_ok_def clearError_def step_result_def Let_def)
  qed
qed

lemma step_ok:
  assumes ok: "exec_ok m" and st: "exec_Step ops vt res m = Some (status, r, m')"
  shows "exec_ok m'"
proof (cases "(\<exists>x. res = Some x \<and> sr_struct_size x = step_result_size) \<and> ex_state (m_exec m) = ExReady \<and> sys_cycle (m_sys m) \<noteq> - 1")
  case False
  have stop: "stop_cycle (ex_maxTicks (m_exec m)) (ex_maxDomainCycles (m_exec m)) \<noteq> Some 0" using ok by (simp add: exec_ok_def Let_def)
  have "exec_ok (m\<lparr>m_exec := latchError a b c d e f (m_exec m)\<rparr>)" for a b c d e f
    using stop by (simp add: exec_ok_def latchError_def setError_full_def error_json_not_empty Let_def)
  then show ?thesis using st False ok exec_ok_setError[OF ok] by (auto simp: exec_Step_def split: option.splits if_splits)
next
  case True
  then obtain sys w k where s: "sys_Step ops vt (m_sys m) (m_world m) = Some (sys, w, k)"
    using st by (auto simp: exec_Step_def split: option.splits)
  have ready: "sys_state (m_sys m) = Ready" "ex_committedCycles (m_exec m) = sys_cycle (m_sys m)" and stop: "stop_cycle (ex_maxTicks (m_exec m)) (ex_maxDomainCycles (m_exec m)) \<noteq> Some 0"
    using ok True by (simp_all add: exec_ok_def Let_def)
  note shape = sys_Step_shape[OF s ready(1)]
  show ?thesis
  proof (cases k)
    case StepRunning
    obtain r' ex where c: "commit_step sys w (m_exec m) = (r', ex)" by (cases "commit_step sys w (m_exec m)")
    then have "m' = \<lparr>m_exec = ex, m_sys = sys, m_world = w\<rparr>" using st True s StepRunning by (auto simp: exec_Step_def)
    then show ?thesis using commit_ok[OF ok _ _ _ _ c] True shape StepRunning by simp
  next
    case StepQuiescent
    then have "m' = \<lparr>m_exec = clearError (m_exec m), m_sys = m_sys m, m_world = w\<rparr>" using st True s shape by (auto simp: exec_Step_def)
    then show ?thesis using ok True by (auto simp: exec_ok_def clearError_def Let_def)
  next
    case StepFailed
    then obtain a b c d e f where "m' = \<lparr>m_exec = latchError a b c d e f (m_exec m), m_sys = sys, m_world = w\<rparr>"
      using st True s by (auto simp: exec_Step_def Let_def)
    then show ?thesis using exec_ok_latch[OF stop] by simp
  qed (use shape in simp)
qed

lemma buildStatistics_fields: "buildStatistics ex = Some ex' \<Longrightarrow> \<exists>x. ex' = ex\<lparr>ex_statistics := x\<rparr>"
  by (auto simp: buildStatistics_def split: if_splits option.splits)

lemma exec_ok_statistics: "exec_ok (m\<lparr>m_exec := (m_exec m)\<lparr>ex_statistics := x\<rparr>\<rparr>) = exec_ok m"
  by (simp add: exec_ok_def Let_def)

lemma statistics_ok: "exec_ok m \<Longrightarrow> exec_ok (m\<lparr>m_exec := snd (snd (StatisticsJson b (m_exec m)))\<rparr>)"
  using exec_ok_setError[of m] exec_ok_statistics[where m = m] buildStatistics_fields[of "m_exec m"]
  by (cases "buildStatistics (m_exec m)") (auto simp: StatisticsJson_def)

lemma last_error_ok: "exec_ok m \<Longrightarrow> exec_ok (m\<lparr>m_exec := snd (snd (LastError b (m_exec m)))\<rparr>)"
  using exec_ok_setError[of m] by (simp add: LastError_def)

lemma new_ok: "exec_ok (SimExecutor_new ops vt observations reports sys w)"
  by (auto simp: SimExecutor_new_def exec_ok_def clearError_def Let_def split: prod.splits)

text \<open>C11.  In every state that any sequence of calls to the executor can reach, whatever the model and its environment do: a created or
  configured executor drives a built system; a Ready executor drives a Ready system, shows its exact cycle count and has not reached
  a limit; a Completed executor stands exactly at the smaller of its two limits, with the reason that names the limit, max_ticks
  first; a recorded execution failure means the Failed state and a non-empty error.\<close>
theorem executor_lifecycle:
  assumes "exec_reachable ops vt m"
  shows "exec_ok m"
  using assms
proof induction
  case (call m c m')
  then show ?case using configure_ok reset_ok step_ok statistics_ok last_error_ok by (cases c) fastforce+
next
  case (drive m w)
  have "exec_ok (m\<lparr>m_world := w\<rparr>) = exec_ok m" by (simp add: exec_ok_def Let_def)
  then show ?case using drive by simp
qed (rule new_ok)

subsection \<open>A reported failure stays\<close>

lemma latched_call:
  assumes l: "ex_executionFailureLatched (m_exec m)" "ex_state (m_exec m) = ExFailed" and c: "c \<noteq> CallExecReset"
    and run: "exec_call_run ops vt c m = Some m'"
  shows "(\<exists>x. m' = m\<lparr>m_exec := (m_exec m)\<lparr>ex_statistics := x\<rparr>\<rparr>)"
proof -
  have same: "\<exists>x. m = m\<lparr>m_exec := (m_exec m)\<lparr>ex_statistics := x\<rparr>\<rparr>" by (rule exI[of _ "ex_statistics (m_exec m)"]) simp
  show ?thesis
  proof (cases c)
    case (CallConfigure data)
    then show ?thesis using run l same by (simp add: ConfigureJson_def)
  next
    case (CallExecStep res)
    then show ?thesis using run l same by (auto simp: exec_Step_def split: option.splits if_splits)
  next
    case (CallStatistics b)
    show ?thesis
    proof (cases "buildStatistics (m_exec m)")
      case None
      then show ?thesis using run l same CallStatistics by (cases b) (auto simp: StatisticsJson_def)
    next
      case (Some ex')
      then show ?thesis using run l same CallStatistics buildStatistics_fields[OF Some] by (cases b) (auto simp: StatisticsJson_def)
    qed
  next
    case (CallLastError b)
    then show ?thesis using run l same by (cases b) (auto simp: LastError_def)
  qed (use c in simp)
qed

fun exec_calls :: "'s sim_ops \<Rightarrow> 's sim_virtuals \<Rightarrow> exec_call list \<Rightarrow> 's machine \<Rightarrow> 's machine option" where
  "exec_calls ops vt [] m = Some m"
| "exec_calls ops vt (c # cs) m = (case exec_call_run ops vt c m of None \<Rightarrow> None | Some m' \<Rightarrow> exec_calls ops vt cs m')"

lemma latched_calls:
  "exec_calls ops vt cs m = Some m' \<Longrightarrow> CallExecReset \<notin> set cs \<Longrightarrow> ex_executionFailureLatched (m_exec m) \<Longrightarrow> ex_state (m_exec m) = ExFailed \<Longrightarrow>
     \<exists>x. m' = m\<lparr>m_exec := (m_exec m)\<lparr>ex_statistics := x\<rparr>\<rparr>"
proof (induction cs arbitrary: m)
  case Nil
  then show ?case by (intro exI[of _ "ex_statistics (m_exec m)"]) simp
next
  case (Cons c cs)
  then obtain m1 where m1: "exec_call_run ops vt c m = Some m1" "exec_calls ops vt cs m1 = Some m'" by (auto split: option.splits)
  obtain x where "m1 = m\<lparr>m_exec := (m_exec m)\<lparr>ex_statistics := x\<rparr>\<rparr>" using latched_call[OF Cons.prems(3,4) _ m1(1)] Cons.prems(2) by auto
  then show ?case using Cons.IH[OF m1(2)] Cons.prems by auto
qed

lemma latched_fields:
  "ex_executionFailureLatched (latchError a b c d e f ex)" "ex_state (latchError a b c d e f ex) = ExFailed"
  "ex_lastError (latchError a b c d e f ex) \<noteq> []" "\<not> ex_fallbackError (latchError a b c d e f ex)"
  by (simp_all add: latchError_def setError_full_def error_json_not_empty)

text \<open>C16.  An execution failure is reported until the model is reset.  When a Step fails, the executor is Failed and LastError returns
  the JSON text of that failure; after any further calls other than Reset, with any arguments, LastError still returns the same
  text, the system and its modules are untouched and every further Step is refused as an invalid state.\<close>
theorem executor_failure_latched:
  assumes ready: "ex_state (m_exec m) = ExReady" and size: "sr_struct_size r = step_result_size"
    and step: "exec_Step ops vt (Some r) m = Some (STATUS_RUNTIME_FAILURE, res, m1)"
    and calls: "exec_calls ops vt cs m1 = Some m2" "CallExecReset \<notin> set cs"
  shows "ex_state (m_exec m1) = ExFailed \<and> ex_lastError (m_exec m1) \<noteq> [] \<and> fst (snd (LastError True (m_exec m2))) = Some (ex_lastError (m_exec m1)) \<and>
    m_sys m2 = m_sys m1 \<and> m_world m2 = m_world m1 \<and> exec_Step ops vt (Some r) m2 = Some (STATUS_INVALID_STATE, Some r, m2)"
proof -
  have l: "ex_executionFailureLatched (m_exec m1)" "ex_state (m_exec m1) = ExFailed" "ex_lastError (m_exec m1) \<noteq> []" "\<not> ex_fallbackError (m_exec m1)"
    using step ready size by (auto simp: exec_Step_def Let_def latched_fields split: option.splits if_splits SimStepResult.splits prod.splits)
  obtain x where m2: "m2 = m1\<lparr>m_exec := (m_exec m1)\<lparr>ex_statistics := x\<rparr>\<rparr>" using latched_calls[OF calls l(1,2)] by blast
  show ?thesis using l size by (simp add: m2 LastError_def exec_Step_def)
qed

text \<open>A machine of one register whose precheck refuses every step.\<close>

definition idle_exec :: SimExecutor where
  "idle_exec = \<lparr>ex_reports = [], ex_gaugeSnapshots = [], ex_state = ExReady, ex_maxTicks = Some 9, ex_maxDomainCycles = None, ex_stopReason = StopNone,
     ex_stopReasonUpdate = 0, ex_committedCycles = 4, ex_statistics = [], ex_lastError = [], ex_fallbackError = False, ex_executionFailureLatched = False\<rparr>"

definition one_machine :: "leaf list machine" where
  "one_machine = \<lparr>m_exec = idle_exec, m_sys = one_root, m_world = one_register\<rparr>"

lemma one_machine_ok: "exec_ok one_machine"
  by (simp add: exec_ok_def one_machine_def idle_exec_def one_root_def Let_def)

theorem executor_failure_latched_witness:
  "\<exists>res m1. exec_Step leaf_ops (plain_system (\<lambda>_. False)) (Some (step_result STEP_RUNNING 0)) one_machine = Some (STATUS_RUNTIME_FAILURE, res, m1) \<and>
     exec_Step leaf_ops (plain_system (\<lambda>_. False)) (Some (step_result STEP_RUNNING 0)) m1 = Some (STATUS_INVALID_STATE, Some (step_result STEP_RUNNING 0), m1)"
proof -
  have "case exec_Step leaf_ops (plain_system (\<lambda>_. False)) (Some (step_result STEP_RUNNING 0)) one_machine of
      Some (st, _, _) \<Rightarrow> st = STATUS_RUNTIME_FAILURE | None \<Rightarrow> False" by code_simp
  then obtain res m1 where s: "exec_Step leaf_ops (plain_system (\<lambda>_. False)) (Some (step_result STEP_RUNNING 0)) one_machine = Some (STATUS_RUNTIME_FAILURE, res, m1)"
    by (auto split: option.splits)
  have "exec_Step leaf_ops (plain_system (\<lambda>_. False)) (Some (step_result STEP_RUNNING 0)) m1 = Some (STATUS_INVALID_STATE, Some (step_result STEP_RUNNING 0), m1)"
    using executor_failure_latched[OF _ _ s, of "[]" m1] by (simp add: one_machine_def idle_exec_def step_result_def)
  with s show ?thesis by blast
qed

theorem executor_lifecycle_witness:
  "exec_ok (SimExecutor_new leaf_ops (plain_system (\<lambda>_. True)) 0 [] (fst (AttachObservations 0 new_system)) one_register) \<and>
   ex_state (m_exec (SimExecutor_new leaf_ops (plain_system (\<lambda>_. True)) 0 [] (fst (AttachObservations 0 new_system)) one_register)) = ExCreated"
proof
  show "exec_ok (SimExecutor_new leaf_ops (plain_system (\<lambda>_. True)) 0 [] (fst (AttachObservations 0 new_system)) one_register)"
    by (rule executor_lifecycle[OF exec_reachable.start])
  show "ex_state (m_exec (SimExecutor_new leaf_ops (plain_system (\<lambda>_. True)) 0 [] (fst (AttachObservations 0 new_system)) one_register)) = ExCreated"
    by (simp add: SimExecutor_new_def AttachObservations_def new_system_def HasObservations_def reportsAreValid_def one_register_def new_slots_def
        sys_Build_def plain_system_def clearError_def)
qed

end
