(* ===== verification/Gfsim_Runner.thy ===== *)
theory Gfsim_Runner
  imports Gfsim_Executor
begin

text \<open>
  The command-line runner of \<^verbatim>\<open>include/gfsim/SystemRunner.h\<close> and \<^verbatim>\<open>runtime/system_runner.cpp\<close>: the
  options, the check of the observation metadata against the configured slots, the run loop over the executor and
  the records it writes.  What the operating system decides is a parameter: \<open>read_file\<close> reads a configuration,
  \<open>create_file\<close> says whether a new events file could be created, \<open>write_ok\<close> whether a record could be written after
  the records before it.  The host's callbacks are functions on the host's context and the modules' world that may
  throw.  The message that \<open>fail\<close> prints is part of the result.

  The lemmas show that a ready runner has a finite limit, so that the run loop ends with a result, that the metadata
  check accepts exactly one entry for every slot, and what the records of a step contain.
\<close>

subsection \<open>Records\<close>

record RunnerObservation =
  ro_stableOrdinal :: nat
  ro_kind :: string
  ro_instance :: string
  ro_registration :: string
  ro_site :: string
  ro_specJson :: string
  ro_hasValue :: bool
  ro_reportName :: string
  ro_groupIndex :: nat
  ro_groupSize :: nat

definition signedDecimal :: "u64 \<Rightarrow> string" where
  "signedDecimal bits = (let i = sint bits in if i < 0 then ''-'' @ decimal (nat (- i)) else decimal (nat i))"

definition planeHex :: "u64 list \<Rightarrow> nat \<Rightarrow> string" where
  "planeHex words width =
     map (\<lambda>nibble. hex_digit (unat (drop_bit (4 * (nibble mod 16)) (words ! (nibble div 16)) AND 15)))
       (rev [0..<width div 4 + (if width mod 4 \<noteq> 0 then 1 else 0)])"

datatype thrown = StdException string | OtherException

definition appendValue :: "ObservationSlots \<Rightarrow> SlotValue \<Rightarrow> thrown + string" where
  \<open>appendValue obs v =
     (if sv_kind v = SlotBits4 then
        if \<not> isCanonicalBits4 obs v then Inl (StdException ''observation has malformed Bits4 planes'')
        else Inr (''{"kind":"bits4","width":'' @ decimal (sv_width v) @ '',"value":'' @ json_string (planeHex (plane_words obs (sv_value v)) (sv_width v)) @
               '',"known":'' @ json_string (planeHex (plane_words obs (sv_known v)) (sv_width v)) @
               '',"z":'' @ json_string (planeHex (plane_words obs (sv_z v)) (sv_width v)) @ ''}'')
      else if sv_kind v = SlotBool then Inr (''{"kind":"bool","value":'' @ (if sv_bits v \<noteq> 0 then ''true'' else ''false'') @ ''}'')
      else Inr (''{"kind":"integer","value":'' @
             json_string (if sv_kind v = SlotSigned then signedDecimal (sv_bits v) else print_u64 (sv_bits v)) @ ''}''))\<close>

definition sameObservationGroup :: "RunnerObservation \<Rightarrow> RunnerObservation \<Rightarrow> nat \<Rightarrow> bool" where
  "sameObservationGroup first entry index \<longleftrightarrow>
     ro_groupIndex entry = index \<and> ro_groupSize entry = ro_groupSize first \<and> ro_kind entry = ro_kind first \<and> ro_instance entry = ro_instance first \<and>
     ro_registration entry = ro_registration first \<and> ro_site entry = ro_site first \<and> ro_specJson entry = ro_specJson first \<and>
     ro_reportName entry = ro_reportName first"

datatype output_source = OutEvent CommittedEventSlot | OutGauge GaugeSnapshot

record OutputItem =
  oi_descriptorOrder :: nat
  oi_metadata :: RunnerObservation
  oi_source :: output_source

definition observationEpoch :: "OutputItem \<Rightarrow> u64" where
  "observationEpoch item = (case oi_source item of OutEvent e \<Rightarrow> ce_epoch e | OutGauge g \<Rightarrow> gs_lastUpdate g)"

definition item_value :: "OutputItem \<Rightarrow> SlotValue" where
  "item_value item = (case oi_source item of OutEvent e \<Rightarrow> ce_value e | OutGauge g \<Rightarrow> gs_value g)"

text \<open>The values of a group, separated by commas; lanes without a value are left out.\<close>

fun append_values :: "ObservationSlots \<Rightarrow> bool \<Rightarrow> OutputItem list \<Rightarrow> thrown + string" where
  "append_values obs hasValue [] = Inr []"
| "append_values obs hasValue (lane # lanes) =
     (if \<not> ro_hasValue (oi_metadata lane) then append_values obs hasValue lanes
      else case appendValue obs (item_value lane) of
        Inl e \<Rightarrow> Inl e
      | Inr s \<Rightarrow> (case append_values obs True lanes of Inl e \<Rightarrow> Inl e | Inr t \<Rightarrow> Inr ((if hasValue then '','' else []) @ s @ t)))"

definition eventRecord :: "ObservationSlots \<Rightarrow> OutputItem list \<Rightarrow> thrown + string" where
  \<open>eventRecord obs lanes =
     (let item = hd lanes; metadata = oi_metadata item; committedEpoch = observationEpoch item;
          evaluationEpoch = (if committedEpoch = 0 then 0 else committedEpoch - 1)
      in case append_values obs False lanes of
           Inl e \<Rightarrow> Inl e
         | Inr values \<Rightarrow>
             Inr (''{"kind":'' @ json_string (ro_kind metadata) @ '',"instance":'' @ json_string (ro_instance metadata) @
               '',"registration":'' @ json_string (ro_registration metadata) @ '',"site":'' @ json_string (ro_site metadata) @
               '',"evaluation_epoch":'' @ json_string (print_u64 evaluationEpoch) @ '',"commit_epoch":'' @ json_string (print_u64 committedEpoch) @
               '',"spec":'' @ ro_specJson metadata @ '',"values":['' @ values @ '']}'' @ [CHR 0x0A]))\<close>

definition resultRecord :: "string \<Rightarrow> u64 \<Rightarrow> string \<Rightarrow> string \<Rightarrow> string \<Rightarrow> string" where
  \<open>resultRecord status epoch statistics errorJson resetSemantics =
     ''{"kind":"result","status":'' @ json_string status @ '',"epoch_time":'' @ json_string (print_u64 epoch) @ '',"statistics":'' @ statistics @
     '',"error":'' @ or_null errorJson @ '',"reset_semantics":'' @ json_string resetSemantics @ ''}'' @ [CHR 0x0A]\<close>

subsection \<open>Metadata\<close>

definition find_index :: "('a \<Rightarrow> bool) \<Rightarrow> 'a list \<Rightarrow> nat option" where
  "find_index P xs = find (\<lambda>i. P (xs ! i)) [0..<length xs]"

definition entry_bad :: "RunnerObservation \<Rightarrow> ObservationDescriptor \<Rightarrow> bool" where
  "entry_bad entry descriptor \<longleftrightarrow>
     (let isReport = (ro_kind entry = ''report'')
      in (\<not> isReport \<and> ro_kind entry \<noteq> ''print'' \<and> ro_kind entry \<noteq> ''log'') \<or> isReport \<noteq> (od_kind descriptor = Gauge) \<or>
         groupIndex descriptor \<noteq> ro_groupIndex entry \<or> groupSize descriptor \<noteq> ro_groupSize entry \<or> (isReport \<and> \<not> ro_hasValue entry))"

text \<open>The first loop: \<open>ordered\<close> holds the entry of every descriptor seen so far.\<close>

fun match_entries :: "ObservationDescriptor list \<Rightarrow> RunnerObservation list \<Rightarrow> RunnerObservation option list \<Rightarrow> ReportGaugeDescriptor list \<Rightarrow>
    (RunnerObservation option list \<times> ReportGaugeDescriptor list) option" where
  "match_entries ds [] ordered reports = Some (ordered, reports)"
| "match_entries ds (entry # metadata) ordered reports =
     (if ro_instance entry = [] \<or> ro_registration entry = [] \<or> ro_site entry = [] \<or> ro_specJson entry = [] then None
      else case find_index (\<lambda>candidate. stableOrdinal candidate = ro_stableOrdinal entry) ds of
        None \<Rightarrow> None
      | Some index \<Rightarrow>
          if ordered ! index \<noteq> None then None
          else if entry_bad entry (ds ! index) then None
          else if ro_kind entry = ''report'' then
            if ro_reportName entry = [] then None
            else match_entries ds metadata (ordered[index := Some entry])
                   (reports @ [\<lparr>rg_stableOrdinal = ro_stableOrdinal entry, rg_objectPath = ro_instance entry, rg_name = ro_reportName entry\<rparr>])
          else if ro_reportName entry \<noteq> [] then None
          else match_entries ds metadata (ordered[index := Some entry]) reports)"

definition lane_ok :: "ObservationDescriptor list \<Rightarrow> RunnerObservation list \<Rightarrow> nat \<Rightarrow> nat \<Rightarrow> bool" where
  "lane_ok ds ordered start index \<longleftrightarrow>
     (let first = ordered ! start; entry = ordered ! (start + index); d = ds ! (start + index); g = ds ! start
      in sameObservationGroup first entry index \<and> ownerKey d = ownerKey g \<and> registrationKey d = registrationKey g \<and> siteKey d = siteKey g \<and>
         od_kind d = od_kind g \<and> \<not> (ro_groupSize first > 1 \<and> \<not> ro_hasValue entry))"

function match_groups :: "ObservationDescriptor list \<Rightarrow> RunnerObservation list \<Rightarrow> nat \<Rightarrow> bool" where
  "match_groups ds ordered start =
     (if start \<ge> length ordered then True
      else let first = ordered ! start
      in if ro_groupIndex first \<noteq> 0 \<or> ro_groupSize first = 0 \<or> ro_groupSize first > length ordered - start \<or>
            (ro_kind first = ''report'' \<and> ro_groupSize first \<noteq> 1) then False
         else if \<not> list_all (lane_ok ds ordered start) [0..<ro_groupSize first] then False
         else match_groups ds ordered (start + ro_groupSize first))"
  by pat_completeness auto
termination
  by (relation "measure (\<lambda>(ds, ordered, start). length ordered - start)") auto

declare match_groups.simps [simp del]

definition metadataMatches :: "RunnerObservation list \<Rightarrow> ObservationDescriptor list \<Rightarrow> ReportGaugeDescriptor list option" where
  "metadataMatches metadata ds =
     (if length metadata \<noteq> length ds then None
      else case match_entries ds metadata (replicate (length metadata) None) [] of
        None \<Rightarrow> None
      | Some (ordered, reports) \<Rightarrow>
          if match_groups ds (map the ordered) 0 \<and> list_all (\<lambda>x. x \<noteq> None) ordered then Some reports else None)"

subsection \<open>Options\<close>

datatype event_sink = SinkStdout | SinkFile string

record SystemRunner =
  sn_configJson :: string
  sn_eventFile :: "event_sink option"
  sn_ownsEventFile :: bool
  sn_ready :: bool
  sn_hasDomainLimit :: bool
  sn_workers :: u64

definition new_runner :: SystemRunner where
  "new_runner = \<lparr>sn_configJson = [], sn_eventFile = None, sn_ownsEventFile = False, sn_ready = False, sn_hasDomainLimit = False, sn_workers = 1\<rparr>"

definition runner_fail :: "string \<Rightarrow> SystemRunner \<Rightarrow> string option \<times> SystemRunner" where
  "runner_fail message runner = (Some message, runner\<lparr>sn_ready := False\<rparr>)"

record cli =
  cli_configPath :: "string option"
  cli_eventPath :: "string option"
  cli_hasWorkers :: bool
  cli_workers :: u64

definition is_option :: "string \<Rightarrow> bool" where
  "is_option s \<longleftrightarrow> s = ''--config'' \<or> s = ''--events'' \<or> s = ''--workers''"

definition is_repeated :: "string \<Rightarrow> cli \<Rightarrow> bool" where
  "is_repeated opt c \<longleftrightarrow> (opt = ''--config'' \<and> cli_configPath c \<noteq> None) \<or> (opt = ''--events'' \<and> cli_eventPath c \<noteq> None) \<or>
     (opt = ''--workers'' \<and> cli_hasWorkers c)"

definition expected_value :: "string \<Rightarrow> string" where
  "expected_value opt = (if opt = ''--config'' then ''expected --config PATH'' else if opt = ''--workers'' then ''expected --workers N''
     else ''expected --events PATH or --events -'')"

text \<open>\<open>std::from_chars\<close> stores the leading digits even when the rest of the text is refused afterwards.\<close>

definition parse_workers :: "string \<Rightarrow> u64 \<Rightarrow> u64" where
  "parse_workers v workers = (let ds = takeWhile is_digit v in if ds = [] then workers else case from_chars ds of None \<Rightarrow> workers | Some n \<Rightarrow> n)"

definition workers_ok :: "string \<Rightarrow> bool" where
  "workers_ok v \<longleftrightarrow> v \<noteq> [] \<and> list_all is_digit v \<and> (case from_chars v of None \<Rightarrow> False | Some n \<Rightarrow> n \<noteq> 0)"

fun parse_args :: "string option list \<Rightarrow> cli \<Rightarrow> string option \<times> cli" where
  "parse_args [] c = (None, c)"
| "parse_args (None # args) c = (Some ''invalid command-line argument'', c)"
| "parse_args (Some opt # args) c =
     (if \<not> is_option opt then (Some ''unknown option or positional argument'', c)
      else if is_repeated opt c then (Some ''repeated command-line option'', c)
      else case args of
        [] \<Rightarrow> (Some (expected_value opt), c)
      | None # _ \<Rightarrow> (Some (expected_value opt), c)
      | Some v # rest \<Rightarrow>
          if v = [] \<or> is_option v then (Some (expected_value opt), c)
          else if opt = ''--config'' then parse_args rest (c\<lparr>cli_configPath := Some v\<rparr>)
          else if opt = ''--events'' then parse_args rest (c\<lparr>cli_eventPath := Some v\<rparr>)
          else let c = c\<lparr>cli_workers := parse_workers v (cli_workers c)\<rparr>
               in if \<not> workers_ok v then (Some ''workers must be a positive decimal integer'', c) else parse_args rest (c\<lparr>cli_hasWorkers := True\<rparr>))"

datatype file_read = CannotOpen | CannotRead | Contents string

text \<open>The checks of the limits, in the order of the code; \<open>None\<close> when all pass.\<close>

definition limits_error :: "RuntimeLimits \<Rightarrow> string option" where
  "limits_error limits =
     (let domainLimit = map_of (maxDomainCycles limits) ''default''
      in if deadlockWindow limits \<noteq> None then Some ''deadlock_window is unavailable in the foundation runtime''
         else if (maxTicks limits = None \<or> maxTicks limits = Some 0) \<and> (domainLimit = None \<or> domainLimit = Some 0)
         then Some ''config requires a finite positive max_ticks or default domain limit''
         else if domainLimit = Some 0 then Some ''default domain limit must be positive''
         else if list_ex (\<lambda>(name, value). name \<noteq> ''default'' \<or> value = 0) (maxDomainCycles limits)
         then Some ''runtime limits are outside the foundation profile''
         else if maxTicks limits = Some 0 then Some ''max_ticks must be positive''
         else None)"

definition openEventSink :: "(string \<Rightarrow> bool) \<Rightarrow> string \<Rightarrow> SystemRunner \<Rightarrow> string option \<times> SystemRunner" where
  "openEventSink create_file path runner =
     (if \<not> create_file path then runner_fail ''events path must be a new regular file'' runner
      else (None, runner\<lparr>sn_eventFile := Some (SinkFile path), sn_ownsEventFile := True\<rparr>))"

definition load_config :: "(string \<Rightarrow> file_read) \<Rightarrow> string \<Rightarrow> cli \<Rightarrow> string + string" where
  "load_config read_file embeddedConfig c = (case cli_configPath c of
     None \<Rightarrow> if embeddedConfig = [] then Inl ''expected exactly one --config PATH'' else Inr embeddedConfig
   | Some path \<Rightarrow> (case read_file path of CannotOpen \<Rightarrow> Inl ''cannot open config file'' | CannotRead \<Rightarrow> Inl ''cannot read config file'' | Contents s \<Rightarrow> Inr s))"

definition check_config :: "SystemRunner \<Rightarrow> string option \<times> SystemRunner" where
  "check_config runner = (case parseModelConfigJson (strip_newline (sn_configJson runner)) of
     Inl error \<Rightarrow> runner_fail (if error = [] then ''invalid model config'' else error) runner
   | Inr limits \<Rightarrow>
       let runner = (if deadlockWindow limits = None then runner\<lparr>sn_hasDomainLimit := maxDomainCycles limits \<noteq> []\<rparr> else runner)
       in case limits_error limits of Some message \<Rightarrow> runner_fail message runner | None \<Rightarrow> (None, runner))"

definition SystemRunner_new ::
    "(string \<Rightarrow> file_read) \<Rightarrow> (string \<Rightarrow> bool) \<Rightarrow> string option list option \<Rightarrow> string \<Rightarrow> string option \<times> SystemRunner" where
  "SystemRunner_new read_file create_file argv embeddedConfig = (case argv of
     None \<Rightarrow> runner_fail ''usage: pycircuit_system --config PATH [--events PATH| -] [--workers N]'' new_runner
   | Some [] \<Rightarrow> runner_fail ''usage: pycircuit_system --config PATH [--events PATH| -] [--workers N]'' new_runner
   | Some (program # args) \<Rightarrow>
       (case parse_args args \<lparr>cli_configPath = None, cli_eventPath = None, cli_hasWorkers = False, cli_workers = 1\<rparr> of
          (Some message, c) \<Rightarrow> runner_fail message (new_runner\<lparr>sn_workers := cli_workers c\<rparr>)
        | (None, c) \<Rightarrow>
            let runner = new_runner\<lparr>sn_workers := cli_workers c\<rparr>
            in case load_config read_file embeddedConfig c of
                 Inl message \<Rightarrow> runner_fail message runner
               | Inr config \<Rightarrow>
                   (case check_config (runner\<lparr>sn_configJson := config\<rparr>) of
                      (Some message, runner) \<Rightarrow> (Some message, runner)
                    | (None, runner) \<Rightarrow>
                        (case (case cli_eventPath c of
                                 None \<Rightarrow> (None, runner)
                               | Some path \<Rightarrow> if path = ''-'' then (None, runner\<lparr>sn_eventFile := Some SinkStdout\<rparr>) else openEventSink create_file path runner) of
                           (Some message, runner) \<Rightarrow> (Some message, runner)
                         | (None, runner) \<Rightarrow> (None, runner\<lparr>sn_ready := True\<rparr>)))))"

subsection \<open>The records of a step\<close>

definition find_metadata :: "RunnerObservation list \<Rightarrow> nat \<Rightarrow> RunnerObservation option" where
  "find_metadata metadata ordinal = find (\<lambda>entry. ro_stableOrdinal entry = ordinal) metadata"

definition descriptor_order :: "ObservationDescriptor list \<Rightarrow> nat \<Rightarrow> nat" where
  "descriptor_order ds ordinal = (case find_index (\<lambda>d. stableOrdinal d = ordinal) ds of None \<Rightarrow> length ds | Some i \<Rightarrow> i)"

fun event_items :: "RunnerObservation list \<Rightarrow> ObservationDescriptor list \<Rightarrow> CommittedEventSlot list \<Rightarrow> string + OutputItem list" where
  "event_items metadata ds [] = Inr []"
| "event_items metadata ds (event # es) =
     (let ordinal = stableOrdinal (ce_descriptor event) in
      case find_metadata metadata ordinal of
        None \<Rightarrow> Inl ''event slot has no matching event metadata''
      | Some entry \<Rightarrow>
          if ro_kind entry = ''report'' then Inl ''event slot has no matching event metadata''
          else if descriptor_order ds ordinal = length ds then Inl ''event slot has no matching observation descriptor''
          else case event_items metadata ds es of
            Inl message \<Rightarrow> Inl message
          | Inr items \<Rightarrow> Inr (\<lparr>oi_descriptorOrder = descriptor_order ds ordinal, oi_metadata = entry, oi_source = OutEvent event\<rparr> # items))"

fun gauge_items :: "RunnerObservation list \<Rightarrow> ObservationDescriptor list \<Rightarrow> u64 \<Rightarrow> GaugeSnapshot list \<Rightarrow> string + OutputItem list" where
  "gauge_items metadata ds committedEpoch [] = Inr []"
| "gauge_items metadata ds committedEpoch (gauge # gs) =
     (if gs_lastUpdate gauge \<noteq> committedEpoch then gauge_items metadata ds committedEpoch gs
      else let ordinal = gs_stableOrdinal gauge in
      case find_metadata metadata ordinal of
        None \<Rightarrow> Inl ''active gauge has no matching report metadata''
      | Some entry \<Rightarrow>
          if ro_kind entry \<noteq> ''report'' then Inl ''active gauge has no matching report metadata''
          else if descriptor_order ds ordinal = length ds then Inl ''active gauge has no matching observation descriptor''
          else case gauge_items metadata ds committedEpoch gs of
            Inl message \<Rightarrow> Inl message
          | Inr items \<Rightarrow> Inr (\<lparr>oi_descriptorOrder = descriptor_order ds ordinal, oi_metadata = entry, oi_source = OutGauge gauge\<rparr> # items))"

definition group_ok :: "u64 \<Rightarrow> OutputItem list \<Rightarrow> nat \<Rightarrow> bool" where
  "group_ok committedEpoch items index \<longleftrightarrow>
     (let first = hd items; entry = items ! index
      in sameObservationGroup (oi_metadata first) (oi_metadata entry) index \<and> oi_descriptorOrder entry = oi_descriptorOrder first + index \<and>
         observationEpoch entry = committedEpoch)"

text \<open>What ends the construction of the records early: an exit code with a message, or an exception.\<close>

datatype run_stop = RunReturn nat string | RunThrow thrown

function group_records :: "ObservationSlots \<Rightarrow> u64 \<Rightarrow> OutputItem list \<Rightarrow> run_stop + string list" where
  "group_records obs committedEpoch items =
     (if items = [] then Inr []
      else let first = hd items; count = ro_groupSize (oi_metadata first)
      in if ro_groupIndex (oi_metadata first) \<noteq> 0 \<or> count = 0 \<or> count > length items then Inl (RunReturn 2 ''observation group is incomplete'')
         else if \<not> list_all (group_ok committedEpoch items) [0..<count] then Inl (RunReturn 2 ''observation group is incomplete or inconsistent'')
         else case eventRecord obs (take count items) of
           Inl e \<Rightarrow> Inl (RunThrow e)
         | Inr record \<Rightarrow> (case group_records obs committedEpoch (drop count items) of Inl stop \<Rightarrow> Inl stop | Inr records \<Rightarrow> Inr (record # records)))"
  by pat_completeness auto
termination
  by (relation "measure (\<lambda>(obs, epoch, items). length items)") auto

declare group_records.simps [simp del]

definition step_records :: "RunnerObservation list \<Rightarrow> u64 \<Rightarrow> ObservationSlots \<Rightarrow> run_stop + string list" where
  "step_records metadata committedEpoch obs = (case event_items metadata (descriptors obs) (events obs) of
     Inl message \<Rightarrow> Inl (RunReturn 2 message)
   | Inr evs \<Rightarrow> (case gauge_items metadata (descriptors obs) committedEpoch (gauges obs) of
       Inl message \<Rightarrow> Inl (RunReturn 2 message)
     | Inr gs \<Rightarrow> group_records obs committedEpoch (sort_key oi_descriptorOrder (evs @ gs))))"

text \<open>\<open>writeRecord\<close>: a runner without a sink accepts and drops every record.\<close>

definition writeRecord :: "(string list \<Rightarrow> string \<Rightarrow> bool) \<Rightarrow> SystemRunner \<Rightarrow> string \<Rightarrow> string list \<Rightarrow> string list \<times> bool" where
  "writeRecord write_ok runner record written =
     (if sn_eventFile runner = None then (written, True)
      else if write_ok written record then (written @ [record], True) else (written, False))"

fun write_records :: "(string list \<Rightarrow> string \<Rightarrow> bool) \<Rightarrow> SystemRunner \<Rightarrow> string list \<Rightarrow> string list \<Rightarrow> string list \<times> bool" where
  "write_records write_ok runner [] written = (written, True)"
| "write_records write_ok runner (record # records) written =
     (case writeRecord write_ok runner record written of (written, ok) \<Rightarrow>
        if ok then write_records write_ok runner records written else (written, False))"

subsection \<open>The run loop\<close>

type_synonym ('h, 's) host_call = "'h \<times> 's world \<Rightarrow> ('h \<times> 's world) \<times> thrown option"

record ('h, 's) RunnerCallbacks =
  cb_initialize :: "('h, 's) host_call option"
  cb_drive :: "(u64 \<Rightarrow> 'h \<times> 's world \<Rightarrow> ('h \<times> 's world) \<times> thrown option \<times> bool) option"
  cb_sample :: "(u64 \<Rightarrow> ('h, 's) host_call) option"
  cb_resetSemantics :: string
  cb_expectedEpochs :: u64

record ('h, 's) run_state =
  rs_host :: 'h
  rs_machine :: "'s machine"
  rs_written :: "string list"

record run_end =
  re_status :: string
  re_code :: nat
  re_incomplete :: bool

definition run_end_ok :: "string \<Rightarrow> run_end" where
  "run_end_ok status = \<lparr>re_status = status, re_code = 0, re_incomplete = False\<rparr>"

definition run_end_failed :: "bool \<Rightarrow> run_end" where
  "run_end_failed incomplete = \<lparr>re_status = ''FAILED'', re_code = 1, re_incomplete = incomplete\<rparr>"

definition set_host :: "'h \<times> 's world \<Rightarrow> ('h, 's) run_state \<Rightarrow> ('h, 's) run_state" where
  "set_host hw s = s\<lparr>rs_host := fst hw, rs_machine := (rs_machine s)\<lparr>m_world := snd hw\<rparr>\<rparr>"

definition host_world :: "('h, 's) run_state \<Rightarrow> 'h \<times> 's world" where
  "host_world s = (rs_host s, m_world (rs_machine s))"

definition cycles :: "('h, 's) run_state \<Rightarrow> u64" where
  "cycles s = ex_committedCycles (m_exec (rs_machine s))"

text \<open>The records of a committed step, after the host has sampled it.\<close>

definition publish :: "(string list \<Rightarrow> string \<Rightarrow> bool) \<Rightarrow> SystemRunner \<Rightarrow> RunnerObservation list \<Rightarrow> ('h, 's) RunnerCallbacks \<Rightarrow>
    ('h, 's) run_state \<Rightarrow> run_stop option \<times> ('h, 's) run_state" where
  "publish write_ok runner metadata callbacks s =
     (let committedEpoch = cycles s;
          (s, thrown) = (case cb_sample callbacks of None \<Rightarrow> (s, None)
             | Some sample \<Rightarrow> (case sample committedEpoch (host_world s) of (hw, e) \<Rightarrow> (set_host hw s, e)))
      in case thrown of
           Some e \<Rightarrow> (Some (RunThrow e), s)
         | None \<Rightarrow> (case step_records metadata committedEpoch (w_obs (m_world (rs_machine s))) of
             Inl stop \<Rightarrow> (Some stop, s)
           | Inr records \<Rightarrow> (case write_records write_ok runner records (rs_written s) of (written, ok) \<Rightarrow>
               (if ok then None else Some (RunReturn 1 ''events sink write failed''), s\<lparr>rs_written := written\<rparr>))))"

datatype loop_exit = LoopEnd run_end | LoopStop run_stop

text \<open>One iteration: the loop ends, with the state it ends in, or goes on.\<close>

definition after_step :: "(string list \<Rightarrow> string \<Rightarrow> bool) \<Rightarrow> SystemRunner \<Rightarrow> RunnerObservation list \<Rightarrow> ('h, 's) RunnerCallbacks \<Rightarrow>
    model_status \<Rightarrow> StepResult \<Rightarrow> ('h, 's) run_state \<Rightarrow> loop_exit option \<times> ('h, 's) run_state" where
  "after_step write_ok runner metadata callbacks status step s =
     (if status \<noteq> STATUS_OK \<or> sr_state step = STEP_FAILED then (Some (LoopEnd (run_end_failed False)), s)
      else case (if sr_state step \<noteq> STEP_QUIESCENT then publish write_ok runner metadata callbacks s else (None, s)) of
        (Some stop, s) \<Rightarrow> (Some (LoopStop stop), s)
      | (None, s) \<Rightarrow>
          (case sr_state step of
             STEP_TERMINATED \<Rightarrow> (Some (LoopEnd (run_end_ok ''TERMINATED'')), s)
           | STEP_QUIESCENT \<Rightarrow> (Some (LoopEnd (run_end_ok ''QUIESCENT'')), s)
           | STEP_RUNNING \<Rightarrow> (None, s)
           | STEP_FAILED \<Rightarrow> (Some (LoopEnd (run_end_failed False)), s)))"

definition drive_call :: "('h, 's) RunnerCallbacks \<Rightarrow> ('h, 's) run_state \<Rightarrow> ('h, 's) run_state \<times> thrown option \<times> bool" where
  "drive_call callbacks s = (case cb_drive callbacks of
     None \<Rightarrow> (s, None, True)
   | Some drive \<Rightarrow> (case drive (cycles s) (host_world s) of (hw, e, again) \<Rightarrow> (set_host hw s, e, again)))"

definition run_body :: "'s sim_ops \<Rightarrow> 's sim_virtuals \<Rightarrow> (string list \<Rightarrow> string \<Rightarrow> bool) \<Rightarrow> SystemRunner \<Rightarrow> RunnerObservation list \<Rightarrow>
    ('h, 's) RunnerCallbacks \<Rightarrow> ('h, 's) run_state \<Rightarrow> (loop_exit option \<times> ('h, 's) run_state) option" where
  "run_body ops vt write_ok runner metadata callbacks s = (case drive_call callbacks s of
     (s, Some e, again) \<Rightarrow> Some (Some (LoopStop (RunThrow e)), s)
   | (s, None, again) \<Rightarrow>
       if \<not> again then Some (Some (LoopEnd (run_end_ok ''TERMINATED'')), s)
       else if cb_expectedEpochs callbacks \<noteq> 0 \<and> cycles s \<ge> cb_expectedEpochs callbacks then Some (Some (LoopEnd (run_end_failed True)), s)
       else case exec_Step ops vt (Some (step_result STEP_RUNNING 0)) (rs_machine s) of
         None \<Rightarrow> None
       | Some (status, r, m) \<Rightarrow> Some (after_step write_ok runner metadata callbacks status (the r) (s\<lparr>rs_machine := m\<rparr>)))"

partial_function (option) run_loop :: "'s sim_ops \<Rightarrow> 's sim_virtuals \<Rightarrow> (string list \<Rightarrow> string \<Rightarrow> bool) \<Rightarrow> SystemRunner \<Rightarrow> RunnerObservation list \<Rightarrow>
    ('h, 's) RunnerCallbacks \<Rightarrow> ('h, 's) run_state \<Rightarrow> (loop_exit \<times> ('h, 's) run_state) option" where
  "run_loop ops vt write_ok runner metadata callbacks s =
     (case run_body ops vt write_ok runner metadata callbacks s of
        None \<Rightarrow> None
      | Some (Some e, s) \<Rightarrow> Some (e, s)
      | Some (None, s) \<Rightarrow> run_loop ops vt write_ok runner metadata callbacks s)"

declare run_loop.simps [simp del]

subsection \<open>Run\<close>

record ('h, 's) run_result =
  rr_code :: nat
  rr_message :: "string option"
  rr_written :: "string list"
  rr_host :: 'h
  rr_sys :: SimSystem
  rr_world :: "'s world"

definition stop_result :: "nat \<Rightarrow> string option \<Rightarrow> ('h, 's) run_state \<Rightarrow> ('h, 's) run_result" where
  "stop_result code message s = \<lparr>rr_code = code, rr_message = message, rr_written = rs_written s, rr_host = rs_host s,
     rr_sys = m_sys (rs_machine s), rr_world = m_world (rs_machine s)\<rparr>"

definition what :: "thrown \<Rightarrow> string" where
  "what e = (case e of StdException message \<Rightarrow> message | OtherException \<Rightarrow> ''runtime runner failure'')"

fun run_stop_result :: "run_stop \<Rightarrow> ('h, 's) run_state \<Rightarrow> ('h, 's) run_result" where
  "run_stop_result (RunReturn code message) s = stop_result code (Some message) s"
| "run_stop_result (RunThrow e) s = stop_result 1 (Some (what e)) s"

definition incomplete_json :: "u64 \<Rightarrow> u64 \<Rightarrow> string" where
  \<open>incomplete_json expected committed =
     ''{"code":"incomplete_schedule","message":"finite System sample schedule incomplete: expected '' @ print_u64 expected @
     '' sampling epochs, committed '' @ print_u64 committed @ ''","phase":"runner","instance":null,"source":null,"check_id":null}''\<close>

text \<open>What follows the loop: the final status, the statistics, the last error and the result record.\<close>

definition finish_run :: "(string list \<Rightarrow> string \<Rightarrow> bool) \<Rightarrow> SystemRunner \<Rightarrow> ('h, 's) RunnerCallbacks \<Rightarrow> run_end \<Rightarrow> ('h, 's) run_state \<Rightarrow> ('h, 's) run_result" where
  "finish_run write_ok runner callbacks e s =
     (let e = (if re_code e = 0 \<and> cb_expectedEpochs callbacks \<noteq> 0 \<and> cycles s \<noteq> cb_expectedEpochs callbacks then run_end_failed True else e)
      in case StatisticsJson True (m_exec (rs_machine s)) of (status, statistics, ex) \<Rightarrow>
        let s = s\<lparr>rs_machine := (rs_machine s)\<lparr>m_exec := ex\<rparr>\<rparr>
        in if status \<noteq> STATUS_OK \<or> statistics = None \<or> statistics = Some [] then stop_result 1 (Some ''cannot obtain final statistics'') s
           else case LastError True ex of (status, lastError, ex) \<Rightarrow>
             if status \<noteq> STATUS_OK then stop_result 1 (Some ''cannot obtain final error status'') s
             else let errorJson = (if re_incomplete e then incomplete_json (cb_expectedEpochs callbacks) (cycles s) else the lastError);
                      record = resultRecord (re_status e) (cycles s) (strip_newline (the statistics)) errorJson (cb_resetSemantics callbacks)
                  in case writeRecord write_ok runner record (rs_written s) of (written, ok) \<Rightarrow>
                    if \<not> ok then stop_result 1 (Some ''events sink write failed'') (s\<lparr>rs_written := written\<rparr>)
                    else stop_result (re_code e) None (s\<lparr>rs_written := written\<rparr>))"

definition callbacks_error :: "SystemRunner \<Rightarrow> ('h, 's) RunnerCallbacks \<Rightarrow> string option" where
  "callbacks_error runner callbacks =
     (if (cb_resetSemantics callbacks \<noteq> ''strict'' \<and> cb_resetSemantics callbacks \<noteq> ''if_one'') \<or>
         (cb_expectedEpochs callbacks \<noteq> 0 \<and> cb_drive callbacks = None)
      then Some ''runner requires validated root policy and a finite-schedule driver''
      else if cb_drive callbacks \<noteq> None \<and> sn_hasDomainLimit runner
      then Some ''driven runner requires max_ticks in sampling epochs; max_domain_cycles needs a clock-domain driver''
      else None)"

text \<open>The executor is created, configured, initialised by the host and reset.\<close>

definition start_run :: "'s sim_ops \<Rightarrow> 's sim_virtuals \<Rightarrow> SystemRunner \<Rightarrow> ('h, 's) RunnerCallbacks \<Rightarrow> nat \<Rightarrow> ReportGaugeDescriptor list \<Rightarrow>
    'h \<Rightarrow> SimSystem \<Rightarrow> 's world \<Rightarrow> run_stop option \<times> ('h, 's) run_state" where
  "start_run ops vt runner callbacks observations reports host sys w =
     (let m = SimExecutor_new ops vt observations reports sys w; s = \<lparr>rs_host = host, rs_machine = m, rs_written = []\<rparr>
      in if \<not> ex_created (m_exec m) then (Some (RunReturn 2 ''model Build failed''), s)
         else case ConfigureJson (Some (sn_configJson runner)) (m_exec m) of (status, ex) \<Rightarrow>
           let s = s\<lparr>rs_machine := m\<lparr>m_exec := ex\<rparr>\<rparr>
           in if status \<noteq> STATUS_OK then (Some (RunReturn 2 ''model configuration or reset failed''), s)
              else case (case cb_initialize callbacks of None \<Rightarrow> (s, None)
                      | Some init \<Rightarrow> (case init (host_world s) of (hw, e) \<Rightarrow> (set_host hw s, e))) of
                (s, Some e) \<Rightarrow> (Some (RunThrow e), s)
              | (s, None) \<Rightarrow>
                  (case exec_Reset ops (rs_machine s) of (status, m) \<Rightarrow>
                     (if status \<noteq> STATUS_OK then Some (RunReturn 2 ''model configuration or reset failed'') else None, s\<lparr>rs_machine := m\<rparr>)))"

definition SystemRunner_Run :: "'s sim_ops \<Rightarrow> 's sim_virtuals \<Rightarrow> (string list \<Rightarrow> string \<Rightarrow> bool) \<Rightarrow> SystemRunner \<Rightarrow> nat \<Rightarrow> RunnerObservation list \<Rightarrow>
    ('h, 's) RunnerCallbacks \<Rightarrow> 'h \<Rightarrow> SimSystem \<Rightarrow> 's world \<Rightarrow> ('h, 's) run_result option" where
  "SystemRunner_Run ops vt write_ok runner observations metadata callbacks host sys w =
     (let early = (\<lambda>message. Some \<lparr>rr_code = 2, rr_message = message, rr_written = [], rr_host = host, rr_sys = sys, rr_world = w\<rparr>)
      in if \<not> sn_ready runner then early None
         else case callbacks_error runner callbacks of
           Some message \<Rightarrow> early (Some message)
         | None \<Rightarrow> (case metadataMatches metadata (descriptors (w_obs w)) of
             None \<Rightarrow> early (Some ''observation metadata does not match configured slots'')
           | Some reports \<Rightarrow> (case start_run ops vt runner callbacks observations reports host sys w of
               (Some stop, s) \<Rightarrow> Some (run_stop_result stop s)
             | (None, s) \<Rightarrow> (case run_loop ops vt write_ok runner metadata callbacks s of
                 None \<Rightarrow> None
               | Some (LoopStop stop, s) \<Rightarrow> Some (run_stop_result stop s)
               | Some (LoopEnd e, s) \<Rightarrow> Some (finish_run write_ok runner callbacks e s)))))"

subsection \<open>A ready runner\<close>

lemma parse_empty: "parseModelConfigJson [] = Inl ''model config is malformed or has unknown fields''"
  by (simp add: parseModelConfigJson_def parse_head_def take_token_head)

lemma limits_error_window: "limits_error limits = None \<Longrightarrow> deadlockWindow limits = None"
  by (simp add: limits_error_def Let_def split: if_splits)

lemma check_config_ready:
  assumes c: "check_config runner = (None, runner')"
  shows "sn_configJson runner' = sn_configJson runner \<and>
     (\<exists>limits. parseModelConfigJson (strip_newline (sn_configJson runner)) = Inr limits \<and> limits_error limits = None \<and>
        sn_hasDomainLimit runner' = (maxDomainCycles limits \<noteq> []))"
proof (cases "parseModelConfigJson (strip_newline (sn_configJson runner))")
  case (Inl error)
  then show ?thesis using c by (simp add: check_config_def runner_fail_def)
next
  case (Inr limits)
  then have "limits_error limits = None" using c by (cases "limits_error limits") (simp_all add: check_config_def runner_fail_def Let_def)
  then show ?thesis using c Inr limits_error_window[of limits] by (auto simp: check_config_def)
qed

lemma ready_limits:
  assumes n: "SystemRunner_new read_file create_file argv embedded = (message, runner)" and r: "sn_ready runner"
  shows "message = None \<and> (\<exists>limits. parseModelConfigJson (strip_newline (sn_configJson runner)) = Inr limits \<and> limits_error limits = None \<and>
    sn_hasDomainLimit runner = (maxDomainCycles limits \<noteq> []))"
proof -
  have fail: "\<not> sn_ready (snd (runner_fail m x))" for m x by (simp add: runner_fail_def)
  obtain program args where a: "argv = Some (program # args)" using n r by (auto simp: SystemRunner_new_def runner_fail_def split: option.splits list.splits)
  obtain p c where p: "parse_args args \<lparr>cli_configPath = None, cli_eventPath = None, cli_hasWorkers = False, cli_workers = 1\<rparr> = (p, c)"
    by (cases "parse_args args \<lparr>cli_configPath = None, cli_eventPath = None, cli_hasWorkers = False, cli_workers = 1\<rparr>")
  have "p = None" using n r p a by (auto simp: SystemRunner_new_def runner_fail_def split: option.splits)
  moreover obtain config where l: "load_config read_file embedded c = Inr config" using n r p a \<open>p = None\<close>
    by (cases "load_config read_file embedded c") (auto simp: SystemRunner_new_def runner_fail_def Let_def)
  moreover obtain q runner1 where q: "check_config (new_runner\<lparr>sn_workers := cli_workers c, sn_configJson := config\<rparr>) = (q, runner1)"
    by (cases "check_config (new_runner\<lparr>sn_workers := cli_workers c, sn_configJson := config\<rparr>)")
  have unready: "\<not> sn_ready runner1" using q by (auto simp: check_config_def runner_fail_def new_runner_def Let_def split: sum.splits option.splits if_splits)
  ultimately have qn: "q = None" using n r p a q by (cases q) (auto simp: SystemRunner_new_def Let_def)
  have "message = None \<and> sn_configJson runner = sn_configJson runner1 \<and> sn_hasDomainLimit runner = sn_hasDomainLimit runner1"
    using n r p a \<open>p = None\<close> l q qn unready
    by (auto simp: SystemRunner_new_def Let_def openEventSink_def runner_fail_def split: option.splits if_splits)
  then show ?thesis using check_config_ready[OF q[unfolded qn]] by simp
qed

lemma sorted_default:
  "sorted_wrt (<) (map fst m) \<Longrightarrow> \<not> list_ex (\<lambda>(name, v). name \<noteq> d \<or> v = 0) m \<Longrightarrow> m = [] \<or> (\<exists>v. m = [(d, v)] \<and> v \<noteq> 0)" for m :: "(string \<times> u64) list"
  by (cases m rule: remdups_adj.cases) auto

lemma limits_errorD:
  assumes "limits_error limits = None"
  shows "deadlockWindow limits = None" "\<not> list_ex (\<lambda>(name, v). name \<noteq> ''default'' \<or> v = 0) (maxDomainCycles limits)" "maxTicks limits \<noteq> Some 0"
    "\<not> ((maxTicks limits = None \<or> maxTicks limits = Some 0) \<and> (map_of (maxDomainCycles limits) ''default'' = None \<or> map_of (maxDomainCycles limits) ''default'' = Some 0))"
  using assms by (simp_all add: limits_error_def Let_def split: if_splits)

lemma limits_profile:
  assumes p: "parseModelConfigJson s = Inr limits" and l: "limits_error limits = None"
  shows "deadlockWindow limits = None \<and> \<not> outside_profile limits \<and> (maxTicks limits \<noteq> None \<or> maxDomainCycles limits \<noteq> [])"
proof -
  have "s \<noteq> ''{}''"
  proof
    assume "s = ''{}''"
    then have "limits = no_limits" using p by (simp add: parseModelConfigJson_def byte_def)
    then show False using limits_errorD(4)[OF l] by (simp add: no_limits_def)
  qed
  then have wf: "sorted_wrt (<) (map fst (maxDomainCycles limits))" using parse_accepts[OF p] by (simp add: config_wf_def)
  note E = limits_errorD[OF l]
  have e: "\<not> list_ex (\<lambda>(name, v). name \<noteq> ''default'' \<or> v = 0) (maxDomainCycles limits)" "deadlockWindow limits = None" "maxTicks limits \<noteq> Some 0"
    using E by blast+
  have f: "maxTicks limits \<noteq> None \<or> maxDomainCycles limits \<noteq> []" using E(4) by auto
  show ?thesis using sorted_default[OF wf e(1)] e f by (auto simp: outside_profile_def)
qed

lemma ready_configures:
  assumes n: "SystemRunner_new read_file create_file argv embedded = (message, runner)" and r: "sn_ready runner" and c: "ex_state ex = ExCreated"
  shows "\<exists>ex' n. ConfigureJson (Some (sn_configJson runner)) ex = (STATUS_OK, ex') \<and> ex_state ex' = ExConfigured \<and>
    stop_cycle (ex_maxTicks ex') (ex_maxDomainCycles ex') = Some n \<and> n \<noteq> 0"
proof -
  obtain limits where l: "parseModelConfigJson (strip_newline (sn_configJson runner)) = Inr limits" "limits_error limits = None"
    using ready_limits[OF n r] by blast
  note P = limits_profile[OF l]
  have "sn_configJson runner \<noteq> []" using l(1) parse_empty by (auto simp: strip_newline_def)
  then have conf: "ConfigureJson (Some (sn_configJson runner)) ex = (STATUS_OK, apply_limits limits ex)" using c l P by (simp add: ConfigureJson_def)
  have "maxTicks limits \<noteq> Some 0" "maxDomainCycles limits \<noteq> [] \<Longrightarrow> snd (hd (maxDomainCycles limits)) \<noteq> 0"
    using P by (auto simp: outside_profile_def split: list.splits)
  then have "\<exists>n. stop_cycle (ex_maxTicks (apply_limits limits ex)) (ex_maxDomainCycles (apply_limits limits ex)) = Some n \<and> n \<noteq> 0"
    using P by (cases "maxTicks limits"; cases "maxDomainCycles limits") (auto simp: apply_limits_def clearError_def min_def split: prod.splits)
  then show ?thesis using conf by (auto simp: apply_limits_def clearError_def)
qed

subsection \<open>The run loop ends\<close>

text \<open>The host's callbacks drive the pins of the modules; the observation slots belong to the modules.\<close>

definition host_keeps_slots :: "('h, 's) RunnerCallbacks \<Rightarrow> bool" where
  "host_keeps_slots callbacks \<longleftrightarrow>
     (\<forall>f hw. cb_initialize callbacks = Some f \<longrightarrow> w_obs (snd (fst (f hw))) = w_obs (snd hw)) \<and>
     (\<forall>f n hw. cb_drive callbacks = Some f \<longrightarrow> w_obs (snd (fst (f n hw))) = w_obs (snd hw)) \<and>
     (\<forall>f n hw. cb_sample callbacks = Some f \<longrightarrow> w_obs (snd (fst (f n hw))) = w_obs (snd hw))"

text \<open>What every iteration keeps: a Ready executor below its limit \<open>n\<close>, over well-formed slots.\<close>

definition loop_ok :: "u64 \<Rightarrow> ('h, 's) run_state \<Rightarrow> bool" where
  "loop_ok n s \<longleftrightarrow> (let m = rs_machine s in exec_ok m \<and> ex_state (m_exec m) = ExReady \<and>
     stop_cycle (ex_maxTicks (m_exec m)) (ex_maxDomainCycles (m_exec m)) = Some n \<and> obs_inv (w_obs (m_world m)))"

lemma exec_ok_world: "exec_ok (m\<lparr>m_world := w\<rparr>) = exec_ok m"
  by (simp add: exec_ok_def Let_def)

lemma set_host_ok:
  assumes "loop_ok n s" "w_obs (snd hw) = w_obs (m_world (rs_machine s))"
  shows "loop_ok n (set_host hw s)" "cycles (set_host hw s) = cycles s"
  using assms by (auto simp: loop_ok_def set_host_def cycles_def Let_def exec_ok_world)

lemma drive_call_ok:
  assumes "loop_ok n s" "host_keeps_slots callbacks" "drive_call callbacks s = (s', e, again)"
  shows "loop_ok n s' \<and> cycles s' = cycles s"
  using assms(3) set_host_ok[OF assms(1)] assms(1,2)
  by (auto simp: drive_call_def host_keeps_slots_def host_world_def split: option.splits prod.splits) (metis fst_conv snd_conv)+

lemma publish_ok:
  assumes "loop_ok n s" "host_keeps_slots callbacks" "publish write_ok runner metadata callbacks s = (stop, s')"
  shows "loop_ok n s' \<and> cycles s' = cycles s"
proof -
  define s1 where "s1 = (case cb_sample callbacks of None \<Rightarrow> s | Some sample \<Rightarrow> set_host (fst (sample (cycles s) (host_world s))) s)"
  have s1: "loop_ok n s1" "cycles s1 = cycles s"
    using set_host_ok[OF assms(1)] assms(1,2) by (auto simp: s1_def host_keeps_slots_def host_world_def split: option.splits)
  have "s' = s1 \<or> (\<exists>x. s' = s1\<lparr>rs_written := x\<rparr>)"
    using assms(3) by (auto simp: publish_def s1_def Let_def split: option.splits prod.splits sum.splits if_splits)
  then show ?thesis using s1 by (auto simp: loop_ok_def cycles_def Let_def)
qed

text \<open>The exit codes: 0 only for a normal end, 1 and 2 otherwise.\<close>

fun exit_ok :: "loop_exit \<Rightarrow> bool" where
  "exit_ok (LoopEnd e) \<longleftrightarrow> (re_code e = 0 \<and> re_status e \<in> {''TERMINATED'', ''QUIESCENT''} \<and> \<not> re_incomplete e) \<or> re_code e = 1"
| "exit_ok (LoopStop (RunReturn code message)) \<longleftrightarrow> code = 1 \<or> code = 2"
| "exit_ok (LoopStop (RunThrow e)) \<longleftrightarrow> True"

lemma group_records_code: "group_records obs epoch items = Inl (RunReturn code message) \<Longrightarrow> code = 2"
proof (induction obs epoch items rule: group_records.induct)
  case (1 obs epoch items)
  show ?case using "1.prems" by (subst (asm) group_records.simps) (auto simp: Let_def split: if_splits sum.splits dest: "1.IH"[OF _ refl refl, rotated 3])
qed

lemma step_records_code: "step_records metadata epoch obs = Inl (RunReturn code message) \<Longrightarrow> code = 2"
  by (auto simp: step_records_def group_records_code split: sum.splits)

lemma publish_code: "publish write_ok runner metadata callbacks s = (Some stop, s') \<Longrightarrow> exit_ok (LoopStop stop)"
  using step_records_code by (cases stop) (auto simp: publish_def Let_def split: option.splits prod.splits sum.splits if_splits)

lemma after_step_code: "after_step write_ok runner metadata callbacks status r s = (Some e, s') \<Longrightarrow> exit_ok e"
  by (auto simp: after_step_def run_end_failed_def run_end_ok_def dest: publish_code split: if_splits option.splits prod.splits model_step_state.splits)

lemma run_body_code: "run_body ops vt write_ok runner metadata callbacks s = Some (Some e, s') \<Longrightarrow> exit_ok e"
  by (auto simp: run_body_def run_end_failed_def run_end_ok_def dest: after_step_code split: if_splits option.splits prod.splits)

context module_contract
begin

lemma step_obs_inv:
  assumes "sys_Step ops vt sys w = Some (sys', w', r)" "sys_state sys = Ready" "obs_inv (w_obs w)"
  shows "obs_inv (w_obs w')"
proof -
  note O = step_outcome[OF assms(1,2)]
  show ?thesis
  proof (cases r)
    case StepRunning
    then obtain w1 w2 where w1: "each_module (op_Work ops) (sys_roots sys) w = (w1, None)" "vt_Precheck vt w1 = (w2, True)" "sys_cycle sys \<noteq> - 1"
      "w_obs w' = (if sys_observations sys = None then w_obs w2 else obs_Xfer (sys_cycle sys + 1) (w_obs w2))"
      "sys_observations sys \<noteq> None \<longrightarrow> obs_Precommit (sys_cycle sys) (w_obs w2) = Some True" using O by auto
    have "obs_inv (w_obs w2)" using each_work[OF w1(1)] precheck_committed[of w1] w1(2) assms(3) by simp
    then show ?thesis using w1(3-5) xfer_commit(1)[of "w_obs w2" "sys_cycle sys"] by auto
  qed (use O assms(3) in \<open>auto simp: rolled_back_def\<close>)
qed

lemma exec_step_returns:
  assumes ok: "exec_ok m" and ready: "ex_state (m_exec m) = ExReady" and obs: "obs_inv (w_obs (m_world m))"
  shows "\<exists>status r m'. exec_Step ops vt (Some (step_result STEP_RUNNING 0)) m = Some (status, Some r, m') \<and>
    (status = STATUS_OK \<and> sr_state r = STEP_RUNNING \<longrightarrow> exec_ok m' \<and> ex_state (m_exec m') = ExReady \<and> obs_inv (w_obs (m_world m')) \<and>
       ex_maxTicks (m_exec m') = ex_maxTicks (m_exec m) \<and> ex_maxDomainCycles (m_exec m') = ex_maxDomainCycles (m_exec m) \<and>
       ex_committedCycles (m_exec m) \<noteq> - 1 \<and> ex_committedCycles (m_exec m') = ex_committedCycles (m_exec m) + 1)"
proof (cases "sys_cycle (m_sys m) = - 1")
  case True
  then show ?thesis using ready by (simp add: exec_Step_def step_result_def)
next
  case False
  have sr: "sys_state (m_sys m) = Ready" "ex_committedCycles (m_exec m) = sys_cycle (m_sys m)" using ok ready by (simp_all add: exec_ok_def Let_def)
  obtain sys w k where s: "sys_Step ops vt (m_sys m) (m_world m) = Some (sys, w, k)" using step_returns[OF obs, of "m_sys m"] by (metis prod_cases3)
  note shape = sys_Step_shape[OF s sr(1)] and inv = step_obs_inv[OF s sr(1) obs]
  have size: "sr_struct_size (step_result STEP_RUNNING 0) = step_result_size" by (simp add: step_result_def)
  show ?thesis
  proof (cases k)
    case StepRunning
    obtain r ex where c: "commit_step sys w (m_exec m) = (r, ex)" by (cases "commit_step sys w (m_exec m)")
    let ?m = "\<lparr>m_exec = ex, m_sys = sys, m_world = w\<rparr>"
    have e: "exec_Step ops vt (Some (step_result STEP_RUNNING 0)) m = Some (STATUS_OK, Some r, ?m)"
      using ready False s StepRunning c size by (simp add: exec_Step_def)
    have "exec_ok ?m" using commit_ok[OF ok ready False _ _ c] shape StepRunning by simp
    moreover have "sr_state r = STEP_RUNNING \<Longrightarrow> ex_state ex = ExReady" "ex_maxTicks ex = ex_maxTicks (m_exec m)" "ex_maxDomainCycles ex = ex_maxDomainCycles (m_exec m)"
      "ex_committedCycles ex = sys_cycle sys"
      using c ready by (auto simp: commit_step_def clearError_def step_result_def Let_def split: if_splits)
    ultimately show ?thesis using e inv shape StepRunning sr False by auto
  qed (use ready False s size shape in \<open>auto simp: exec_Step_def step_result_def Let_def\<close>)
qed

lemma run_body_returns:
  assumes ok: "loop_ok n s" and host: "host_keeps_slots callbacks"
  shows "\<exists>e s'. run_body ops vt write_ok runner metadata callbacks s = Some (e, s') \<and>
    (e = None \<longrightarrow> loop_ok n s' \<and> cycles s \<noteq> - 1 \<and> cycles s' = cycles s + 1)"
proof -
  obtain s1 e1 again where d: "drive_call callbacks s = (s1, e1, again)" by (cases "drive_call callbacks s")
  have s1: "loop_ok n s1" "cycles s1 = cycles s" using drive_call_ok[OF ok host d] by auto
  show ?thesis
  proof (cases "e1 \<noteq> None \<or> \<not> again \<or> cb_expectedEpochs callbacks \<noteq> 0 \<and> cycles s1 \<ge> cb_expectedEpochs callbacks")
    case True
    then show ?thesis using d by (cases e1) (auto simp: run_body_def)
  next
    case False
    define m where "m = rs_machine s1"
    have mok: "exec_ok m" "ex_state (m_exec m) = ExReady" "obs_inv (w_obs (m_world m))" "stop_cycle (ex_maxTicks (m_exec m)) (ex_maxDomainCycles (m_exec m)) = Some n"
      using s1(1) by (simp_all add: loop_ok_def m_def Let_def)
    obtain status r m' where e: "exec_Step ops vt (Some (step_result STEP_RUNNING 0)) m = Some (status, Some r, m')"
      and keep: "status = STATUS_OK \<and> sr_state r = STEP_RUNNING \<longrightarrow> exec_ok m' \<and> ex_state (m_exec m') = ExReady \<and> obs_inv (w_obs (m_world m')) \<and>
       ex_maxTicks (m_exec m') = ex_maxTicks (m_exec m) \<and> ex_maxDomainCycles (m_exec m') = ex_maxDomainCycles (m_exec m) \<and>
       ex_committedCycles (m_exec m) \<noteq> - 1 \<and> ex_committedCycles (m_exec m') = ex_committedCycles (m_exec m) + 1"
      using exec_step_returns[OF mok(1-3)] by blast
    define s2 where "s2 = s1\<lparr>rs_machine := m'\<rparr>"
    obtain ex s3 where a: "after_step write_ok runner metadata callbacks status r s2 = (ex, s3)" by (cases "after_step write_ok runner metadata callbacks status r s2")
    have b: "run_body ops vt write_ok runner metadata callbacks s = Some (ex, s3)"
      using False d e a by (cases e1) (auto simp: run_body_def m_def s2_def)
    have "loop_ok n s3 \<and> cycles s \<noteq> - 1 \<and> cycles s3 = cycles s + 1" if "ex = None"
    proof -
      have run: "status = STATUS_OK" "sr_state r = STEP_RUNNING" "publish write_ok runner metadata callbacks s2 = (None, s3)"
        using a that by (auto simp: after_step_def split: if_splits option.splits prod.splits model_step_state.splits)
      then have "loop_ok n s2" "cycles s2 = cycles s1 + 1" "cycles s1 \<noteq> - 1" using keep mok(4) by (simp_all add: loop_ok_def s2_def cycles_def m_def Let_def)
      then show ?thesis using publish_ok[OF _ host run(3)] s1(2) by simp
    qed
    then show ?thesis using b by blast
  qed
qed

lemma run_loop_returns:
  assumes "loop_ok n s" "host_keeps_slots callbacks"
  shows "\<exists>e s'. run_loop ops vt write_ok runner metadata callbacks s = Some (e, s') \<and> exit_ok e"
  using assms(1)
proof (induction "unat n - unat (cycles s)" arbitrary: s rule: less_induct)
  case less
  obtain e s' where b: "run_body ops vt write_ok runner metadata callbacks s = Some (e, s')"
    "e = None \<longrightarrow> loop_ok n s' \<and> cycles s \<noteq> - 1 \<and> cycles s' = cycles s + 1"
    using run_body_returns[OF less.prems assms(2)] by blast
  show ?case
  proof (cases e)
    case None
    have lt: "cycles s < n" using less.prems unfolding loop_ok_def exec_ok_def cycles_def Let_def by blast
    have "unat (cycles s') = unat (cycles s) + 1" using b(2) None by (metis Suc_eq_plus1 add.commute add_eq_0_iff unatSuc)
    then have "unat n - unat (cycles s') < unat n - unat (cycles s)" using lt by (simp add: word_less_nat_alt)
    then show ?thesis using less.hyps[of s'] b None by (subst run_loop.simps) simp
  next
    case (Some x)
    then show ?thesis using b(1) run_body_code[of ops vt write_ok runner metadata callbacks s x s'] by (subst run_loop.simps) simp
  qed
qed

lemma sys_Reset_obs_inv:
  assumes "obs_inv (w_obs w)"
  shows "obs_inv (w_obs (snd (sys_Reset ops sys w)))"
  using assms discard_all[of "sys_roots sys" w] obs_Reset_inv obs_DiscardNext_facts(2)
  by (auto simp: sys_Reset_def discardAll_def fold_obs Let_def)

end

subsection \<open>Runs of a system of leaves\<close>

lemma finish_run_code:
  fixes write_ok :: "string list \<Rightarrow> string \<Rightarrow> bool" and runner :: SystemRunner and callbacks :: "('h, 's) RunnerCallbacks" and s :: "('h, 's) run_state"
  assumes e: "exit_ok (LoopEnd e)"
  defines "res \<equiv> finish_run write_ok runner callbacks e s"
  shows "rr_code res \<le> 1" "rr_code res = 0 \<Longrightarrow> rr_message res = None \<and> (sn_eventFile runner \<noteq> None \<longrightarrow>
    (\<exists>status\<in>{''TERMINATED'', ''QUIESCENT''}. \<exists>epoch statistics error. rr_written res \<noteq> [] \<and>
       last (rr_written res) = resultRecord status epoch statistics error (cb_resetSemantics callbacks) \<and>
       (cb_expectedEpochs callbacks = 0 \<or> epoch = cb_expectedEpochs callbacks)))"
proof -
  define e' where "e' = (if re_code e = 0 \<and> cb_expectedEpochs callbacks \<noteq> 0 \<and> cycles s \<noteq> cb_expectedEpochs callbacks then run_end_failed True else e)"
  obtain st stats ex where S: "StatisticsJson True (m_exec (rs_machine s)) = (st, stats, ex)" by (metis prod_cases3)
  obtain st2 err ex2 where L: "LastError True ex = (st2, err, ex2)" by (metis prod_cases3)
  define s1 where "s1 = s\<lparr>rs_machine := (rs_machine s)\<lparr>m_exec := ex\<rparr>\<rparr>"
  have cyc: "cycles s1 = cycles s"
    using S buildStatistics_fields[of "m_exec (rs_machine s)"] by (auto simp: s1_def cycles_def StatisticsJson_def split: if_splits option.splits)
  define out where "out = resultRecord (re_status e') (cycles s1) (strip_newline (the stats))
    (if re_incomplete e' then incomplete_json (cb_expectedEpochs callbacks) (cycles s1) else the err) (cb_resetSemantics callbacks)"
  obtain written ok where W: "writeRecord write_ok runner out (rs_written s1) = (written, ok)" by (cases "writeRecord write_ok runner out (rs_written s1)")
  have res: "res = (if st \<noteq> STATUS_OK \<or> stats = None \<or> stats = Some [] then stop_result 1 (Some ''cannot obtain final statistics'') s1
      else if st2 \<noteq> STATUS_OK then stop_result 1 (Some ''cannot obtain final error status'') s1
      else if \<not> ok then stop_result 1 (Some ''events sink write failed'') (s1\<lparr>rs_written := written\<rparr>)
      else stop_result (re_code e') None (s1\<lparr>rs_written := written\<rparr>))"
    unfolding res_def finish_run_def Let_def e'_def[symmetric] S prod.case s1_def[symmetric] L out_def[symmetric] W by simp
  have code: "re_code e' \<le> 1" using e by (auto simp: e'_def run_end_failed_def)
  show "rr_code res \<le> 1" using code unfolding res by (simp add: stop_result_def)
  assume z: "rr_code res = 0"
  then have r: "ok" "re_code e' = 0" "res = stop_result 0 None (s1\<lparr>rs_written := written\<rparr>)" unfolding res by (auto simp: stop_result_def split: if_splits)
  then have e0: "e' = e" "cb_expectedEpochs callbacks = 0 \<or> cycles s = cb_expectedEpochs callbacks" "re_status e' \<in> {''TERMINATED'', ''QUIESCENT''}"
    using e by (auto simp: e'_def run_end_failed_def split: if_splits)
  have "sn_eventFile runner \<noteq> None \<Longrightarrow> written = rs_written s1 @ [out]" using W r(1) by (auto simp: writeRecord_def split: if_splits)
  then have last: "sn_eventFile runner \<noteq> None \<Longrightarrow> rr_written res \<noteq> [] \<and> last (rr_written res) = out" using r(3) by (simp add: stop_result_def)
  show "rr_message res = None \<and> (sn_eventFile runner \<noteq> None \<longrightarrow>
    (\<exists>status\<in>{''TERMINATED'', ''QUIESCENT''}. \<exists>epoch statistics error. rr_written res \<noteq> [] \<and>
       last (rr_written res) = resultRecord status epoch statistics error (cb_resetSemantics callbacks) \<and>
       (cb_expectedEpochs callbacks = 0 \<or> epoch = cb_expectedEpochs callbacks)))"
  proof (intro conjI impI)
    show "rr_message res = None" using r(3) by (simp add: stop_result_def)
    assume "sn_eventFile runner \<noteq> None"
    note l = last[OF this]
    show "\<exists>status\<in>{''TERMINATED'', ''QUIESCENT''}. \<exists>epoch statistics error. rr_written res \<noteq> [] \<and>
       last (rr_written res) = resultRecord status epoch statistics error (cb_resetSemantics callbacks) \<and>
       (cb_expectedEpochs callbacks = 0 \<or> epoch = cb_expectedEpochs callbacks)"
      by (rule bexI[OF _ e0(3)], rule exI[of _ "cycles s1"], intro exI conjI, use l e0(2) cyc out_def in auto)
  qed
qed

lemma leaf_Build: "each_module (op_Build leaf_ops) ms w = (w, None)"
  by (induction ms) (simp_all add: leaf_ops_def)

lemma created_world:
  assumes "ex_created (m_exec (SimExecutor_new leaf_ops (plain_system check) observations reports sys w))"
  shows "m_world (SimExecutor_new leaf_ops (plain_system check) observations reports sys w) = w"
  using assms by (auto simp: SimExecutor_new_def sys_Build_def leaf_Build ex_created_def plain_system_def sys_fail_def setError_def setError_full_def Let_def
      split: if_splits)

lemma start_run_ok:
  assumes new: "SystemRunner_new read_file create_file argv embedded = (message, runner)" and r: "sn_ready runner" and host: "host_keeps_slots callbacks"
    and obs: "obs_inv (w_obs w)" and st: "start_run leaf_ops (plain_system check) runner callbacks observations reports h sys w = (stop, s)"
  shows "case stop of None \<Rightarrow> \<exists>n. loop_ok n s | Some (RunReturn code m) \<Rightarrow> code = 2 | Some (RunThrow e) \<Rightarrow> True"
proof -
  define m where "m = SimExecutor_new leaf_ops (plain_system check) observations reports sys w"
  show ?thesis
  proof (cases "ex_created (m_exec m)")
    case False
    then show ?thesis using st by (auto simp: start_run_def m_def[symmetric] Let_def)
  next
    case True
    then have c: "ex_state (m_exec m) = ExCreated" and mw: "m_world m = w" using created_world[of check observations reports sys w] by (auto simp: ex_created_def m_def)
    obtain ex n where conf: "ConfigureJson (Some (sn_configJson runner)) (m_exec m) = (STATUS_OK, ex)" "ex_state ex = ExConfigured"
      "stop_cycle (ex_maxTicks ex) (ex_maxDomainCycles ex) = Some n" using ready_configures[OF new r c] by blast
    define s1 where "s1 = \<lparr>rs_host = h, rs_machine = m\<lparr>m_exec := ex\<rparr>, rs_written = []\<rparr>"
    have ok1: "exec_ok (m\<lparr>m_exec := ex\<rparr>)" using configure_ok[OF new_ok[of leaf_ops "plain_system check" observations reports sys w], folded m_def, of "Some (sn_configJson runner)"] conf(1)
      by simp
    define init where "init = (case cb_initialize callbacks of None \<Rightarrow> (s1, None) | Some f \<Rightarrow> (case f (host_world s1) of (hw, e) \<Rightarrow> (set_host hw s1, e)))"
    obtain s2 e2 where i: "init = (s2, e2)" by (cases init)
    obtain w2 where s2: "rs_machine s2 = (m\<lparr>m_exec := ex\<rparr>)\<lparr>m_world := w2\<rparr>" "w_obs w2 = w_obs w"
    proof (cases "cb_initialize callbacks")
      case None
      then have "s2 = s1" using i by (simp add: init_def)
      then show ?thesis using that[of w] by (simp add: s1_def mw[symmetric])
    next
      case (Some f)
      then have "s2 = set_host (fst (f (host_world s1))) s1" using i by (simp add: init_def split: prod.splits)
      moreover have "w_obs (snd (fst (f (host_world s1)))) = w_obs w" using Some host mw by (simp add: host_keeps_slots_def host_world_def s1_def)
      ultimately show ?thesis using that[of "snd (fst (f (host_world s1)))"] by (simp add: set_host_def s1_def)
    qed
    have ok2: "exec_ok (rs_machine s2)" using ok1 by (simp add: s2 exec_ok_world)
    obtain status m3 where rst: "exec_Reset leaf_ops (rs_machine s2) = (status, m3)" by (cases "exec_Reset leaf_ops (rs_machine s2)")
    have outcome: "(stop, s) = (case e2 of Some e \<Rightarrow> (Some (RunThrow e), s2)
        | None \<Rightarrow> (if status \<noteq> STATUS_OK then Some (RunReturn 2 ''model configuration or reset failed'') else None, s2\<lparr>rs_machine := m3\<rparr>))"
      using st True conf(1) rst i unfolding start_run_def Let_def m_def[symmetric] init_def s1_def
      by (auto split: option.splits prod.splits)
    have "loop_ok n (s2\<lparr>rs_machine := m3\<rparr>)" if "status = STATUS_OK"
    proof -
      have m3: "ex_state (m_exec m3) = ExReady" "ex_maxTicks (m_exec m3) = ex_maxTicks ex" "ex_maxDomainCycles (m_exec m3) = ex_maxDomainCycles ex"
        "m_world m3 = snd (sys_Reset leaf_ops (m_sys m) w2)"
        using rst that conf(2) by (auto simp: exec_Reset_def s2 clearError_def split: prod.splits if_splits)
      have "exec_ok m3" using reset_ok[OF ok2, of leaf_ops] rst by simp
      moreover have "obs_inv (w_obs (m_world m3))" unfolding m3(4) by (rule leaves.sys_Reset_obs_inv) (simp add: s2 obs)
      ultimately show ?thesis using m3 conf(3) by (simp add: loop_ok_def Let_def)
    qed
    then show ?thesis using outcome by (auto split: option.splits if_splits)
  qed
qed

text \<open>C5.  A run always ends, with exit code 0, 1 or 2.  For every command line, configuration, metadata and system of storage leaves, over
  well-formed observation slots and for any host callbacks that leave the slots alone, Run returns: a runner is ready only with a
  finite positive limit, and every iteration that goes on has committed one more cycle below it.  Exit code 0 means that the run
  terminated or became quiescent, that the last record in the sink is the result record saying so, and that the expected number
  of sampling epochs, if any, was committed.\<close>
theorem runner_run_returns:
  assumes new: "SystemRunner_new read_file create_file argv embedded = (message, runner)" and host: "host_keeps_slots callbacks" and obs: "obs_inv (w_obs w)"
  shows "\<exists>res. SystemRunner_Run leaf_ops (plain_system check) write_ok runner observations metadata callbacks h sys w = Some res \<and> rr_code res \<le> 2 \<and>
    (rr_code res = 0 \<longrightarrow> rr_message res = None \<and> (sn_eventFile runner \<noteq> None \<longrightarrow>
      (\<exists>status\<in>{''TERMINATED'', ''QUIESCENT''}. \<exists>epoch statistics error. rr_written res \<noteq> [] \<and>
         last (rr_written res) = resultRecord status epoch statistics error (cb_resetSemantics callbacks) \<and>
         (cb_expectedEpochs callbacks = 0 \<or> epoch = cb_expectedEpochs callbacks))))"
proof (cases "sn_ready runner \<and> callbacks_error runner callbacks = None \<and> metadataMatches metadata (descriptors (w_obs w)) \<noteq> None")
  case False
  then show ?thesis by (auto simp: SystemRunner_Run_def Let_def split: option.splits)
next
  case True
  then obtain reports where md: "metadataMatches metadata (descriptors (w_obs w)) = Some reports" by auto
  obtain stop s where st: "start_run leaf_ops (plain_system check) runner callbacks observations reports h sys w = (stop, s)"
    by (cases "start_run leaf_ops (plain_system check) runner callbacks observations reports h sys w")
  note ok = start_run_ok[OF new _ host obs st]
  show ?thesis
  proof (cases stop)
    case None
    then obtain n where "loop_ok n s" using ok True by auto
    then obtain e s' where l: "run_loop leaf_ops (plain_system check) write_ok runner metadata callbacks s = Some (e, s')" "exit_ok e"
      using leaves.run_loop_returns[OF _ host] by blast
    show ?thesis
    proof (cases e)
      case (LoopEnd x)
      then have "SystemRunner_Run leaf_ops (plain_system check) write_ok runner observations metadata callbacks h sys w = Some (finish_run write_ok runner callbacks x s')"
        using True md st None l(1) by (simp add: SystemRunner_Run_def Let_def)
      then show ?thesis using finish_run_code[OF l(2)[unfolded LoopEnd], of write_ok runner callbacks s'] by simp
    next
      case (LoopStop x)
      then have "SystemRunner_Run leaf_ops (plain_system check) write_ok runner observations metadata callbacks h sys w = Some (run_stop_result x s')"
        using True md st None l(1) by (simp add: SystemRunner_Run_def Let_def)
      then show ?thesis using l(2) LoopStop by (cases x) (auto simp: stop_result_def)
    qed
  next
    case (Some x)
    then have "SystemRunner_Run leaf_ops (plain_system check) write_ok runner observations metadata callbacks h sys w = Some (run_stop_result x s)"
      using True md st by (simp add: SystemRunner_Run_def Let_def)
    then show ?thesis using ok True Some by (cases x) (auto simp: stop_result_def)
  qed
qed

text \<open>A command line with a configuration of one tick, and a host without callbacks.\<close>

definition one_tick :: RuntimeLimits where
  "one_tick = \<lparr>deadlockWindow = None, maxTicks = Some 1, maxDomainCycles = []\<rparr>"

definition one_tick_runner :: "string option \<times> SystemRunner" where
  "one_tick_runner = SystemRunner_new (\<lambda>_. Contents (canonicalConfig one_tick)) (\<lambda>_. True) (Some [Some ''p'', Some ''--config'', Some ''c'', Some ''--events'', Some ''-'']) []"

definition no_callbacks :: "(unit, leaf list) RunnerCallbacks" where
  "no_callbacks = \<lparr>cb_initialize = None, cb_drive = None, cb_sample = None, cb_resetSemantics = ''strict'', cb_expectedEpochs = 0\<rparr>"

definition empty_slots :: ObservationSlots where
  "empty_slots = new_slots\<lparr>configured := True, payloadOffsets := [0]\<rparr>"

definition runner_system :: SimSystem where
  "runner_system = fst (AttachObservations 0 (fst (AddModule 0 new_system)))"

lemma one_tick_ready: "fst one_tick_runner = None \<and> sn_ready (snd one_tick_runner) \<and> sn_eventFile (snd one_tick_runner) \<noteq> None"
proof -
  have "strip_newline (canonicalConfig one_tick) = canonicalConfig one_tick" unfolding canonicalConfig_def strip_newline_def by (simp add: last_append)
  moreover have "parseModelConfigJson (canonicalConfig one_tick) = Inr one_tick" by (rule parse_canonical) (simp add: config_wf_def one_tick_def)
  moreover have "limits_error one_tick = None" by (simp add: limits_error_def one_tick_def)
  ultimately show ?thesis
    by (simp add: one_tick_runner_def SystemRunner_new_def is_option_def is_repeated_def load_config_def check_config_def Let_def)
qed

lemma empty_slots_inv: "obs_inv empty_slots"
  by (simp add: obs_inv_def inventory_ok_def views_ok_def empty_slots_def new_slots_def)

theorem runner_run_returns_witness:
  "sn_ready (snd one_tick_runner) \<and>
   (\<exists>res. SystemRunner_Run leaf_ops (plain_system (\<lambda>_. True)) (\<lambda>_ _. True) (snd one_tick_runner) 0 [] no_callbacks () runner_system
      (one_register\<lparr>w_obs := empty_slots\<rparr>) = Some res \<and> rr_code res \<le> 2)"
proof -
  have new: "SystemRunner_new (\<lambda>_. Contents (canonicalConfig one_tick)) (\<lambda>_. True) (Some [Some ''p'', Some ''--config'', Some ''c'', Some ''--events'', Some ''-'']) [] =
      (fst one_tick_runner, snd one_tick_runner)" by (simp add: one_tick_runner_def)
  have "host_keeps_slots no_callbacks" by (simp add: host_keeps_slots_def no_callbacks_def)
  moreover have "obs_inv (w_obs (one_register\<lparr>w_obs := empty_slots\<rparr>))" using empty_slots_inv by simp
  ultimately show ?thesis using runner_run_returns[OF new, of no_callbacks "one_register\<lparr>w_obs := empty_slots\<rparr>" "\<lambda>_. True" "\<lambda>_ _. True" 0 "[]" "()" runner_system] one_tick_ready
    by blast
qed

end
