(* ===== verification/Gfsim_Records.thy ===== *)
theory Gfsim_Records
  imports Gfsim_Runner
begin

text \<open>
  The records that the runner writes after a committed step, from the metadata check of
  \<^verbatim>\<open>runtime/system_runner.cpp\<close> to the events and gauges that the observation slots of
  \<^verbatim>\<open>include/gfsim/ObservationSlot.h\<close> commit.  The lemmas show that accepted metadata names every slot exactly once and
  groups the slots as their descriptors do, and that the consistency checks of the run loop then never fail: after a
  step whose groups passed the precommit, every active group becomes one record.
\<close>

subsection \<open>Accepted metadata\<close>

lemma find_index_Some: "find_index P xs = Some i \<Longrightarrow> i < length xs \<and> P (xs ! i)"
  by (auto simp: find_index_def find_Some_iff)

lemma find_index_unique:
  assumes "i < length xs" "P (xs ! i)" "\<And>j. j < length xs \<Longrightarrow> P (xs ! j) \<Longrightarrow> j = i"
  shows "find_index P xs = Some i"
proof (cases "find_index P xs")
  case None
  then show ?thesis using assms(1,2) by (auto simp: find_index_def find_None_iff)
next
  case (Some j)
  then show ?thesis using find_index_Some[OF Some] assms(3) by auto
qed

text \<open>The table of the first loop: an entry stands at the index of the descriptor with its ordinal, and every entry
  that was read is in the table.\<close>

definition entry_at :: "ObservationDescriptor list \<Rightarrow> RunnerObservation option list \<Rightarrow> nat \<Rightarrow> RunnerObservation \<Rightarrow> bool" where
  "entry_at ds ordered i entry \<longleftrightarrow> i < length ds \<and> ordered ! i = Some entry \<and> stableOrdinal (ds ! i) = ro_stableOrdinal entry \<and> \<not> entry_bad entry (ds ! i)"

lemma match_entries_table:
  assumes "match_entries ds metadata ordered reports = Some (ordered', reports')" "length ordered = length ds"
    "\<And>i entry. i < length ds \<Longrightarrow> ordered ! i = Some entry \<Longrightarrow> entry_at ds ordered i entry \<and> entry \<in> E"
    "\<And>entry. entry \<in> E \<Longrightarrow> \<exists>i. entry_at ds ordered i entry"
  shows "length ordered' = length ds \<and> (\<forall>i entry. i < length ds \<longrightarrow> ordered' ! i = Some entry \<longrightarrow> entry_at ds ordered' i entry \<and> entry \<in> E \<union> set metadata) \<and>
    (\<forall>entry \<in> E \<union> set metadata. \<exists>i. entry_at ds ordered' i entry)"
  using assms
proof (induction metadata arbitrary: ordered reports E)
  case Nil
  then show ?case by auto
next
  case (Cons entry metadata)
  obtain index reports1 where ix: "find_index (\<lambda>candidate. stableOrdinal candidate = ro_stableOrdinal entry) ds = Some index"
    and free: "ordered ! index = None" "\<not> entry_bad entry (ds ! index)"
    and rest: "match_entries ds metadata (ordered[index := Some entry]) reports1 = Some (ordered', reports')"
    using Cons.prems(1) by (auto split: option.splits if_splits)
  note F = find_index_Some[OF ix]
  let ?o = "ordered[index := Some entry]"
  have at: "entry_at ds ?o index entry" using F free Cons.prems(2) by (simp add: entry_at_def)
  have keep: "entry_at ds ordered i x \<Longrightarrow> entry_at ds ?o i x" for i x using free(1) by (cases "i = index") (auto simp: entry_at_def)
  have "length ordered' = length ds \<and> (\<forall>i x. i < length ds \<longrightarrow> ordered' ! i = Some x \<longrightarrow> entry_at ds ordered' i x \<and> x \<in> insert entry E \<union> set metadata) \<and>
      (\<forall>x \<in> insert entry E \<union> set metadata. \<exists>i. entry_at ds ordered' i x)"
  proof (rule Cons.IH[OF rest])
    show "length ?o = length ds" using Cons.prems(2) by simp
    show "entry_at ds ?o i x \<and> x \<in> insert entry E" if "i < length ds" "?o ! i = Some x" for i x
    proof (cases "i = index")
      case True
      then have "x = entry" using that F Cons.prems(2) by simp
      then show ?thesis using at True by simp
    next
      case False
      then show ?thesis using that Cons.prems(3)[of i x] keep by simp
    qed
    show "\<exists>i. entry_at ds ?o i x" if "x \<in> insert entry E" for x using that at keep Cons.prems(4) by blast
  qed
  then show ?case by simp
qed

lemma match_groups_same:
  "match_groups ds L start \<Longrightarrow> start \<le> i \<Longrightarrow> i < length L \<Longrightarrow>
     sameObservationGroup (L ! (i - ro_groupIndex (L ! i))) (L ! i) (ro_groupIndex (L ! i)) \<and> ro_groupIndex (L ! i) \<le> i"
proof (induction ds L start rule: match_groups.induct)
  case (1 ds L start)
  define size where "size = ro_groupSize (L ! start)"
  have st: "\<not> start \<ge> length L" using "1.prems" by simp
  have g: "\<not> (ro_groupIndex (L ! start) \<noteq> 0 \<or> size = 0 \<or> size > length L - start \<or> (ro_kind (L ! start) = ''report'' \<and> size \<noteq> 1))"
    and lanes: "list_all (lane_ok ds L start) [0..<size]" and rest: "match_groups ds L (start + size)"
    using "1.prems"(1) st unfolding size_def by (subst (asm) match_groups.simps; simp add: Let_def split: if_splits)+
  show ?case
  proof (cases "i < start + size")
    case True
    then have "lane_ok ds L start (i - start)" using lanes "1.prems"(2) by (auto simp: list_all_iff)
    then have s: "sameObservationGroup (L ! start) (L ! i) (i - start)" using "1.prems"(2) by (simp add: lane_ok_def Let_def)
    then have "ro_groupIndex (L ! i) = i - start" by (simp add: sameObservationGroup_def)
    then show ?thesis using s "1.prems"(2) by simp
  next
    case False
    show ?thesis using "1.IH"[OF st refl] g lanes rest False "1.prems"(3) unfolding size_def by simp
  qed
qed

text \<open>The entry of slot \<open>i\<close>.\<close>

definition slot_entry :: "RunnerObservation list \<Rightarrow> ObservationDescriptor list \<Rightarrow> nat \<Rightarrow> RunnerObservation" where
  "slot_entry metadata ds i = the (find_metadata metadata (stableOrdinal (ds ! i)))"

lemma metadata_entries:
  assumes m: "metadataMatches metadata ds = Some reports" and d: "distinct (map stableOrdinal ds)" and i: "i < length ds"
  defines "en \<equiv> slot_entry metadata ds"
  shows "find_metadata metadata (stableOrdinal (ds ! i)) = Some (en i)" "\<not> entry_bad (en i) (ds ! i)"
    "sameObservationGroup (en (i - groupIndex (ds ! i))) (en i) (groupIndex (ds ! i))"
    "descriptor_order ds (stableOrdinal (ds ! i)) = i"
proof -
  obtain ordered where len: "length metadata = length ds" and me: "match_entries ds metadata (replicate (length metadata) None) [] = Some (ordered, reports)"
    and mg: "match_groups ds (map the ordered) 0" and all: "list_all (\<lambda>x. x \<noteq> None) ordered"
    using m by (auto simp: metadataMatches_def split: if_splits option.splits)
  have T: "length ordered = length ds \<and> (\<forall>i entry. i < length ds \<longrightarrow> ordered ! i = Some entry \<longrightarrow> entry_at ds ordered i entry \<and> entry \<in> {} \<union> set metadata) \<and>
      (\<forall>entry \<in> {} \<union> set metadata. \<exists>i. entry_at ds ordered i entry)"
    by (rule match_entries_table[OF me]) (use len in auto)
  have inj: "stableOrdinal (ds ! a) = stableOrdinal (ds ! b) \<Longrightarrow> a < length ds \<Longrightarrow> b < length ds \<Longrightarrow> a = b" for a b
    using d by (auto simp: distinct_conv_nth)
  have E: "ordered ! k = Some (en k) \<and> find_metadata metadata (stableOrdinal (ds ! k)) = Some (en k) \<and> \<not> entry_bad (en k) (ds ! k)" if k: "k < length ds" for k
  proof -
    obtain x where x: "ordered ! k = Some x" using all T k by (auto simp: list_all_length)
    then have xa: "entry_at ds ordered k x" "x \<in> set metadata" using T k by auto
    then obtain y where y: "find_metadata metadata (stableOrdinal (ds ! k)) = Some y"
      by (cases "find_metadata metadata (stableOrdinal (ds ! k))") (auto simp: find_metadata_def find_None_iff entry_at_def)
    then have ym: "y \<in> set metadata" "ro_stableOrdinal y = stableOrdinal (ds ! k)" by (auto simp: find_metadata_def find_Some_iff)
    then obtain j where "entry_at ds ordered j y" using T by auto
    then have "ordered ! k = Some y" using inj[of j k] ym(2) k by (auto simp: entry_at_def)
    then show ?thesis using x y xa by (auto simp: en_def slot_entry_def entry_at_def)
  qed
  then show "find_metadata metadata (stableOrdinal (ds ! i)) = Some (en i)" "\<not> entry_bad (en i) (ds ! i)" using i by auto
  have gi: "ro_groupIndex (en i) = groupIndex (ds ! i)" using E[OF i] by (auto simp: entry_bad_def Let_def)
  have "sameObservationGroup (map the ordered ! (i - groupIndex (ds ! i))) (map the ordered ! i) (groupIndex (ds ! i))"
    using match_groups_same[OF mg, of i] T i E[OF i] gi by simp
  then show "sameObservationGroup (en (i - groupIndex (ds ! i))) (en i) (groupIndex (ds ! i))" using T i E[of "i - groupIndex (ds ! i)"] E[OF i] by simp
  show "descriptor_order ds (stableOrdinal (ds ! i)) = i"
    using find_index_unique[of i ds "\<lambda>d. stableOrdinal d = stableOrdinal (ds ! i)"] i inj by (simp add: descriptor_order_def)
qed

subsection \<open>Gauges and their slots\<close>

definition gauge_slots :: "ObservationDescriptor list \<Rightarrow> nat list" where
  "gauge_slots ds = filter (\<lambda>i. od_kind (ds ! i) = Gauge) [0..<length ds]"

text \<open>The gauges stand in the order of their slots, carry their ordinals, and were last updated at or before \<open>e\<close>.\<close>

definition gauges_ok :: "u64 \<Rightarrow> ObservationSlots \<Rightarrow> bool" where
  "gauges_ok e obs \<longleftrightarrow> length (gauges obs) = length (gauge_slots (descriptors obs)) \<and>
     (\<forall>k < length (gauges obs). let i = gauge_slots (descriptors obs) ! k in
        gs_stableOrdinal (gauges obs ! k) = stableOrdinal (descriptors obs ! i) \<and> gaugeIndexBySlot obs ! i = Some k \<and> gs_lastUpdate (gauges obs ! k) \<le> e)"

lemma gauge_slots_Cons: "gauge_slots (d # ds) = (if od_kind d = Gauge then [0] else []) @ map Suc (gauge_slots ds)"
proof -
  have "[0..<length (d # ds)] = 0 # map Suc [0..<length ds]" by (simp add: upt_conv_Cons map_Suc_upt del: upt_Suc)
  then show ?thesis by (simp add: gauge_slots_def filter_map comp_def)
qed

lemma gauge_slots_nth: "k < length (gauge_slots ds) \<Longrightarrow> gauge_slots ds ! k < length ds \<and> od_kind (ds ! (gauge_slots ds ! k)) = Gauge"
  using nth_mem[of k "gauge_slots ds"] by (auto simp: gauge_slots_def)

lemma gauge_table_slots:
  "gauge_table n ds = (ix, gs) \<Longrightarrow> length gs = length (gauge_slots ds) \<and>
     (\<forall>k < length gs. gs_stableOrdinal (gs ! k) = stableOrdinal (ds ! (gauge_slots ds ! k)) \<and> ix ! (gauge_slots ds ! k) = Some (n + k) \<and> gs_lastUpdate (gs ! k) = 0)"
proof (induction ds arbitrary: n ix gs)
  case Nil
  then show ?case by (simp add: gauge_slots_def)
next
  case (Cons d ds)
  define m where "m = (if od_kind d = Gauge then n + 1 else n)"
  obtain ix1 gs1 where t: "gauge_table m ds = (ix1, gs1)" by (cases "gauge_table m ds")
  note e = gauge_table_Cons[OF Cons.prems t[unfolded m_def]]
  show ?case using Cons.IH[OF t] by (auto simp: e gauge_slots_Cons m_def nth_Cons' split: if_splits)
qed

lemma Configure_gauges: "Configure max_size ds cap new_slots = (obs, True) \<Longrightarrow> gauges_ok e obs"
  using gauge_table_slots[OF gauge_table_fst_snd[of 0 ds]]
  by (auto simp: Configure_def new_slots_def gauges_ok_def Let_def split: if_splits option.splits)

lemma filter_upt_unique:
  assumes "i < n" "\<And>j. j < n \<Longrightarrow> P j \<Longrightarrow> j = i"
  shows "filter P [0..<n] = (if P i then [i] else [])"
proof -
  have "filter P [0..<n] = filter (\<lambda>j. j = i \<and> P i) [0..<n]" using assms by (intro filter_cong) auto
  moreover have "filter (\<lambda>j. j = i) [0..<n] = [i]" using assms(1) by (induction n) (auto simp: less_Suc_eq filter_empty_conv)
  ultimately show ?thesis by simp
qed

lemma xfer_gauges:
  assumes inv: "obs_inv obs" and pre: "obs_Precommit e obs = Some True" and e: "e \<noteq> - 1" and g: "gauges_ok e obs"
  defines "G \<equiv> \<lambda>i. let k = the (gaugeIndexBySlot obs ! i) in if slot_active obs i then updated_gauge obs (e + 1) i k else gauges obs ! k"
  shows "gauges (obs_Xfer (e + 1) obs) = map G (gauge_slots (descriptors obs))"
    "i \<in> set (gauge_slots (descriptors obs)) \<Longrightarrow> gs_stableOrdinal (G i) = stableOrdinal (descriptors obs ! i)"
    "i \<in> set (gauge_slots (descriptors obs)) \<Longrightarrow> gs_lastUpdate (G i) = e + 1 \<longleftrightarrow> slot_active obs i"
    "gauges_ok (e + 1) (obs_Xfer (e + 1) obs)"
proof -
  let ?ds = "descriptors obs" and ?n = "length (slots obs)" and ?obs = "obs_Xfer (e + 1) obs"
  have io: "inventory_ok obs" using inv by (simp add: obs_inv_def)
  have n: "?n = length ?ds" using io by (simp add: inventory_ok_def)
  have m: "moved obs (e + 1) ?n ?obs" using xfer_moved[OF inv pre e le_refl] by (simp add: obs_Xfer_def)
  have lt: "e < e + 1" using e unatSuc[of e] max_word_wrap[of e] by (metis add.commute lessI word_less_nat_alt)
  show 1: "gauges ?obs = map G (gauge_slots ?ds)"
  proof (rule nth_equalityI)
    show "length (gauges ?obs) = length (map G (gauge_slots ?ds))" using m g by (simp add: moved_def gauges_ok_def)
  next
    fix k assume "k < length (gauges ?obs)"
    then have k: "k < length (gauges obs)" "k < length (gauge_slots ?ds)" using m g by (simp_all add: moved_def gauges_ok_def)
    let ?i = "gauge_slots ?ds ! k"
    have i: "?i < ?n" "gaugeIndexBySlot obs ! ?i = Some k" using gauge_slots_nth[OF k(2)] g k(1) n by (simp_all add: gauges_ok_def Let_def)
    have uniq: "j < ?n \<Longrightarrow> gaugeIndexBySlot obs ! j = Some k \<Longrightarrow> j = ?i" for j
      using io i n unfolding inventory_ok_def by (metis linorder_neqE_nat)
    have "filter (\<lambda>j. slot_active obs j \<and> gaugeIndexBySlot obs ! j = Some k) [0..<?n] = (if slot_active obs ?i then [?i] else [])"
      using filter_upt_unique[OF i(1), of "\<lambda>j. slot_active obs j \<and> gaugeIndexBySlot obs ! j = Some k"] uniq i(2) by simp
    then show "gauges ?obs ! k = map G (gauge_slots ?ds) ! k" using m k i by (simp add: moved_def G_def)
  qed
  have K: "\<exists>k. gaugeIndexBySlot obs ! i = Some k \<and> gs_stableOrdinal (gauges obs ! k) = stableOrdinal (?ds ! i) \<and> gs_lastUpdate (gauges obs ! k) \<le> e"
    if "i \<in> set (gauge_slots ?ds)" for i using that g by (auto simp: gauges_ok_def in_set_conv_nth Let_def)
  show 2: "i \<in> set (gauge_slots ?ds) \<Longrightarrow> gs_stableOrdinal (G i) = stableOrdinal (?ds ! i)" for i
    using K[of i] by (auto simp: G_def Let_def updated_gauge_def)
  show "i \<in> set (gauge_slots ?ds) \<Longrightarrow> gs_lastUpdate (G i) = e + 1 \<longleftrightarrow> slot_active obs i" for i
    using K[of i] lt[unfolded not_le[symmetric]] by (cases "slot_active obs i") (auto simp: G_def Let_def updated_gauge_def)
  have 4: "i \<in> set (gauge_slots ?ds) \<Longrightarrow> gs_lastUpdate (G i) \<le> e + 1" for i
    using K[of i] order_trans[OF _ less_imp_le[OF lt]] by (cases "slot_active obs i") (auto simp: G_def Let_def updated_gauge_def)
  have "descriptors ?obs = ?ds" "gaugeIndexBySlot ?obs = gaugeIndexBySlot obs" using m by (simp_all add: moved_def)
  then show "gauges_ok (e + 1) ?obs" using g 2 4 unfolding gauges_ok_def by (simp add: 1 Let_def)
qed

subsection \<open>Items of a step\<close>

lemma event_items_map:
  assumes "\<And>i. i \<in> set xs \<Longrightarrow> ce_descriptor (E i) = ds ! i \<and> find_metadata metadata (stableOrdinal (ds ! i)) = Some (en i) \<and>
    ro_kind (en i) \<noteq> ''report'' \<and> descriptor_order ds (stableOrdinal (ds ! i)) = i \<and> i \<noteq> length ds"
  shows "event_items metadata ds (map E xs) = Inr (map (\<lambda>i. \<lparr>oi_descriptorOrder = i, oi_metadata = en i, oi_source = OutEvent (E i)\<rparr>) xs)"
  using assms by (induction xs) (simp_all add: Let_def)

lemma gauge_items_map:
  assumes "\<And>i. i \<in> set xs \<Longrightarrow> gs_stableOrdinal (G i) = stableOrdinal (ds ! i) \<and> find_metadata metadata (stableOrdinal (ds ! i)) = Some (en i) \<and>
    ro_kind (en i) = ''report'' \<and> descriptor_order ds (stableOrdinal (ds ! i)) = i \<and> i \<noteq> length ds"
  shows "gauge_items metadata ds epoch (map G xs) =
    Inr (map (\<lambda>i. \<lparr>oi_descriptorOrder = i, oi_metadata = en i, oi_source = OutGauge (G i)\<rparr>) (filter (\<lambda>i. gs_lastUpdate (G i) = epoch) xs))"
  using assms by (induction xs) (simp_all add: Let_def)

text \<open>The item of slot \<open>i\<close> once the transfer has committed it.\<close>

definition slot_item :: "RunnerObservation list \<Rightarrow> u64 \<Rightarrow> ObservationSlots \<Rightarrow> nat \<Rightarrow> OutputItem" where
  "slot_item metadata epoch obs i = \<lparr>oi_descriptorOrder = i, oi_metadata = slot_entry metadata (descriptors obs) i,
     oi_source = (if od_kind (descriptors obs ! i) = Event then OutEvent (committed_event obs epoch i)
                  else OutGauge (updated_gauge obs epoch i (the (gaugeIndexBySlot obs ! i))))\<rparr>"

lemma slot_item_fields [simp]:
  "oi_descriptorOrder (slot_item metadata epoch obs i) = i" "oi_metadata (slot_item metadata epoch obs i) = slot_entry metadata (descriptors obs) i"
  "observationEpoch (slot_item metadata epoch obs i) = epoch"
  by (simp_all add: slot_item_def observationEpoch_def committed_event_def updated_gauge_def)

lemma insort_items: "(\<And>i. f (item i) = i) \<Longrightarrow> insort_key f (item x) (map item xs) = map item (insort x xs)"
  by (induction xs) auto

lemma sort_items: "(\<And>i. f (item i) = i) \<Longrightarrow> sort_key f (map item xs) = map item (sort xs)"
  by (induction xs) (simp_all add: insort_items)

lemma sort_disjoint:
  "(\<And>i. \<not> (P i \<and> Q i)) \<Longrightarrow> sort (filter P [0..<n] @ filter Q [0..<n]) = filter (\<lambda>i. P i \<or> Q i) [0..<n :: nat]"
  by (rule sorted_distinct_set_unique) (auto simp: sorted_wrt_filter)

subsection \<open>Records of a step\<close>

lemma append_values_ok: "(\<And>lane. lane \<in> set lanes \<Longrightarrow> \<exists>s. appendValue obs (item_value lane) = Inr s) \<Longrightarrow> \<exists>t. append_values obs h lanes = Inr t"
proof (induction lanes arbitrary: h)
  case (Cons lane lanes)
  obtain s where "appendValue obs (item_value lane) = Inr s" using Cons.prems by fastforce
  moreover have "\<exists>t. append_values obs h' lanes = Inr t" for h' using Cons by simp
  ultimately show ?case by (cases "ro_hasValue (oi_metadata lane)") (auto split: sum.splits, metis sum.distinct(1))
qed simp

lemma eventRecord_ok: "(\<And>lane. lane \<in> set lanes \<Longrightarrow> \<exists>s. appendValue obs (item_value lane) = Inr s) \<Longrightarrow> \<exists>t. eventRecord obs lanes = Inr t"
  using append_values_ok[of lanes obs False] by (auto simp: eventRecord_def Let_def)

definition group_heads :: "ObservationDescriptor list \<Rightarrow> (nat \<Rightarrow> bool) \<Rightarrow> nat \<Rightarrow> nat list" where
  "group_heads ds act b = filter (\<lambda>i. act i \<and> groupIndex (ds ! i) = 0) [b..<length ds]"

lemma group_split:
  assumes sh: "\<forall>i<length ds. group_shape ds i" and b: "b < length ds" "groupIndex (ds ! b) = 0"
    and act: "\<And>i j. i < length ds \<Longrightarrow> j < length ds \<Longrightarrow> group_start ds i = group_start ds j \<Longrightarrow> act i = act j"
  defines "stop \<equiv> b + groupSize (ds ! b)"
  shows "filter act [b..<length ds] = (if act b then [b..<stop] else []) @ filter act [stop..<length ds]"
    "group_heads ds act b = (if act b then [b] else []) @ group_heads ds act stop"
proof -
  note gb = group_boundary[OF sh b, folded stop_def]
  have up: "[b..<length ds] = [b..<stop] @ [stop..<length ds]" using gb(1,2) upt_add_eq_append[of b stop "length ds - stop"] by simp
  have same: "act i = act b" if "b \<le> i" "i < stop" for i using act[of i b] gb(2) gb(4)[OF that] gb(4)[of b] gb(1) b that by simp
  have "filter act [b..<stop] = (if act b then [b..<stop] else [])" 
    using same filter_True[of "[b..<stop]" act] filter_False[of "[b..<stop]" act] by (cases "act b") simp_all
  then show "filter act [b..<length ds] = (if act b then [b..<stop] else []) @ filter act [stop..<length ds]" by (simp add: up)
  have "groupIndex (ds ! i) \<noteq> 0" if "i \<in> set [Suc b..<stop]" for i using gb(4)[of i] that by (auto simp: group_start_def)
  then have "filter (\<lambda>i. act i \<and> groupIndex (ds ! i) = 0) [b..<stop] = (if act b then [b] else [])"
    using b(2) filter_False[of "[Suc b..<stop]" "\<lambda>i. act i \<and> groupIndex (ds ! i) = 0"] by (simp add: upt_conv_Cons[OF gb(1)])
  then show "group_heads ds act b = (if act b then [b] else []) @ group_heads ds act stop" by (simp add: group_heads_def up)
qed

lemma group_records_all:
  fixes item :: "nat \<Rightarrow> OutputItem"
  assumes sh: "\<forall>i<length ds. group_shape ds i"
    and act: "\<And>i j. i < length ds \<Longrightarrow> j < length ds \<Longrightarrow> group_start ds i = group_start ds j \<Longrightarrow> act i = act j"
    and it: "\<And>i. i < length ds \<Longrightarrow> oi_descriptorOrder (item i) = i \<and> observationEpoch (item i) = epoch \<and>
      ro_groupIndex (oi_metadata (item i)) = groupIndex (ds ! i) \<and> ro_groupSize (oi_metadata (item i)) = groupSize (ds ! i) \<and>
      sameObservationGroup (oi_metadata (item (i - groupIndex (ds ! i)))) (oi_metadata (item i)) (groupIndex (ds ! i))"
    and val: "\<And>i. i < length ds \<Longrightarrow> act i \<Longrightarrow> \<exists>s. appendValue obs (item_value (item i)) = Inr s"
    and b: "b \<le> length ds" "b < length ds \<Longrightarrow> groupIndex (ds ! b) = 0"
  shows "\<exists>records. group_records obs epoch (map item (filter act [b..<length ds])) = Inr records \<and>
    map Inr records = map (\<lambda>h. eventRecord obs (map item [h..<h + groupSize (ds ! h)])) (group_heads ds act b)"
  using b
proof (induction "length ds - b" arbitrary: b rule: less_induct)
  case less
  show ?case
  proof (cases "b < length ds")
    case False
    then show ?thesis by (simp add: group_heads_def group_records.simps)
  next
    case True
    then have b0: "groupIndex (ds ! b) = 0" using less.prems by simp
    define stop where "stop = b + groupSize (ds ! b)"
    note gb = group_boundary[OF sh True b0, folded stop_def] and gs = group_split[OF sh True b0 act, folded stop_def]
    obtain records where IH: "group_records obs epoch (map item (filter act [stop..<length ds])) = Inr records"
        "map Inr records = map (\<lambda>h. eventRecord obs (map item [h..<h + groupSize (ds ! h)])) (group_heads ds act stop)"
      using less.hyps[OF diff_less_mono2[OF gb(1) True] gb(2,3)] by blast
    show ?thesis
    proof (cases "act b")
      case False
      then show ?thesis using IH gs by simp
    next
      case a: True
      let ?items = "map item [b..<stop] @ map item (filter act [stop..<length ds])"
      have len: "groupSize (ds ! b) = length [b..<stop]" by (simp add: stop_def)
      have "act i" if "b \<le> i" "i < stop" for i using act[of i b] gb(2) gb(4)[OF that] gb(4)[of b] gb(1) True that a by simp
      then have "\<exists>s. appendValue obs (item_value lane) = Inr s" if "lane \<in> set (map item [b..<stop])" for lane using that val gb(2) by auto
      then obtain rec where r: "eventRecord obs (map item [b..<stop]) = Inr rec" using eventRecord_ok[of "map item [b..<stop]" obs] by blast
      have hd: "hd ?items = item b" using gb(1) by (simp add: upt_conv_Cons)
      have ok: "group_ok epoch ?items k" if "k < groupSize (ds ! b)" for k
      proof -
        have i: "b + k < stop" "b + k < length ds" using that gb(2) by (simp_all add: stop_def)
        then have k: "groupIndex (ds ! (b + k)) = k" using sh[rule_format, OF True] b0 that by (simp add: group_shape_def Let_def)
        have "?items ! k = item (b + k)" using i by (simp add: nth_append stop_def)
        then show ?thesis using it[OF i(2)] it[OF True] hd k by (simp add: group_ok_def)
      qed
      have "group_records obs epoch ?items = Inr (rec # records)"
        using it[OF True] b0 gb(1) ok IH(1) r hd len by (subst group_records.simps) (auto simp: list_all_iff Let_def)
      then show ?thesis using a gs IH(2) r by (intro exI[of _ "rec # records"]) (simp add: stop_def)
    qed
  qed
qed

lemma committed_value:
  assumes inv: "obs_inv obs" and pre: "obs_Precommit e obs = Some True" and e: "e \<noteq> - 1" and i: "i < length (slots obs)" and a: "slot_active obs i"
  shows "\<exists>s. appendValue (obs_Xfer (e + 1) obs) (item_value (slot_item metadata (e + 1) obs i)) = Inr s"
proof -
  let ?obs = "obs_Xfer (e + 1) obs" and ?v = "os_value (slots obs ! i)" and ?d = "descriptors obs ! i"
  have io: "inventory_ok obs" "views_ok obs" using inv by (simp_all add: obs_inv_def)
  have m: "moved obs (e + 1) (length (slots obs)) ?obs" using xfer_moved[OF inv pre e le_refl] by (simp add: obs_Xfer_def)
  have "slot_ready obs (Some e) i" using pre i by (simp add: obs_Precommit_def precommit_eq[OF io(1)])
  then have v: "value_ok obs i" using a by (auto simp: slot_ready_def slot_active_def Let_def)
  have scalar: "sv_kind x \<noteq> SlotBits4 \<Longrightarrow> \<exists>s. appendValue ?obs x = Inr s" for x by (simp add: appendValue_def)
  show ?thesis
  proof (cases "od_kind ?d = Event \<and> sv_kind ?v = SlotBits4")
    case False
    then have "sv_kind (item_value (slot_item metadata (e + 1) obs i)) \<noteq> SlotBits4"
      using v by (cases "od_kind ?d") (auto simp: item_value_def slot_item_def committed_event_def updated_gauge_def value_ok_def Let_def)
    then show ?thesis by (rule scalar)
  next
    case True
    let ?w = "payloadWidth ?d"
    have c: "canonical_content (content obs ?v)" "?v = planeView obs PendingStore i ?w"
      using True v io(2) i by (auto simp: value_ok_def isCanonicalBits4_content views_ok_def Let_def)
    have "planeView ?obs = planeView obs" "region CommittedStore ?obs i = region PendingStore obs i" "inventory_ok ?obs" "i < length (slots ?obs)"
      using m True i a by (auto simp: moved_def event_active_def intro: planeView_cong)
    then have "content ?obs (planeView obs CommittedStore i ?w) = content obs ?v"
      using content_view[of ?obs i CommittedStore ?w] content_view[OF io(1) i, of PendingStore ?w] c(2) by simp
    then have "isCanonicalBits4 ?obs (planeView obs CommittedStore i ?w)" using c(1) by (simp add: isCanonicalBits4_content)
    then show ?thesis using True by (simp add: item_value_def slot_item_def committed_event_def appendValue_def)
  qed
qed

lemma step_items:
  assumes inv: "obs_inv obs" and pre: "obs_Precommit e obs = Some True" and e: "e \<noteq> - 1" and g: "gauges_ok e obs"
    and m: "metadataMatches metadata (descriptors obs) = Some reports"
  shows "step_records metadata (e + 1) (obs_Xfer (e + 1) obs) =
    group_records (obs_Xfer (e + 1) obs) (e + 1) (map (slot_item metadata (e + 1) obs) (filter (slot_active obs) [0..<length (slots obs)]))"
proof -
  let ?obs = "obs_Xfer (e + 1) obs" and ?ds = "descriptors obs" and ?n = "length (slots obs)" and ?item = "slot_item metadata (e + 1) obs"
  have io: "inventory_ok obs" using inv by (simp add: obs_inv_def)
  have n: "?n = length ?ds" and d: "distinct (map stableOrdinal ?ds)" using io by (simp_all add: inventory_ok_def)
  have mv: "moved obs (e + 1) ?n ?obs" using xfer_moved[OF inv pre e le_refl] by (simp add: obs_Xfer_def)
  note me = metadata_entries[OF m d] and xg = xfer_gauges[OF inv pre e g]
  define G where "G = (\<lambda>i. let k = the (gaugeIndexBySlot obs ! i) in if slot_active obs i then updated_gauge obs (e + 1) i k else gauges obs ! k)"
  have kind: "ro_kind (slot_entry metadata ?ds i) = ''report'' \<longleftrightarrow> od_kind (?ds ! i) = Gauge" if "i < length ?ds" for i
    using me(2)[OF that] by (auto simp: entry_bad_def Let_def)
  have "event_items metadata ?ds (events ?obs) = Inr (map (\<lambda>i. \<lparr>oi_descriptorOrder = i, oi_metadata = slot_entry metadata ?ds i,
      oi_source = OutEvent (committed_event obs (e + 1) i)\<rparr>) (filter (event_active obs) [0..<?n]))" (is "?ev = _")
  proof -
    have "events ?obs = map (committed_event obs (e + 1)) (filter (event_active obs) [0..<?n])" using mv by (simp add: moved_def)
    then show ?thesis using event_items_map[of "filter (event_active obs) [0..<?n]" "committed_event obs (e + 1)" ?ds metadata "slot_entry metadata ?ds"] me(1,4) kind n
      by (simp add: committed_event_def event_active_def)
  qed
  also have "\<dots> = Inr (map ?item (filter (event_active obs) [0..<?n]))" by (simp add: slot_item_def event_active_def)
  finally have ev: "?ev = Inr (map ?item (filter (event_active obs) [0..<?n]))" .
  have gs: "i \<in> set (gauge_slots ?ds) \<Longrightarrow> i < length ?ds \<and> od_kind (?ds ! i) = Gauge" for i by (simp add: gauge_slots_def)
  have "gauge_items metadata ?ds (e + 1) (gauges ?obs) = Inr (map (\<lambda>i. \<lparr>oi_descriptorOrder = i, oi_metadata = slot_entry metadata ?ds i, oi_source = OutGauge (G i)\<rparr>)
      (filter (\<lambda>i. gs_lastUpdate (G i) = e + 1) (gauge_slots ?ds)))" (is "?ga = _")
    unfolding xg(1) G_def[symmetric] by (rule gauge_items_map) (use gs me(1,4) kind xg(2) G_def in auto)
  also have "filter (\<lambda>i. gs_lastUpdate (G i) = e + 1) (gauge_slots ?ds) = filter (slot_active obs) (gauge_slots ?ds)"
    by (rule filter_cong) (use xg(3) G_def in auto)
  finally have ga: "?ga = Inr (map ?item (filter (slot_active obs) (gauge_slots ?ds)))"
    using gs by (simp add: slot_item_def G_def Let_def)
  have "sort (filter (event_active obs) [0..<?n] @ filter (slot_active obs) (gauge_slots ?ds)) = filter (slot_active obs) [0..<?n]"
  proof -
    have "filter (slot_active obs) (gauge_slots ?ds) = filter (\<lambda>i. slot_active obs i \<and> od_kind (?ds ! i) = Gauge) [0..<?n]"
      by (simp add: gauge_slots_def n conj_commute)
    moreover have "(\<lambda>i. event_active obs i \<or> slot_active obs i \<and> od_kind (?ds ! i) = Gauge) = slot_active obs"
      using ObservationKind.exhaust by (auto simp: event_active_def fun_eq_iff)
    ultimately show ?thesis using sort_disjoint[of "event_active obs" "\<lambda>i. slot_active obs i \<and> od_kind (?ds ! i) = Gauge" ?n] by (simp add: event_active_def)
  qed
  moreover have "descriptors ?obs = ?ds" using mv by (simp add: moved_def)
  ultimately show ?thesis using sort_items[of oi_descriptorOrder ?item "filter (event_active obs) [0..<?n] @ filter (slot_active obs) (gauge_slots ?ds)"]
    by (simp add: step_records_def ev ga)
qed

lemma records_complete:
  assumes inv: "obs_inv obs" and pre: "obs_Precommit e obs = Some True" and e: "e \<noteq> - 1" and g: "gauges_ok e obs"
    and m: "metadataMatches metadata (descriptors obs) = Some reports"
  shows "\<exists>records. step_records metadata (e + 1) (obs_Xfer (e + 1) obs) = Inr records \<and>
    map Inr records = map (\<lambda>h. eventRecord (obs_Xfer (e + 1) obs) (map (slot_item metadata (e + 1) obs) [h..<h + groupSize (descriptors obs ! h)]))
      (filter (\<lambda>i. slot_active obs i \<and> groupIndex (descriptors obs ! i) = 0) [0..<length (slots obs)])"
proof -
  let ?ds = "descriptors obs"
  have io: "inventory_ok obs" using inv by (simp add: obs_inv_def)
  have n: "length (slots obs) = length ?ds" and d: "distinct (map stableOrdinal ?ds)" and sh: "\<forall>i<length ?ds. group_shape ?ds i"
    using io by (simp_all add: inventory_ok_def)
  have it: "ro_groupIndex (slot_entry metadata ?ds i) = groupIndex (?ds ! i) \<and> ro_groupSize (slot_entry metadata ?ds i) = groupSize (?ds ! i)" if "i < length ?ds" for i
    using metadata_entries(2)[OF m d that] by (auto simp: entry_bad_def Let_def)
  have b: "groupIndex (?ds ! 0) = 0" if "0 < length ?ds" using sh[rule_format, OF that] by (simp add: group_shape_def)
  have "\<exists>records. group_records (obs_Xfer (e + 1) obs) (e + 1) (map (slot_item metadata (e + 1) obs) (filter (slot_active obs) [0..<length ?ds])) = Inr records \<and>
    map Inr records = map (\<lambda>h. eventRecord (obs_Xfer (e + 1) obs) (map (slot_item metadata (e + 1) obs) [h..<h + groupSize (?ds ! h)])) (group_heads ?ds (slot_active obs) 0)"
  proof (rule group_records_all[OF sh])
    show "slot_active obs i = slot_active obs j" if "i < length ?ds" "j < length ?ds" "group_start ?ds i = group_start ?ds j" for i j
      using that n by (intro group_all_or_none[OF inv pre _ _ that(3)]) simp_all
    show "\<exists>s. appendValue (obs_Xfer (e + 1) obs) (item_value (slot_item metadata (e + 1) obs i)) = Inr s" if "i < length ?ds" "slot_active obs i" for i
      using that n by (intro committed_value[OF inv pre e]) simp_all
  qed (use it metadata_entries(3)[OF m d] b in simp_all)
  then show ?thesis by (simp only: step_items[OF assms] n group_heads_def)
qed

subsection \<open>Property\<close>

text \<open>C7.  On an inventory whose metadata the runner accepted, a step whose observation groups passed the precommit
  yields exactly one record for every active group, in the order of the slots, and each record is the one built from the
  values that the transfer committed for all the slots of its group.  None of the run loop's consistency checks
  (missing metadata, missing descriptor, incomplete or inconsistent group, malformed planes) can end the run.  The
  invariants on which this rests hold again after the transfer.\<close>

theorem runner_records_complete:
  assumes "obs_inv obs" "gauges_ok e obs" "metadataMatches metadata (descriptors obs) = Some reports"
    "obs_Precommit e obs = Some True" "e \<noteq> - 1"
  shows "obs_inv (obs_Xfer (e + 1) obs) \<and> gauges_ok (e + 1) (obs_Xfer (e + 1) obs) \<and> descriptors (obs_Xfer (e + 1) obs) = descriptors obs \<and>
    (\<exists>records. step_records metadata (e + 1) (obs_Xfer (e + 1) obs) = Inr records \<and>
       map Inr records = map (\<lambda>h. eventRecord (obs_Xfer (e + 1) obs) (map (slot_item metadata (e + 1) obs) [h..<h + groupSize (descriptors obs ! h)]))
         (filter (\<lambda>i. slot_active obs i \<and> groupIndex (descriptors obs ! i) = 0) [0..<length (slots obs)]))"
  using xfer_commit(1,2)[OF assms(1,4,5)] xfer_gauges(4)[OF assms(1,4,5,2)] records_complete[OF assms(1,4,5,2,3)] by blast

definition metadata_example :: "RunnerObservation list" where
  "metadata_example =
     [\<lparr>ro_stableOrdinal = 1, ro_kind = ''report'', ro_instance = ''top'', ro_registration = ''r'', ro_site = ''s1'', ro_specJson = ''{}'',
       ro_hasValue = True, ro_reportName = ''count'', ro_groupIndex = 0, ro_groupSize = 1\<rparr>,
      \<lparr>ro_stableOrdinal = 0, ro_kind = ''print'', ro_instance = ''top'', ro_registration = ''r'', ro_site = ''s0'', ro_specJson = ''{}'',
       ro_hasValue = True, ro_reportName = [], ro_groupIndex = 0, ro_groupSize = 1\<rparr>]"

definition staged_example :: ObservationSlots where
  "staged_example = fst (Stage 1 (SlotValue_Unsigned 7) True True 5 (fst (Stage 0 (SlotValue_Bool True) True True 5 obs_example)))"

lemma metadata_example_matches: "metadataMatches metadata_example ds_example = Some [\<lparr>rg_stableOrdinal = 1, rg_objectPath = ''top'', rg_name = ''count''\<rparr>]"
  by (simp add: metadataMatches_def metadata_example_def ds_example_def find_index_def entry_bad_def match_groups.simps lane_ok_def sameObservationGroup_def
      upt_rec Let_def)

lemma staged_example_slots:
  "staged_example = obs_example\<lparr>slots := [\<lparr>os_pending = True, os_value = SlotValue_Bool True, os_valid = True, os_path = True, os_evaluationEpoch = 5\<rparr>,
     \<lparr>os_pending = True, os_value = SlotValue_Unsigned 7, os_valid = True, os_path = True, os_evaluationEpoch = 5\<rparr>]\<rparr>"
proof -
  have "configured obs_example" "slots obs_example = replicate 2 empty_slot"
    using Configure_inv(1,4)[OF configure_example] by (simp_all add: obs_inv_def inventory_ok_def ds_example_def)
  then show ?thesis
    by (simp add: staged_example_def Stage_def SlotValue_Bool_def SlotValue_Unsigned_def slot_scalar_def empty_slot_def numeral_2_eq_2)
qed

lemma staged_example_facts:
  "obs_inv staged_example" "descriptors staged_example = ds_example" "gauges_ok 5 staged_example"
  "length (slots staged_example) = 2" "slot_active staged_example 0" "slot_active staged_example 1" "obs_Precommit 5 staged_example = Some True"
proof -
  note c = Configure_inv[OF configure_example]
  have k: "sv_kind (SlotValue_Bool b) = SlotBool" "sv_kind (SlotValue_Unsigned n) = SlotUnsigned" for b n
    by (simp_all add: SlotValue_Bool_def SlotValue_Unsigned_def slot_scalar_def)
  have two: "i < 2 \<longleftrightarrow> i = 0 \<or> i = 1" for i :: nat by auto
  show d: "descriptors staged_example = ds_example" and n: "length (slots staged_example) = 2"
    using c(2) by (simp_all add: staged_example_slots)
  show "gauges_ok 5 staged_example" using Configure_gauges[OF configure_example, of 5] by (simp add: staged_example_slots gauges_ok_def)
  show a: "slot_active staged_example 0" "slot_active staged_example 1" by (simp_all add: staged_example_slots slot_active_def)
  show inv: "obs_inv staged_example"
    using c(1) c(2) two k by (auto simp: staged_example_slots obs_inv_def inventory_ok_def views_ok_def ds_example_def planeView_def less_Suc_eq)
  have "slot_ready staged_example (Some 5) i" if "i < 2" for i
    using that k c(2) unfolding two by (auto simp: slot_ready_def group_start_def value_ok_def staged_example_slots ds_example_def Let_def)
  moreover have "filter (event_active staged_example) [0..<2] = [0]" using a d by (simp add: event_active_def ds_example_def upt_rec)
  moreover have "eventCapacity staged_example = 4" using c(3) by (simp add: staged_example_slots)
  ultimately show "obs_Precommit 5 staged_example = Some True" using inv n by (simp add: obs_Precommit_def precommit_eq obs_inv_def)
qed

theorem runner_records_complete_witness:
  "\<exists>first second. step_records metadata_example 6 (obs_Xfer 6 staged_example) = Inr [first, second] \<and>
     eventRecord (obs_Xfer 6 staged_example) [slot_item metadata_example 6 staged_example 0] = Inr first \<and>
     eventRecord (obs_Xfer 6 staged_example) [slot_item metadata_example 6 staged_example 1] = Inr second"
proof -
  have heads: "filter (\<lambda>i. slot_active staged_example i \<and> groupIndex (descriptors staged_example ! i) = 0) [0..<length (slots staged_example)] = [0, 1]"
    using staged_example_facts(2,4-6) by (simp add: ds_example_def upt_rec)
  have matches: "metadataMatches metadata_example (descriptors staged_example) = Some [\<lparr>rg_stableOrdinal = 1, rg_objectPath = ''top'', rg_name = ''count''\<rparr>]"
    using metadata_example_matches staged_example_facts(2) by simp
  have one: "groupSize (descriptors staged_example ! 0) = 1" "groupSize (descriptors staged_example ! 1) = 1"
    using staged_example_facts(2) by (simp_all add: ds_example_def)
  have six: "(5 :: u64) + 1 = 6" "(5 :: u64) \<noteq> - 1" by simp_all
  obtain records where r: "step_records metadata_example 6 (obs_Xfer 6 staged_example) = Inr records"
    and mi: "map Inr records = map (\<lambda>h. eventRecord (obs_Xfer 6 staged_example) (map (slot_item metadata_example 6 staged_example)
      [h..<h + groupSize (descriptors staged_example ! h)])) [0, 1]"
    using runner_records_complete[OF staged_example_facts(1,3) matches staged_example_facts(7) six(2), unfolded heads six(1)] by blast
  have m: "map Inr records = [eventRecord (obs_Xfer 6 staged_example) [slot_item metadata_example 6 staged_example 0],
      eventRecord (obs_Xfer 6 staged_example) [slot_item metadata_example 6 staged_example 1]]"
    using mi one by simp
  from m obtain first second where "records = [first, second]" by (auto simp: map_eq_Cons_conv)
  with r m show ?thesis by auto
qed

end
