(* ===== verification/Spec2Isabelle.thy ===== *)
theory Spec2Isabelle
  imports Gfsim_Dff Gfsim_Fifo Gfsim_ByteMem Gfsim_Observation Gfsim_System Gfsim_WorkExecutor Gfsim_Records
begin

text \<open>
  A model of GFSIM, the simulation runtime of pyCircuit: the C++ library under \<^verbatim>\<open>src/include/gfsim\<close> and
  \<^verbatim>\<open>src/runtime\<close> that every compiled hardware model links against, with the theorems that make it correct.

  \<^bold>\<open>The program.\<close>  A hardware design is compiled to a tree of modules whose wires carry four-state values.  A
  \<^verbatim>\<open>SimSystem\<close> steps its root modules one clock phase at a time, in two passes: \<^verbatim>\<open>Work\<close> computes the next
  state of every module and stages it, and \<^verbatim>\<open>Xfer\<close> commits what was staged, after \<^verbatim>\<open>Precheck\<close> and the
  observation precommit have accepted the whole step; when anything fails, \<^verbatim>\<open>DiscardNext\<close> drops what was staged.
  The state itself sits in storage leaves (registers, queues, memories).  A \<^verbatim>\<open>WorkExecutor\<close> may run independent
  \<^verbatim>\<open>Work\<close> callbacks on a thread pool.  Around a system, \<^verbatim>\<open>SimExecutor\<close> adds configuration limits, statistics
  and error reports, and \<^verbatim>\<open>SystemRunner\<close> drives it from a command line and writes observation records.

  \<^bold>\<open>Values.\<close>
  \<^item> \<open>Gfsim_Prelude\<close>: machine words, the exceptions of the C++ code as the datatype \<open>exn\<close>, and shared lemmas.
    A function that may throw returns \<open>exn + 'a\<close>; one that leaves state behind when it throws returns the state and an
    \<open>exn option\<close>.
  \<^item> \<open>Gfsim_Bits\<close>, \<open>Gfsim_Arith\<close>: \<^verbatim>\<open>bits.h\<close>.  \<^verbatim>\<open>Bits<Width>\<close> is the list of its 64-bit words,
    least significant first, with the width as an argument; \<open>bits_wf\<close> is its invariant and \<open>bval\<close> its value.  The word loops
    (carries, borrows, limb products, shift-subtract division, shifts across words, NEON lanes) are translated as they are
    written.  The lemmas give each operation's value at every width.
  \<^item> \<open>Gfsim_FourState\<close>: \<^verbatim>\<open>four_state.h\<close>.  A value has three masks; \<open>fs_at\<close> reads a position as 0, 1, X or Z.
    The lemmas give truth tables, soundness of unknown bits (\<open>completes\<close>: the binary values a four-state value stands for),
    and the movement of positions by structural operators.
  \<^item> \<open>Gfsim_Wire\<close>: \<^verbatim>\<open>wire.h\<close>, payload layouts and table wires, with their round trips.

  \<^bold>\<open>Storage leaves.\<close>
  \<^item> \<open>Gfsim_Kernel\<close>: \<^verbatim>\<open>sampled_clock.h\<close> and \<^verbatim>\<open>collection.h\<close>.  A leaf kernel is a record of its static
    functions \<^verbatim>\<open>work\<close>, \<^verbatim>\<open>xfer\<close>, \<^verbatim>\<open>discard\<close>, \<^verbatim>\<open>reset\<close>; the locale \<open>leaf_kernel\<close> is their contract,
    interpreted on every kernel below, and gives the all-or-none commit of a collection.
  \<^item> \<open>Gfsim_Dff\<close> (\<^verbatim>\<open>dff.h\<close>), \<open>Gfsim_Fifo\<close> (\<^verbatim>\<open>fifo.h\<close>), \<open>Gfsim_Memory\<close> (\<^verbatim>\<open>sync_mem.h\<close>,
    \<^verbatim>\<open>memory_detail.h\<close>), \<open>Gfsim_ByteMem\<close> (\<^verbatim>\<open>byte_mem.h\<close>): the kernels and the modules around them.  A queue
    refines a timed queue although its timestamps wrap, and hands its tokens on in order; a memory refines a matrix of logic
    values with aged read responses; the byte memory refines a byte array.  Errors are part of each refinement.

  \<^bold>\<open>Systems.\<close>
  \<^item> \<open>Gfsim_Observation\<close>: \<^verbatim>\<open>ObservationSlot.h\<close>.  Slots borrow words of shared planes, so the planes are explicit
    and views are offsets into them.  Configure establishes \<open>obs_inv\<close>, staging writes one slot and frames the rest, the group
    check of the precommit returns, and the transfer commits exactly the active slots.
  \<^item> \<open>Gfsim_System\<close>: \<^verbatim>\<open>SimObj.h\<close>, \<^verbatim>\<open>SimModule.h\<close>, \<^verbatim>\<open>SimSystem.h\<close>.  The virtual functions of modules and
    of derived systems are records of functions on a world, the store of all modules and the observation slots.  The locale
    \<open>module_contract\<close> is what a module promises; the storage leaves fulfil it.  A step is atomic, Reset recovers, and the
    life cycle holds for every sequence of calls and every module.
  \<^item> \<open>Gfsim_WorkExecutor\<close>: \<^verbatim>\<open>WorkExecutor.h\<close>.  Threads take turns by an explicit schedule with spurious wake-ups;
    a thread blocked on a condition variable moves only when it is notified.  Every completing interleaving agrees with the
    serial run, every fair schedule completes, and the destructor joins.
  \<^item> \<open>Gfsim_Config\<close> (\<^verbatim>\<open>model_input.h\<close>, \<^verbatim>\<open>model_input.cpp\<close>): UTF-8 and the configuration parser, which accepts
    exactly the canonical documents.
  \<^item> \<open>Gfsim_Executor\<close> (\<^verbatim>\<open>SimExecutor.h\<close>, \<^verbatim>\<open>sim_executor.cpp\<close>, \<^verbatim>\<open>model_api.h\<close>): an executor and its system
    as one machine, its invariant over every sequence of calls, and the latched failure.
  \<^item> \<open>Gfsim_Runner\<close>, \<open>Gfsim_Records\<close> (\<^verbatim>\<open>SystemRunner.h\<close>, \<^verbatim>\<open>system_runner.cpp\<close>): options, metadata check, run
    loop, exit codes and records.  The run returns, and no record of a group that passed the precommit is lost.

  \<^bold>\<open>Loops and bounds.\<close>  Word loops recurse on the word lists or on an index with a measure.  Two loops are not bounded by
  their data and are partial functions whose \<open>None\<close> is divergence: \<open>check_groups\<close> of the observation slots, shown to return on
  every configured inventory, and \<open>run_loop\<close> of the runner, shown to return because a configured limit bounds the cycle.  A pool
  is driven by a finite schedule; three rounds per item and one more are enough to complete a batch, since an item takes three
  turns of a worker (claim, run, store) and the caller one.  Widths are arbitrary positive numbers; \<^verbatim>\<open>std::size_t\<close> counters
  are natural numbers where an inventory bounds them, and 64-bit words where they may wrap (cycles, timestamps, addresses).

  \<^bold>\<open>Parameters.\<close>  Virtual functions of derived systems and of modules, host callbacks, thread creation and the writing of
  files are arguments of the definitions that call them.

  \<^bold>\<open>Not modelled.\<close>
  \<^item> Failed memory allocations, and so the \<^verbatim>\<open>catch\<close> branches that only an allocation can reach.
  \<^item> The order of memory accesses below the mutexes of \<^verbatim>\<open>WorkExecutor\<close> and \<^verbatim>\<open>SimExecutor\<close>: a section that holds
    a mutex is one step.  \<^verbatim>\<open>runMutex_\<close> admits one call of \<^verbatim>\<open>run\<close> at a time and a callback does not itself start
    threads; a nested call is told apart by an argument.
  \<^item> The memories in \<^verbatim>\<open>src/include/verilog\<close> and the other SystemVerilog counterparts of the leaves.
  \<^item> The compiler under \<^verbatim>\<open>src/compiler\<close>, which works on MLIR data that the MLIR library owns; the Python frontend and
    driver under \<^verbatim>\<open>src/python\<close>; designs, examples, tests, benchmarks and build scripts.

  \<^bold>\<open>Deviations that the theorems record.\<close>  \<^verbatim>\<open>sext\<close> overwrites the whole sign word when the input width is a multiple of 64
  (\<open>sext_word_aligned\<close>), and with it \<^verbatim>\<open>sign_extend\<close>, which is declared \<^verbatim>\<open>noexcept\<close>, throws or turns X bits into
  known ones (\<open>sign_extend_terminates\<close>).
\<close>

end
